(* ===== verification/Prelude.thy ===== *)
theory Prelude
  imports Main "HOL-Library.AList" "HOL-Library.Word" "HOL-Library.Signed_Division"
begin

text \<open>
  Shared vocabulary of the development: the collections of facts that the component theories
  fill, the model's time and clock types, machine-integer casts, the model of
  \<open>std::unordered_map\<close> as an association list with distinct keys, the interface (locale) every
  client of such a map relies on, and the interface of a byte codec that decodes a value off the
  front of a byte string.
\<close>

section \<open>Collections of facts\<close>

named_theorems wf_intros \<open>operations preserve the well-formedness of their component\<close>
named_theorems view_simps \<open>what an operation does to the abstract view of its component\<close>
named_theorems len_simps \<open>lengths of encoded data\<close>

section \<open>Time\<close>

text \<open>
  A reading of \<open>std::chrono::steady_clock\<close> is a number of nanoseconds. The code reads the clock
  several times within one operation, so an operation that reads it more than once takes a clock:
  the reading at each call site, addressed by the path of call sites and loop iterations that
  leads to it. Nothing is assumed of the readings unless a statement says so.
\<close>

type_synonym time = int
type_synonym clock = "nat list \<Rightarrow> time"

definition sub_clock :: "clock \<Rightarrow> nat \<Rightarrow> clock" where
  "sub_clock c i = (\<lambda>p. c (i # p))"

lemma sub_clock_apply [simp]: "sub_clock c i p = c (i # p)"
  by (simp add: sub_clock_def)

definition ns_per_sec :: int where
  "ns_per_sec = 1000000000"

definition ns_per_ms :: int where
  "ns_per_ms = 1000000"

section \<open>Machine integers\<close>

text \<open>\<open>static_cast<int>\<close> keeps the low 32 bits as a two's complement number.\<close>

definition cast_int32 :: "int \<Rightarrow> int" where
  "cast_int32 n = signed_take_bit 31 n"

definition int_max :: int where
  "int_max = 2147483647"

definition int_min :: int where
  "int_min = - 2147483648"

abbreviation to_int32 :: "nat \<Rightarrow> int" where
  "to_int32 n \<equiv> cast_int32 (int n)"

lemma cast_int32_small [simp]: "int_min \<le> n \<Longrightarrow> n \<le> int_max \<Longrightarrow> cast_int32 n = n"
  by (simp add: cast_int32_def int_max_def int_min_def signed_take_bit_int_eq_self)

lemma cast_int32_0 [simp]: "cast_int32 0 = 0"
  by (simp add: cast_int32_def)

lemma to_int32_small [simp]: "int n \<le> int_max \<Longrightarrow> to_int32 n = int n"
  by (rule cast_int32_small) (simp_all add: int_min_def)

lemma cast_int32_range: "int_min \<le> cast_int32 n \<and> cast_int32 n \<le> int_max"
  using signed_take_bit_int_greater_eq_minus_exp [of 31 n]
    signed_take_bit_int_less_exp [of 31 n]
  by (simp add: cast_int32_def int_max_def int_min_def)

section \<open>Maps with unspecified iteration order\<close>

text \<open>
  \<open>std::unordered_map\<close> is an association list with distinct keys; the list order stands for the
  container's iteration order, which the C++ standard leaves open. Component invariants ask for
  distinct keys only, so what is proved of an arbitrary well-formed state holds for every order.
\<close>

type_synonym ('k, 'v) umap = "('k \<times> 'v) list"

definition um_find :: "('k, 'v) umap \<Rightarrow> 'k \<Rightarrow> 'v option" where
  "um_find m k = map_of m k"

definition um_count :: "'k \<Rightarrow> ('k, 'v) umap \<Rightarrow> nat" where
  "um_count k m = (if um_find m k = None then 0 else 1)"

definition um_put :: "'k \<Rightarrow> 'v \<Rightarrow> ('k, 'v) umap \<Rightarrow> ('k, 'v) umap" where
  "um_put k v m = AList.update k v m"

definition um_erase :: "'k \<Rightarrow> ('k, 'v) umap \<Rightarrow> ('k, 'v) umap" where
  "um_erase k m = filter (\<lambda>e. fst e \<noteq> k) m"

definition um_keys :: "('k, 'v) umap \<Rightarrow> 'k list" where
  "um_keys m = map fst m"

definition um_wf :: "('k, 'v) umap \<Rightarrow> bool" where
  "um_wf m \<longleftrightarrow> distinct (um_keys m)"

locale unordered_map =
  fixes lookup :: "'m \<Rightarrow> 'k \<Rightarrow> 'v option"
    and put :: "'k \<Rightarrow> 'v \<Rightarrow> 'm \<Rightarrow> 'm"
    and erase :: "'k \<Rightarrow> 'm \<Rightarrow> 'm"
    and iter :: "'m \<Rightarrow> 'k list"
    and invar :: "'m \<Rightarrow> bool"
  assumes lookup_put: "lookup (put k v m) = (lookup m)(k \<mapsto> v)"
    and lookup_erase: "lookup (erase k m) = (lookup m)(k := None)"
    and iter_keys: "set (iter m) = dom (lookup m)"
    and iter_distinct: "invar m \<Longrightarrow> distinct (iter m)"
    and invar_put: "invar m \<Longrightarrow> invar (put k v m)"
    and invar_erase: "invar m \<Longrightarrow> invar (erase k m)"
begin

lemma lookup_fold_erase:
  "lookup (fold erase ks m) = (\<lambda>k. if k \<in> set ks then None else lookup m k)"
  by (induction ks arbitrary: m) (auto simp: lookup_erase fun_eq_iff)

lemma invar_fold_erase: "invar m \<Longrightarrow> invar (fold erase ks m)"
  by (induction ks arbitrary: m) (auto intro: invar_erase)

lemma iter_length: "invar m \<Longrightarrow> length (iter m) = card (dom (lookup m))"
  using distinct_card [OF iter_distinct] by (simp add: iter_keys)

lemma iter_count:
  "invar m \<Longrightarrow> length (filter P (iter m)) = card {k \<in> dom (lookup m). P k}"
proof -
  assume "invar m"
  then have "distinct (filter P (iter m))"
    by (simp add: iter_distinct)
  then have "length (filter P (iter m)) = card (set (filter P (iter m)))"
    by (rule distinct_card [symmetric])
  also have "set (filter P (iter m)) = {k \<in> dom (lookup m). P k}"
    using iter_keys by auto
  finally show ?thesis .
qed

end

lemma um_find_eq: "um_find m = map_of m"
  by (simp add: um_find_def fun_eq_iff)

lemma um_find_put [simp]: "um_find (um_put k v m) = (um_find m)(k \<mapsto> v)"
  by (simp add: um_find_def um_put_def update_conv' fun_eq_iff)

lemma um_find_erase [simp]: "um_find (um_erase k m) = (um_find m)(k := None)"
proof
  fix x
  show "um_find (um_erase k m) x = ((um_find m)(k := None)) x"
    unfolding um_find_def um_erase_def by (induction m) (auto simp: fun_eq_iff)
qed

lemma um_find_Nil [simp]: "um_find [] = Map.empty"
  by (simp add: um_find_eq)

lemma um_erase_idle [simp]: "um_find m k = None \<Longrightarrow> um_erase k m = m"
  by (auto simp: um_find_def um_erase_def filter_id_conv dest: weak_map_of_SomeI)

lemma set_um_keys [simp]: "set (um_keys m) = dom (um_find m)"
  by (simp add: um_keys_def um_find_eq dom_map_of_conv_image_fst)

lemma um_wf_Nil [simp]: "um_wf []"
  by (simp add: um_wf_def um_keys_def)

interpretation um: unordered_map um_find um_put um_erase um_keys um_wf
proof unfold_locales
  show "um_wf (um_put k v m)" if "um_wf m" for k v and m :: "('a, 'b) umap"
    using that by (simp add: um_wf_def um_keys_def um_put_def distinct_update)
  show "um_wf (um_erase k m)" if "um_wf m" for k and m :: "('a, 'b) umap"
    using that by (simp add: um_wf_def um_keys_def um_erase_def distinct_map_filter)
  show "distinct (um_keys m)" if "um_wf m" for m :: "('a, 'b) umap"
    using that by (simp add: um_wf_def)
qed (auto)

lemmas um_wf_intros [wf_intros, intro, simp] = um.invar_put um.invar_erase um.invar_fold_erase

lemma um_count_pos [simp]: "0 < um_count k m \<longleftrightarrow> um_find m k \<noteq> None"
  by (simp add: um_count_def)

lemma um_find_in_set: "um_wf m \<Longrightarrow> (k, v) \<in> set m \<longleftrightarrow> um_find m k = Some v"
  by (simp add: um_wf_def um_keys_def um_find_def)

section \<open>Byte codecs\<close>

text \<open>
  A decoder takes a value off the front of a byte string and returns the rest. A codec's decoder
  undoes its encoder whatever follows; a sequence of encoded values then decodes to the sequence.
\<close>

type_synonym ('b, 'a) decoder = "'b list \<Rightarrow> ('a \<times> 'b list) option"

fun decode_seq :: "('b, 'a) decoder \<Rightarrow> nat \<Rightarrow> ('b, 'a list) decoder" where
  "decode_seq d 0 bs = Some ([], bs)"
| "decode_seq d (Suc n) bs =
     (case d bs of None \<Rightarrow> None
      | Some (x, bs') \<Rightarrow>
         (case decode_seq d n bs' of None \<Rightarrow> None
          | Some (xs, bs'') \<Rightarrow> Some (x # xs, bs'')))"

locale codec =
  fixes enc :: "'a \<Rightarrow> 'b list"
    and dec :: "('b, 'a) decoder"
    and valid :: "'a \<Rightarrow> bool"
  assumes dec_enc: "valid x \<Longrightarrow> dec (enc x @ rest) = Some (x, rest)"
begin

lemma decode_seq_concat:
  "list_all valid xs \<Longrightarrow>
   decode_seq dec (length xs) (concat (map enc xs) @ rest) = Some (xs, rest)"
  by (induction xs) (auto simp: dec_enc)

lemma enc_inj: "valid x \<Longrightarrow> valid y \<Longrightarrow> enc x @ r = enc y @ s \<Longrightarrow> x = y \<and> r = s"
  by (metis dec_enc option.inject prod.inject)

end

section \<open>Parsers on a growing buffer\<close>

text \<open>
  A parser that takes one value off the front of a buffer to which bytes are added at the end: it
  reports no more bytes than there are, and a value once found stays the same. Whatever the point at
  which a value is cut, the parser then waits for the rest.
\<close>

locale stream_parser =
  fixes take_one :: "'b list \<Rightarrow> ('a \<times> nat) option"
  assumes bound: "take_one b = Some (r, k) \<Longrightarrow> k \<le> length b"
    and stable: "take_one b = Some x \<Longrightarrow> take_one (b @ t) = Some x"
begin

lemma prefix_waits:
  assumes "take_one (p @ q) = Some (r, length (p @ q))" and "q \<noteq> []"
  shows "take_one p = None"
proof (rule ccontr)
  assume "take_one p \<noteq> None"
  then obtain r' k where "take_one p = Some (r', k)" by auto
  with stable [OF this, of q] bound [OF this] assms show False by (cases q) auto
qed

end

end
