(* ===== verification/Database.thy ===== *)
theory Database
  imports Prelude
begin

text \<open>
  The in-memory store of \<open>include/database/database.h\<close> and \<open>src/database/database.cpp\<close>: the three
  maps of the class, one definition per method, the well-formedness invariant the class keeps, the
  view of the live entries at a given time, and the contract (locale \<open>keyspace\<close>) the command
  handlers rely on. Each method runs under the class's mutex, so it is one atomic step.
\<close>

section \<open>State\<close>

datatype KeyType = NONE | STRING | LIST

text \<open>
  \<open>expiry_joinable\<close> is \<open>expiry_thread_.joinable()\<close>; the condition variable has no state of its own.
\<close>

record database =
  store :: "(string, string) umap"
  list_store :: "(string, string list) umap"
  expiry :: "(string, time) umap"
  expiry_running :: bool
  expiry_joinable :: bool

record DatabaseSnapshot =
  snap_store :: "(string, string) umap"
  snap_list_store :: "(string, string list) umap"
  snap_expiry :: "(string, time) umap"

definition new_database :: database where
  "new_database = \<lparr>store = [], list_store = [], expiry = [],
     expiry_running = False, expiry_joinable = False\<rparr>"

section \<open>Helpers\<close>

definition key_type_unlocked :: "string \<Rightarrow> database \<Rightarrow> KeyType" where
  "key_type_unlocked key db =
     (if um_count key (store db) > 0 then STRING
      else if um_count key (list_store db) > 0 then LIST
      else NONE)"

definition key_exists_unlocked :: "string \<Rightarrow> database \<Rightarrow> bool" where
  "key_exists_unlocked key db \<longleftrightarrow>
     um_count key (store db) > 0 \<or> um_count key (list_store db) > 0"

definition is_expired_unlocked :: "time \<Rightarrow> string \<Rightarrow> database \<Rightarrow> bool" where
  "is_expired_unlocked now key db =
     (case um_find (expiry db) key of None \<Rightarrow> False | Some deadline \<Rightarrow> deadline \<le> now)"

definition remove_expired_unlocked :: "string \<Rightarrow> database \<Rightarrow> database" where
  "remove_expired_unlocked key db =
     db\<lparr>store := um_erase key (store db),
        list_store := um_erase key (list_store db),
        expiry := um_erase key (expiry db)\<rparr>"

section \<open>Core commands\<close>

definition db_set :: "string \<Rightarrow> string \<Rightarrow> database \<Rightarrow> database" where
  "db_set key val db =
     db\<lparr>list_store := um_erase key (list_store db),
        store := um_put key val (store db),
        expiry := um_erase key (expiry db)\<rparr>"

definition db_get :: "time \<Rightarrow> string \<Rightarrow> database \<Rightarrow> string option \<times> database" where
  "db_get now key db =
     (if is_expired_unlocked now key db then (None, remove_expired_unlocked key db)
      else (um_find (store db) key, db))"

text \<open>
  The loops of \<open>del\<close> and \<open>exists\<close>. Their \<open>int\<close> counters do not overflow: they grow by at most one per key
  (\<open>counts_fit\<close> in \<open>Keyspace\<close>), and the RESP parser reads the number of arguments as an \<open>int\<close>.
\<close>

fun del_loop :: "string list \<Rightarrow> int \<Rightarrow> database \<Rightarrow> int \<times> database" where
  "del_loop [] count db = (count, db)"
| "del_loop (key # keys) count db =
     (let removed = um_count key (store db) + um_count key (list_store db);
          db' = db\<lparr>store := um_erase key (store db),
                   list_store := um_erase key (list_store db)\<rparr>
      in if removed > 0
         then del_loop keys (count + 1) (db'\<lparr>expiry := um_erase key (expiry db')\<rparr>)
         else del_loop keys count db')"

definition db_del :: "string list \<Rightarrow> database \<Rightarrow> int \<times> database" where
  "db_del keys db = del_loop keys 0 db"

text \<open>The clock is read once per key: reading \<open>c [i]\<close> belongs to the \<open>i\<close>-th key.\<close>

fun exists_loop :: "clock \<Rightarrow> nat \<Rightarrow> string list \<Rightarrow> int \<Rightarrow> database \<Rightarrow> int \<times> database" where
  "exists_loop c i [] count db = (count, db)"
| "exists_loop c i (key # keys) count db =
     (if is_expired_unlocked (c [i]) key db
      then exists_loop c (Suc i) keys count (remove_expired_unlocked key db)
      else if key_exists_unlocked key db then exists_loop c (Suc i) keys (count + 1) db
      else exists_loop c (Suc i) keys count db)"

definition db_exists :: "clock \<Rightarrow> string list \<Rightarrow> database \<Rightarrow> int \<times> database" where
  "db_exists c keys db = exists_loop c 0 keys 0 db"

text \<open>
  \<open>keys\<close> and \<open>dbsize\<close> walk the two maps; reading \<open>c [0, i]\<close> belongs to the \<open>i\<close>-th string key and
  \<open>c [1, i]\<close> to the \<open>i\<close>-th list key. A scan returns the live and the expired keys it meets.
\<close>

fun scan_keys :: "clock \<Rightarrow> nat \<Rightarrow> string list \<Rightarrow> database \<Rightarrow> string list \<times> string list" where
  "scan_keys c i [] db = ([], [])"
| "scan_keys c i (key # keys) db =
     (let (live, expired) = scan_keys c (Suc i) keys db
      in if is_expired_unlocked (c [i]) key db then (live, key # expired)
         else (key # live, expired))"

definition db_keys :: "clock \<Rightarrow> database \<Rightarrow> string list \<times> database" where
  "db_keys c db =
     (let (live1, expired1) = scan_keys (sub_clock c 0) 0 (um_keys (store db)) db;
          (live2, expired2) = scan_keys (sub_clock c 1) 0 (um_keys (list_store db)) db
      in (live1 @ live2, fold remove_expired_unlocked (expired1 @ expired2) db))"

fun count_keys :: "clock \<Rightarrow> nat \<Rightarrow> string list \<Rightarrow> nat \<Rightarrow> string list \<Rightarrow> database
    \<Rightarrow> nat \<times> string list" where
  "count_keys c i [] count expired db = (count, expired)"
| "count_keys c i (key # keys) count expired db =
     (if is_expired_unlocked (c [i]) key db
      then count_keys c (Suc i) keys count (expired @ [key]) db
      else count_keys c (Suc i) keys (Suc count) expired db)"

definition db_dbsize :: "clock \<Rightarrow> database \<Rightarrow> nat \<times> database" where
  "db_dbsize c db =
     (let (n1, expired1) = count_keys (sub_clock c 0) 0 (um_keys (store db)) 0 [] db;
          (n2, expired2) = count_keys (sub_clock c 1) 0 (um_keys (list_store db)) n1 expired1 db
      in (n2, fold remove_expired_unlocked expired2 db))"

definition db_flushdb :: "database \<Rightarrow> database" where
  "db_flushdb db = db\<lparr>store := [], list_store := [], expiry := []\<rparr>"

section \<open>List commands\<close>

text \<open>\<open>list_store_[key]\<close> default-constructs a missing list.\<close>

definition list_at :: "string \<Rightarrow> database \<Rightarrow> string list" where
  "list_at key db = (case um_find (list_store db) key of None \<Rightarrow> [] | Some l \<Rightarrow> l)"

definition db_lpush :: "time \<Rightarrow> string \<Rightarrow> string list \<Rightarrow> database \<Rightarrow> int \<times> database" where
  "db_lpush now key vals db0 =
     (let db = (if is_expired_unlocked now key db0 then remove_expired_unlocked key db0 else db0)
      in if um_count key (store db) > 0 then (-1, db)
         else let l = fold (\<lambda>val l. val # l) vals (list_at key db)
              in (to_int32 (length l), db\<lparr>list_store := um_put key l (list_store db)\<rparr>))"

definition db_rpush :: "time \<Rightarrow> string \<Rightarrow> string list \<Rightarrow> database \<Rightarrow> int \<times> database" where
  "db_rpush now key vals db0 =
     (let db = (if is_expired_unlocked now key db0 then remove_expired_unlocked key db0 else db0)
      in if um_count key (store db) > 0 then (-1, db)
         else let l = fold (\<lambda>val l. l @ [val]) vals (list_at key db)
              in (to_int32 (length l), db\<lparr>list_store := um_put key l (list_store db)\<rparr>))"

text \<open>Erase a list key together with its deadline (the two erase calls of the pop methods).\<close>

definition erase_list :: "string \<Rightarrow> database \<Rightarrow> database" where
  "erase_list key db =
     db\<lparr>list_store := um_erase key (list_store db), expiry := um_erase key (expiry db)\<rparr>"

definition db_lpop :: "time \<Rightarrow> string \<Rightarrow> database \<Rightarrow> string option \<times> database" where
  "db_lpop now key db =
     (if is_expired_unlocked now key db then (None, remove_expired_unlocked key db)
      else case um_find (list_store db) key of
        None \<Rightarrow> (None, db)
      | Some [] \<Rightarrow> (None, erase_list key db)
      | Some (val # l) \<Rightarrow>
          (Some val,
           if l = [] then erase_list key db
           else db\<lparr>list_store := um_put key l (list_store db)\<rparr>))"

definition db_rpop :: "time \<Rightarrow> string \<Rightarrow> database \<Rightarrow> string option \<times> database" where
  "db_rpop now key db =
     (if is_expired_unlocked now key db then (None, remove_expired_unlocked key db)
      else case um_find (list_store db) key of
        None \<Rightarrow> (None, db)
      | Some l \<Rightarrow>
          (if l = [] then (None, erase_list key db)
           else (Some (last l),
                 if butlast l = [] then erase_list key db
                 else db\<lparr>list_store := um_put key (butlast l) (list_store db)\<rparr>)))"

definition db_lrange :: "time \<Rightarrow> string \<Rightarrow> int \<Rightarrow> int \<Rightarrow> database \<Rightarrow> string list \<times> database" where
  "db_lrange now key start stop db =
     (if is_expired_unlocked now key db then ([], remove_expired_unlocked key db)
      else case um_find (list_store db) key of
        None \<Rightarrow> ([], db)
      | Some l \<Rightarrow>
          (let len = to_int32 (length l);
               start1 = (if start < 0 then len + start else start);
               stop1 = (if stop < 0 then len + stop else stop);
               start2 = (if start1 < 0 then 0 else start1);
               stop2 = (if stop1 \<ge> len then len - 1 else stop1)
           in if start2 > stop2 \<or> start2 \<ge> len then ([], db)
              else (map (\<lambda>i. l ! nat i) [start2..stop2], db)))"

definition db_llen :: "time \<Rightarrow> string \<Rightarrow> database \<Rightarrow> int \<times> database" where
  "db_llen now key db =
     (if is_expired_unlocked now key db then (0, remove_expired_unlocked key db)
      else if um_count key (store db) > 0 then (-1, db)
      else case um_find (list_store db) key of
        None \<Rightarrow> (0, db)
      | Some l \<Rightarrow> (to_int32 (length l), db))"

definition db_lindex :: "time \<Rightarrow> string \<Rightarrow> int \<Rightarrow> database \<Rightarrow> string option \<times> database" where
  "db_lindex now key index db =
     (if is_expired_unlocked now key db then (None, remove_expired_unlocked key db)
      else case um_find (list_store db) key of
        None \<Rightarrow> (None, db)
      | Some l \<Rightarrow>
          (let len = to_int32 (length l);
               index1 = (if index < 0 then len + index else index)
           in if index1 < 0 \<or> index1 \<ge> len then (None, db)
              else (Some (l ! nat index1), db)))"

section \<open>Time-to-live commands\<close>

text \<open>
  \<open>c [0]\<close> is the reading of the expiry check and \<open>c [1]\<close> the reading for the new deadline or the
  remaining time. \<open>duration_cast\<close> truncates towards zero.
\<close>

definition db_expire :: "clock \<Rightarrow> string \<Rightarrow> int \<Rightarrow> database \<Rightarrow> bool \<times> database" where
  "db_expire c key seconds db =
     (if \<not> key_exists_unlocked key db then (False, db)
      else if is_expired_unlocked (c [0]) key db then (False, remove_expired_unlocked key db)
      else (True, db\<lparr>expiry := um_put key (c [1] + seconds * ns_per_sec) (expiry db)\<rparr>))"

definition db_ttl :: "clock \<Rightarrow> string \<Rightarrow> database \<Rightarrow> int \<times> database" where
  "db_ttl c key db =
     (if \<not> key_exists_unlocked key db then (-2, db)
      else if is_expired_unlocked (c [0]) key db then (-2, remove_expired_unlocked key db)
      else case um_find (expiry db) key of
        None \<Rightarrow> (-1, db)
      | Some deadline \<Rightarrow> (cast_int32 ((deadline - c [1]) sdiv ns_per_sec), db))"

definition db_persist :: "time \<Rightarrow> string \<Rightarrow> database \<Rightarrow> bool \<times> database" where
  "db_persist now key db =
     (if \<not> key_exists_unlocked key db then (False, db)
      else if is_expired_unlocked now key db then (False, remove_expired_unlocked key db)
      else (um_count key (expiry db) > 0, db\<lparr>expiry := um_erase key (expiry db)\<rparr>))"

section \<open>Background expiry\<close>

text \<open>
  Assigning to a joinable \<open>std::thread\<close> calls \<open>std::terminate\<close>: the value \<^term>\<open>None\<close>.
\<close>

definition start_expiry_thread :: "database \<Rightarrow> database option" where
  "start_expiry_thread db =
     (if expiry_joinable db then None
      else Some (db\<lparr>expiry_running := True, expiry_joinable := True\<rparr>))"

definition stop_expiry_thread :: "database \<Rightarrow> database" where
  "stop_expiry_thread db =
     (if expiry_running db then db\<lparr>expiry_running := False, expiry_joinable := False\<rparr> else db)"

text \<open>The destructor.\<close>

definition database_destroy :: "database \<Rightarrow> database" where
  "database_destroy db = stop_expiry_thread db"

definition MAX_SAMPLE :: nat where
  "MAX_SAMPLE = 20"

text \<open>
  One round of \<open>expiry_loop\<close>, after its wait: leave the loop when stopped (\<^term>\<open>False\<close>), otherwise
  look at the first \<^const>\<open>MAX_SAMPLE\<close> entries of the expiry map, erase those past their deadline
  and go on. Other operations run between the rounds.
\<close>

definition expiry_scan :: "time \<Rightarrow> database \<Rightarrow> database" where
  "expiry_scan now db =
     (if expiry db = [] then db
      else let to_delete = map fst (filter (\<lambda>e. snd e \<le> now) (take MAX_SAMPLE (expiry db)))
           in fold remove_expired_unlocked to_delete db)"

definition expiry_loop :: "time \<Rightarrow> database \<Rightarrow> bool \<times> database" where
  "expiry_loop now db = (if \<not> expiry_running db then (False, db) else (True, expiry_scan now db))"

section \<open>Snapshots\<close>

definition get_snapshot :: "database \<Rightarrow> DatabaseSnapshot" where
  "get_snapshot db =
     \<lparr>snap_store = store db, snap_list_store = list_store db, snap_expiry = expiry db\<rparr>"

definition load_snapshot :: "DatabaseSnapshot \<Rightarrow> database \<Rightarrow> database" where
  "load_snapshot snap db =
     db\<lparr>store := snap_store snap, list_store := snap_list_store snap, expiry := snap_expiry snap\<rparr>"


section \<open>Well-formedness\<close>

text \<open>
  A key is in at most one of the two stores, only existing keys have a deadline, and the three maps
  have distinct keys.
\<close>

definition db_wf :: "database \<Rightarrow> bool" where
  "db_wf db \<longleftrightarrow>
     um_wf (store db) \<and> um_wf (list_store db) \<and> um_wf (expiry db) \<and>
     dom (um_find (store db)) \<inter> dom (um_find (list_store db)) = {} \<and>
     dom (um_find (expiry db)) \<subseteq> dom (um_find (store db)) \<union> dom (um_find (list_store db))"

text \<open>No key holds an empty list (\<open>"Auto-delete empty lists"\<close>).\<close>

definition no_empty_lists :: "database \<Rightarrow> bool" where
  "no_empty_lists db \<longleftrightarrow> (\<forall>key. um_find (list_store db) key \<noteq> Some [])"

definition db_inv :: "database \<Rightarrow> bool" where
  "db_inv db \<longleftrightarrow> db_wf db \<and> no_empty_lists db"

lemma db_wf_new [wf_intros]: "db_wf new_database"
  by (simp add: db_wf_def new_database_def)

lemma db_wf_remove_expired [wf_intros, intro]:
  "db_wf db \<Longrightarrow> db_wf (remove_expired_unlocked key db)"
  by (auto simp: db_wf_def remove_expired_unlocked_def)

lemma db_wf_fold_remove [wf_intros, intro]:
  "db_wf db \<Longrightarrow> db_wf (fold remove_expired_unlocked keys db)"
  by (induction keys arbitrary: db) auto

lemma db_wf_set [wf_intros, intro]: "db_wf db \<Longrightarrow> db_wf (db_set key val db)"
  by (auto simp: db_wf_def db_set_def)

lemma db_wf_get [wf_intros, intro]: "db_wf db \<Longrightarrow> db_wf (snd (db_get now key db))"
  by (auto simp: db_get_def)

lemma db_wf_erase_list [wf_intros, intro]: "db_wf db \<Longrightarrow> db_wf (erase_list key db)"
  by (auto simp: db_wf_def erase_list_def dom_def)

lemma db_wf_put_list [wf_intros, intro]:
  "db_wf db \<Longrightarrow> um_find (store db) key = None \<Longrightarrow>
   db_wf (db\<lparr>list_store := um_put key l (list_store db)\<rparr>)"
  by (auto simp: db_wf_def)

text \<open>Under the guard, one round of \<open>del\<close> is the removal of the key from all three maps.\<close>

lemma del_loop_Cons:
  "del_loop (key # keys) count db =
     (if key_exists_unlocked key db
      then del_loop keys (count + 1) (remove_expired_unlocked key db)
      else del_loop keys count db)"
  by (auto simp: Let_def key_exists_unlocked_def remove_expired_unlocked_def um_count_def)

declare del_loop.simps(2) [simp del]

lemma db_wf_del [wf_intros, intro]: "db_wf db \<Longrightarrow> db_wf (snd (db_del keys db))"
proof -
  have "db_wf db \<Longrightarrow> db_wf (snd (del_loop keys count db))" for count
    by (induction keys arbitrary: count db) (auto simp: del_loop_Cons)
  then show "db_wf db \<Longrightarrow> db_wf (snd (db_del keys db))"
    by (simp add: db_del_def)
qed

lemma db_wf_exists [wf_intros, intro]: "db_wf db \<Longrightarrow> db_wf (snd (db_exists c keys db))"
proof -
  have "db_wf db \<Longrightarrow> db_wf (snd (exists_loop c i keys count db))" for i count
    by (induction keys arbitrary: i count db) (auto simp: db_wf_remove_expired)
  then show "db_wf db \<Longrightarrow> db_wf (snd (db_exists c keys db))"
    by (simp add: db_exists_def)
qed

lemma db_wf_keys [wf_intros, intro]: "db_wf db \<Longrightarrow> db_wf (snd (db_keys c db))"
  by (auto simp: db_keys_def Let_def split: prod.split)

lemma db_wf_dbsize [wf_intros, intro]: "db_wf db \<Longrightarrow> db_wf (snd (db_dbsize c db))"
  by (auto simp: db_dbsize_def Let_def split: prod.split)

lemma db_wf_flushdb [wf_intros, intro]: "db_wf (db_flushdb db)"
  by (simp add: db_wf_def db_flushdb_def)

lemma db_wf_lpush [wf_intros, intro]: "db_wf db \<Longrightarrow> db_wf (snd (db_lpush now key vals db))"
  by (auto simp: db_lpush_def Let_def um_count_def)

lemma db_wf_rpush [wf_intros, intro]: "db_wf db \<Longrightarrow> db_wf (snd (db_rpush now key vals db))"
  by (auto simp: db_rpush_def Let_def um_count_def)

lemma store_None_if_list:
  "db_wf db \<Longrightarrow> um_find (list_store db) key = Some l \<Longrightarrow> um_find (store db) key = None"
  by (auto simp: db_wf_def)

lemma db_wf_lpop [wf_intros, intro]: "db_wf db \<Longrightarrow> db_wf (snd (db_lpop now key db))"
  by (auto simp: db_lpop_def store_None_if_list split: option.split list.split)

lemma db_wf_rpop [wf_intros, intro]: "db_wf db \<Longrightarrow> db_wf (snd (db_rpop now key db))"
  by (auto simp: db_rpop_def store_None_if_list split: option.split)

lemma db_wf_lrange [wf_intros, intro]:
  "db_wf db \<Longrightarrow> db_wf (snd (db_lrange now key start stop db))"
  by (auto simp: db_lrange_def Let_def split: option.split)

lemma db_wf_llen [wf_intros, intro]: "db_wf db \<Longrightarrow> db_wf (snd (db_llen now key db))"
  by (auto simp: db_llen_def split: option.split)

lemma db_wf_lindex [wf_intros, intro]: "db_wf db \<Longrightarrow> db_wf (snd (db_lindex now key i db))"
  by (auto simp: db_lindex_def Let_def split: option.split)

lemma db_wf_expire [wf_intros, intro]: "db_wf db \<Longrightarrow> db_wf (snd (db_expire c key secs db))"
  by (auto simp: db_expire_def key_exists_unlocked_def) (auto simp: db_wf_def)

lemma db_wf_ttl [wf_intros, intro]: "db_wf db \<Longrightarrow> db_wf (snd (db_ttl c key db))"
  by (auto simp: db_ttl_def split: option.split)

lemma db_wf_persist [wf_intros, intro]: "db_wf db \<Longrightarrow> db_wf (snd (db_persist now key db))"
  by (auto simp: db_persist_def) (auto simp: db_wf_def)

lemma db_wf_expiry_loop [wf_intros, intro]: "db_wf db \<Longrightarrow> db_wf (snd (expiry_loop now db))"
  by (auto simp: expiry_loop_def expiry_scan_def Let_def)


section \<open>Empty lists\<close>

lemma no_empty_remove_expired [intro]:
  "no_empty_lists db \<Longrightarrow> no_empty_lists (remove_expired_unlocked key db)"
  by (auto simp: no_empty_lists_def remove_expired_unlocked_def)

lemma no_empty_fold_remove [intro]:
  "no_empty_lists db \<Longrightarrow> no_empty_lists (fold remove_expired_unlocked keys db)"
  by (induction keys arbitrary: db) auto

lemma no_empty_erase_list [intro]: "no_empty_lists db \<Longrightarrow> no_empty_lists (erase_list key db)"
  by (auto simp: no_empty_lists_def erase_list_def)

lemma no_empty_put_list [intro]:
  "no_empty_lists db \<Longrightarrow> l \<noteq> [] \<Longrightarrow>
   no_empty_lists (db\<lparr>list_store := um_put key l (list_store db)\<rparr>)"
  by (auto simp: no_empty_lists_def)

lemma no_empty_frame [intro]: "no_empty_lists db \<Longrightarrow> no_empty_lists (db\<lparr>expiry := e\<rparr>)"
  by (simp add: no_empty_lists_def)

lemma fold_push_front: "fold (\<lambda>val l. val # l) vals l = rev vals @ l"
  by (induction vals arbitrary: l) auto

lemma fold_push_back: "fold (\<lambda>val l. l @ [val]) vals l = l @ vals"
  by (induction vals arbitrary: l) auto

lemma no_empty_set: "no_empty_lists db \<Longrightarrow> no_empty_lists (db_set key val db)"
  by (auto simp: db_set_def no_empty_lists_def)

lemma no_empty_del: "no_empty_lists db \<Longrightarrow> no_empty_lists (snd (db_del keys db))"
proof -
  have "no_empty_lists db \<Longrightarrow> no_empty_lists (snd (del_loop keys count db))" for count
    by (induction keys arbitrary: count db) (auto simp: del_loop_Cons no_empty_remove_expired)
  then show "no_empty_lists db \<Longrightarrow> no_empty_lists (snd (db_del keys db))"
    by (simp add: db_del_def)
qed

lemma no_empty_exists: "no_empty_lists db \<Longrightarrow> no_empty_lists (snd (db_exists c keys db))"
proof -
  have "no_empty_lists db \<Longrightarrow> no_empty_lists (snd (exists_loop c i keys count db))" for i count
    by (induction keys arbitrary: i count db) (auto simp: no_empty_remove_expired)
  then show "no_empty_lists db \<Longrightarrow> no_empty_lists (snd (db_exists c keys db))"
    by (simp add: db_exists_def)
qed

text \<open>The invariant of the class: every method keeps it (the pushes with a value to push).\<close>

lemma db_inv_new: "db_inv new_database"
  by (simp add: db_inv_def db_wf_new) (simp add: no_empty_lists_def new_database_def)

lemma db_inv_remove_expired [intro]: "db_inv db \<Longrightarrow> db_inv (remove_expired_unlocked key db)"
  by (auto simp: db_inv_def)

lemma db_inv_set [wf_intros, intro]: "db_inv db \<Longrightarrow> db_inv (db_set key val db)"
  by (auto simp: db_inv_def no_empty_set)

lemma db_inv_get [wf_intros, intro]: "db_inv db \<Longrightarrow> db_inv (snd (db_get now key db))"
  by (auto simp: db_inv_def) (auto simp: db_get_def)

lemma db_inv_del [wf_intros, intro]: "db_inv db \<Longrightarrow> db_inv (snd (db_del keys db))"
  by (auto simp: db_inv_def no_empty_del)

lemma db_inv_exists [wf_intros, intro]: "db_inv db \<Longrightarrow> db_inv (snd (db_exists c keys db))"
  by (auto simp: db_inv_def no_empty_exists)

lemma db_inv_keys [wf_intros, intro]: "db_inv db \<Longrightarrow> db_inv (snd (db_keys c db))"
  by (auto simp: db_inv_def) (auto simp: db_keys_def Let_def split: prod.split)

lemma db_inv_dbsize [wf_intros, intro]: "db_inv db \<Longrightarrow> db_inv (snd (db_dbsize c db))"
  by (auto simp: db_inv_def) (auto simp: db_dbsize_def Let_def split: prod.split)

lemma db_inv_flushdb [wf_intros, intro]: "db_inv (db_flushdb db)"
  by (auto simp: db_inv_def) (simp add: db_flushdb_def no_empty_lists_def)

lemma db_inv_lpush [wf_intros, intro]:
  "db_inv db \<Longrightarrow> vals \<noteq> [] \<Longrightarrow> db_inv (snd (db_lpush now key vals db))"
  by (auto simp: db_inv_def) (auto simp: db_lpush_def Let_def fold_push_front)

lemma db_inv_rpush [wf_intros, intro]:
  "db_inv db \<Longrightarrow> vals \<noteq> [] \<Longrightarrow> db_inv (snd (db_rpush now key vals db))"
  by (auto simp: db_inv_def) (auto simp: db_rpush_def Let_def fold_push_back)

lemma db_inv_lpop [wf_intros, intro]: "db_inv db \<Longrightarrow> db_inv (snd (db_lpop now key db))"
  by (auto simp: db_inv_def) (auto simp: db_lpop_def split: option.split list.split)

lemma db_inv_rpop [wf_intros, intro]: "db_inv db \<Longrightarrow> db_inv (snd (db_rpop now key db))"
  by (auto simp: db_inv_def) (auto simp: db_rpop_def split: option.split)

lemma db_inv_lrange [wf_intros, intro]:
  "db_inv db \<Longrightarrow> db_inv (snd (db_lrange now key start stop db))"
  by (auto simp: db_inv_def) (auto simp: db_lrange_def Let_def split: option.split)

lemma db_inv_llen [wf_intros, intro]: "db_inv db \<Longrightarrow> db_inv (snd (db_llen now key db))"
  by (auto simp: db_inv_def) (auto simp: db_llen_def split: option.split)

lemma db_inv_lindex [wf_intros, intro]: "db_inv db \<Longrightarrow> db_inv (snd (db_lindex now key i db))"
  by (auto simp: db_inv_def) (auto simp: db_lindex_def Let_def split: option.split)

lemma db_inv_expire [wf_intros, intro]: "db_inv db \<Longrightarrow> db_inv (snd (db_expire c key secs db))"
  by (auto simp: db_inv_def) (auto simp: db_expire_def)

lemma db_inv_ttl [wf_intros, intro]: "db_inv db \<Longrightarrow> db_inv (snd (db_ttl c key db))"
  by (auto simp: db_inv_def) (auto simp: db_ttl_def split: option.split)

lemma db_inv_persist [wf_intros, intro]: "db_inv db \<Longrightarrow> db_inv (snd (db_persist now key db))"
  by (auto simp: db_inv_def) (auto simp: db_persist_def)

lemma db_inv_expiry_loop [wf_intros, intro]: "db_inv db \<Longrightarrow> db_inv (snd (expiry_loop now db))"
  by (auto simp: db_inv_def) (auto simp: expiry_loop_def expiry_scan_def Let_def)

section \<open>The live entries at a time\<close>

datatype redis_value = VString string | VList "string list"

type_synonym entry = "redis_value \<times> time option"

fun fresh :: "time \<Rightarrow> entry \<Rightarrow> bool" where
  "fresh now (v, None) = True"
| "fresh now (v, Some deadline) = (now < deadline)"

definition entry_of :: "database \<Rightarrow> string \<Rightarrow> entry option" where
  "entry_of db key =
     (case um_find (store db) key of
        Some v \<Rightarrow> Some (VString v, um_find (expiry db) key)
      | None \<Rightarrow>
          (case um_find (list_store db) key of
             Some l \<Rightarrow> Some (VList l, um_find (expiry db) key)
           | None \<Rightarrow> None))"

definition at_time :: "time \<Rightarrow> entry \<Rightarrow> entry option" where
  "at_time now e = (if fresh now e then Some e else None)"

definition view :: "time \<Rightarrow> database \<Rightarrow> string \<Rightarrow> entry option" where
  "view now db key = Option.bind (entry_of db key) (at_time now)"

lemma fresh_iff: "fresh now e \<longleftrightarrow> (case snd e of None \<Rightarrow> True | Some d \<Rightarrow> now < d)"
  by (cases e; cases "snd e") auto

lemma fresh_mono: "fresh now' e \<Longrightarrow> now \<le> now' \<Longrightarrow> fresh now e"
  by (auto simp: fresh_iff split: option.splits)

lemma view_later:
  "now \<le> now' \<Longrightarrow> view now' db key = Option.bind (view now db key) (at_time now')"
  by (cases "entry_of db key") (auto simp: view_def at_time_def dest: fresh_mono)

lemmas view_defs = view_def entry_of_def at_time_def fresh_iff is_expired_unlocked_def

lemma view_expired:
  "is_expired_unlocked now key db \<Longrightarrow> now \<le> now' \<Longrightarrow> view now' db key = None"
  by (auto simp: view_defs split: option.splits)

lemma view_live: "\<not> is_expired_unlocked now key db \<Longrightarrow> view now db key = entry_of db key"
  by (auto simp: view_defs split: option.splits)

lemma view_remove_expired [view_simps]:
  "view now (remove_expired_unlocked key db) = (view now db)(key := None)"
  by (auto simp: view_defs remove_expired_unlocked_def fun_eq_iff split: option.splits)

lemma view_remove_if_expired [view_simps]:
  "is_expired_unlocked now key db \<Longrightarrow> now \<le> now' \<Longrightarrow>
   view now' (remove_expired_unlocked key db) = view now' db"
  by (auto simp: view_remove_expired view_expired fun_eq_iff)

lemma view_set [view_simps]:
  "view now (db_set key val db) = (view now db)(key \<mapsto> (VString val, None))"
  by (auto simp: view_defs db_set_def fun_eq_iff split: option.splits)

lemma view_put_list [view_simps]:
  "um_find (store db) key = None \<Longrightarrow>
   view now (db\<lparr>list_store := um_put key l (list_store db)\<rparr>) =
     (view now db)(key := at_time now (VList l, um_find (expiry db) key))"
  by (auto simp: view_defs fun_eq_iff split: option.splits)

lemma view_erase_list [view_simps]:
  "um_find (store db) key = None \<Longrightarrow>
   view now (erase_list key db) = (view now db)(key := None)"
  by (auto simp: view_defs erase_list_def fun_eq_iff split: option.splits)


section \<open>The contract of a keyspace\<close>

text \<open>What each operation does to the entry of its key, in terms of live entries only.\<close>

definition as_string :: "entry option \<Rightarrow> string option" where
  "as_string e = (case e of Some (VString v, _) \<Rightarrow> Some v | _ \<Rightarrow> None)"

definition as_list :: "entry option \<Rightarrow> string list" where
  "as_list e = (case e of Some (VList l, _) \<Rightarrow> l | _ \<Rightarrow> [])"

definition is_string :: "entry option \<Rightarrow> bool" where
  "is_string e \<longleftrightarrow> as_string e \<noteq> None"

definition deadline_of :: "entry option \<Rightarrow> time option" where
  "deadline_of e = Option.bind e snd"

definition push_spec :: "(string list \<Rightarrow> string list) \<Rightarrow> entry option \<Rightarrow> int \<times> entry option" where
  "push_spec f e =
     (if is_string e then (-1, e)
      else (to_int32 (length (f (as_list e))), Some (VList (f (as_list e)), deadline_of e)))"

definition pop_spec :: "(string list \<Rightarrow> string) \<Rightarrow> (string list \<Rightarrow> string list) \<Rightarrow> entry option
    \<Rightarrow> string option \<times> entry option" where
  "pop_spec get rest e =
     (if is_string e \<or> e = None then (None, e)
      else if as_list e = [] then (None, None)
      else (Some (get (as_list e)),
            if rest (as_list e) = [] then None
            else Some (VList (rest (as_list e)), deadline_of e)))"

definition llen_spec :: "entry option \<Rightarrow> int" where
  "llen_spec e = (if is_string e then -1 else to_int32 (length (as_list e)))"

lemmas spec_defs = as_string_def as_list_def is_string_def deadline_of_def push_spec_def
  pop_spec_def llen_spec_def

text \<open>Repeated pops, one per time of a list.\<close>

fun pops :: "(time \<Rightarrow> 'db \<Rightarrow> 'a option \<times> 'db) \<Rightarrow> time list \<Rightarrow> 'db \<Rightarrow> 'a option list \<times> 'db" where
  "pops pop [] db = ([], db)"
| "pops pop (t # ts) db =
     (let (r, db') = pop t db; (rs, db'') = pops pop ts db' in (r # rs, db''))"

locale keyspace =
  fixes inv :: "'db \<Rightarrow> bool"
    and live :: "time \<Rightarrow> 'db \<Rightarrow> string \<Rightarrow> entry option"
    and kset :: "string \<Rightarrow> string \<Rightarrow> 'db \<Rightarrow> 'db"
    and kget :: "time \<Rightarrow> string \<Rightarrow> 'db \<Rightarrow> string option \<times> 'db"
    and kdel :: "string list \<Rightarrow> 'db \<Rightarrow> int \<times> 'db"
    and klpush :: "time \<Rightarrow> string \<Rightarrow> string list \<Rightarrow> 'db \<Rightarrow> int \<times> 'db"
    and krpush :: "time \<Rightarrow> string \<Rightarrow> string list \<Rightarrow> 'db \<Rightarrow> int \<times> 'db"
    and klpop :: "time \<Rightarrow> string \<Rightarrow> 'db \<Rightarrow> string option \<times> 'db"
    and krpop :: "time \<Rightarrow> string \<Rightarrow> 'db \<Rightarrow> string option \<times> 'db"
    and kllen :: "time \<Rightarrow> string \<Rightarrow> 'db \<Rightarrow> int \<times> 'db"
    and kexpire :: "clock \<Rightarrow> string \<Rightarrow> int \<Rightarrow> 'db \<Rightarrow> bool \<times> 'db"
    and kpersist :: "time \<Rightarrow> string \<Rightarrow> 'db \<Rightarrow> bool \<times> 'db"
  assumes live_later: "now \<le> now' \<Longrightarrow> live now' db key = Option.bind (live now db key) (at_time now')"
    and inv_set: "inv db \<Longrightarrow> inv (kset key val db)"
    and live_set: "inv db \<Longrightarrow> live now (kset key val db) = (live now db)(key \<mapsto> (VString val, None))"
    and inv_get: "inv db \<Longrightarrow> inv (snd (kget now key db))"
    and get_result: "inv db \<Longrightarrow> fst (kget now key db) = as_string (live now db key)"
    and live_get: "inv db \<Longrightarrow> now \<le> now' \<Longrightarrow> live now' (snd (kget now key db)) = live now' db"
    and inv_del: "inv db \<Longrightarrow> inv (snd (kdel keys db))"
    and live_del: "inv db \<Longrightarrow>
      live now (snd (kdel keys db)) = (\<lambda>k. if k \<in> set keys then None else live now db k)"
    and inv_lpush: "inv db \<Longrightarrow> vals \<noteq> [] \<Longrightarrow> inv (snd (klpush now key vals db))"
    and lpush_result: "inv db \<Longrightarrow>
      fst (klpush now key vals db) = fst (push_spec (\<lambda>l. rev vals @ l) (live now db key))"
    and live_lpush: "inv db \<Longrightarrow> now \<le> now' \<Longrightarrow>
      live now' (snd (klpush now key vals db)) = (live now' db)
        (key := Option.bind (snd (push_spec (\<lambda>l. rev vals @ l) (live now db key))) (at_time now'))"
    and inv_rpush: "inv db \<Longrightarrow> vals \<noteq> [] \<Longrightarrow> inv (snd (krpush now key vals db))"
    and rpush_result: "inv db \<Longrightarrow>
      fst (krpush now key vals db) = fst (push_spec (\<lambda>l. l @ vals) (live now db key))"
    and live_rpush: "inv db \<Longrightarrow> now \<le> now' \<Longrightarrow>
      live now' (snd (krpush now key vals db)) = (live now' db)
        (key := Option.bind (snd (push_spec (\<lambda>l. l @ vals) (live now db key))) (at_time now'))"
    and inv_lpop: "inv db \<Longrightarrow> inv (snd (klpop now key db))"
    and lpop_result: "inv db \<Longrightarrow> fst (klpop now key db) = fst (pop_spec hd tl (live now db key))"
    and live_lpop: "inv db \<Longrightarrow> now \<le> now' \<Longrightarrow>
      live now' (snd (klpop now key db)) = (live now' db)
        (key := Option.bind (snd (pop_spec hd tl (live now db key))) (at_time now'))"
    and inv_rpop: "inv db \<Longrightarrow> inv (snd (krpop now key db))"
    and rpop_result: "inv db \<Longrightarrow>
      fst (krpop now key db) = fst (pop_spec last butlast (live now db key))"
    and live_rpop: "inv db \<Longrightarrow> now \<le> now' \<Longrightarrow>
      live now' (snd (krpop now key db)) = (live now' db)
        (key := Option.bind (snd (pop_spec last butlast (live now db key))) (at_time now'))"
    and inv_llen: "inv db \<Longrightarrow> inv (snd (kllen now key db))"
    and llen_result: "inv db \<Longrightarrow> fst (kllen now key db) = llen_spec (live now db key)"
    and live_llen: "inv db \<Longrightarrow> now \<le> now' \<Longrightarrow> live now' (snd (kllen now key db)) = live now' db"
    and inv_expire: "inv db \<Longrightarrow> inv (snd (kexpire c key secs db))"
    and expire_result: "inv db \<Longrightarrow> fst (kexpire c key secs db) = (live (c [0]) db key \<noteq> None)"
    and live_expire: "inv db \<Longrightarrow> c [0] \<le> now \<Longrightarrow>
      live now (snd (kexpire c key secs db)) = (live now db)
        (key := Option.bind (live (c [0]) db key)
           (\<lambda>e. at_time now (fst e, Some (c [1] + secs * ns_per_sec))))"
    and inv_persist: "inv db \<Longrightarrow> inv (snd (kpersist now key db))"
    and persist_result: "inv db \<Longrightarrow>
      fst (kpersist now key db) = (deadline_of (live now db key) \<noteq> None)"
    and live_persist: "inv db \<Longrightarrow> now \<le> now' \<Longrightarrow>
      live now' (snd (kpersist now key db)) = (live now' db)
        (key := map_option (\<lambda>e. (fst e, None)) (live now db key))"
begin

lemma get_after_set: "inv db \<Longrightarrow> fst (kget now key (kset key val db)) = Some val"
  by (simp add: get_result inv_set live_set as_string_def)

lemma get_other_after_set:
  "inv db \<Longrightarrow> key' \<noteq> key \<Longrightarrow> fst (kget now key' (kset key val db)) = fst (kget now key' db)"
  by (simp add: get_result inv_set live_set)

lemma get_after_del:
  "inv db \<Longrightarrow> fst (kget now key (snd (kdel keys db))) =
     (if key \<in> set keys then None else fst (kget now key db))"
  by (simp add: get_result inv_del live_del as_string_def)

lemma get_after_expire:
  assumes "inv db" and "c [0] \<le> now"
  shows "fst (kget now key (snd (kexpire c key secs db))) =
     (if now < c [1] + secs * ns_per_sec then as_string (live (c [0]) db key) else None)"
  using assms by (cases "live (c [0]) db key")
    (auto simp: get_result inv_expire live_expire as_string_def at_time_def
      split: redis_value.split)

lemma get_after_persist:
  assumes "inv db" and "now \<le> now'"
  shows "fst (kget now' key (snd (kpersist now key db))) = as_string (live now db key)"
  using assms by (cases "live now db key")
    (auto simp: get_result inv_persist live_persist as_string_def split: redis_value.split)

lemma push_on_string:
  assumes "inv db" and "as_string (live now db key) = Some v" and "now \<le> now'"
  shows "fst (klpush now key vals db) = -1" and "fst (krpush now key vals db) = -1"
    and "live now' (snd (klpush now key vals db)) = live now' db"
    and "live now' (snd (krpush now key vals db)) = live now' db"
  using assms live_later [of now now' db key]
  by (auto simp: lpush_result rpush_result live_lpush live_rpush push_spec_def is_string_def
      fun_eq_iff)

lemma live_no_deadline:
  "live now db key = Some (v, None) \<Longrightarrow> now \<le> now' \<Longrightarrow> live now' db key = Some (v, None)"
  using live_later [of now now' db key] by (simp add: at_time_def)

lemma lpop_step:
  assumes "inv db" and "live now db key = Some (VList (x # l), None)" and "now \<le> now'"
  shows "fst (klpop now' key db) = Some x"
    and "live now' (snd (klpop now' key db)) key = (if l = [] then None else Some (VList l, None))"
  using assms live_no_deadline [OF assms(2,3)]
  by (auto simp: lpop_result live_lpop spec_defs at_time_def)

lemma pops_in_order:
  assumes "inv db" and "live now db key = Some (VList vals, None)" and "vals \<noteq> []"
    and "length ts = length vals" and "sorted (now # ts)"
  shows "fst (pops (\<lambda>t. klpop t key) ts db) = map Some vals \<and>
    live (last ts) (snd (pops (\<lambda>t. klpop t key) ts db)) key = None"
  using assms
proof (induction vals arbitrary: db ts now)
  case Nil
  then show ?case by simp
next
  case (Cons x l)
  then obtain t ts' where ts: "ts = t # ts'" and len: "length ts' = length l"
    by (cases ts) auto
  let ?db = "snd (klpop t key db)"
  have step: "fst (klpop t key db) = Some x"
    "live t ?db key = (if l = [] then None else Some (VList l, None))"
    using lpop_step [OF Cons.prems(1,2), of t] Cons.prems(5) ts by auto
  have inv: "inv ?db" using Cons.prems(1) by (rule inv_lpop)
  show ?case
  proof (cases "l = []")
    case True
    with step len ts show ?thesis by (simp add: split_beta)
  next
    case False
    with step have live: "live t ?db key = Some (VList l, None)" by simp
    have "sorted (t # ts')" and "ts' \<noteq> []" using Cons.prems(5) ts len False by auto
    then show ?thesis
      using Cons.IH [OF inv live False len] step ts by (simp add: split_beta)
  qed
qed

text \<open>A list fed from the right and drained from the left is a queue.\<close>

lemma queue_order:
  assumes "inv db" and "live now db key = None" and "vals \<noteq> []"
    and "length ts = length vals" and "sorted (now # ts)"
  shows "fst (pops (\<lambda>t. klpop t key) ts (snd (krpush now key vals db))) = map Some vals"
proof -
  have "live now (snd (krpush now key vals db)) key = Some (VList vals, None)"
    using assms(1,2) by (simp add: live_rpush spec_defs at_time_def)
  then show ?thesis
    using pops_in_order [OF inv_rpush [OF assms(1,3)]] assms(3-5) by blast
qed

text \<open>A list fed from the left and drained from the left is a stack.\<close>

lemma stack_order:
  assumes "inv db" and "live now db key = None" and "vals \<noteq> []"
    and "length ts = length vals" and "sorted (now # ts)"
  shows "fst (pops (\<lambda>t. klpop t key) ts (snd (klpush now key vals db))) = map Some (rev vals)"
proof -
  have "live now (snd (klpush now key vals db)) key = Some (VList (rev vals), None)"
    using assms(1,2) by (simp add: live_lpush spec_defs at_time_def)
  then show ?thesis
    using pops_in_order [OF inv_lpush [OF assms(1,3)]] assms(3-5) by simp
qed

end


section \<open>The database implements the contract\<close>

lemma entry_of_simps [simp]:
  "um_find (store db) key = Some v \<Longrightarrow> entry_of db key = Some (VString v, um_find (expiry db) key)"
  "um_find (store db) key = None \<Longrightarrow> um_find (list_store db) key = Some l \<Longrightarrow>
     entry_of db key = Some (VList l, um_find (expiry db) key)"
  "um_find (store db) key = None \<Longrightarrow> um_find (list_store db) key = None \<Longrightarrow> entry_of db key = None"
  by (simp_all add: entry_of_def)

lemma no_deadline_if_absent:
  "db_wf db \<Longrightarrow> um_find (store db) key = None \<Longrightarrow> um_find (list_store db) key = None \<Longrightarrow>
   um_find (expiry db) key = None"
  by (auto simp: db_wf_def dom_def)

lemma view_eq_bind_view: "now \<le> now' \<Longrightarrow> Option.bind (view now db key) (at_time now') = view now' db key"
  by (simp add: view_later [of now now'])

text \<open>Three cases for a key: expired, or live with its entry, or absent.\<close>

lemma key_cases [case_names expired str lst absent]:
  assumes wf: "db_wf db"
  obtains "is_expired_unlocked now key db" "view now db key = None"
  | v where "\<not> is_expired_unlocked now key db" "um_find (store db) key = Some v"
      "um_find (list_store db) key = None"
      "view now db key = Some (VString v, um_find (expiry db) key)"
  | l where "\<not> is_expired_unlocked now key db" "um_find (store db) key = None"
      "um_find (list_store db) key = Some l"
      "view now db key = Some (VList l, um_find (expiry db) key)"
  | "\<not> is_expired_unlocked now key db" "um_find (store db) key = None"
      "um_find (list_store db) key = None" "um_find (expiry db) key = None"
      "view now db key = None"
proof (cases "is_expired_unlocked now key db")
  case True
  then show thesis using that(1) view_expired [of now key db now] by simp
next
  case False
  then have v: "view now db key = entry_of db key" by (rule view_live)
  show thesis
  proof (cases "um_find (store db) key")
    case None
    then show thesis
      using False v that(3,4) no_deadline_if_absent [OF wf] by (cases "um_find (list_store db) key") auto
  next
    case (Some a)
    then show thesis
      using False v that(2) store_None_if_list [OF wf] by (cases "um_find (list_store db) key") auto
  qed
qed

lemma db_get_result: "db_wf db \<Longrightarrow> fst (db_get now key db) = as_string (view now db key)"
  by (cases rule: key_cases [of db now key]) (auto simp: db_get_def as_string_def)

lemma view_get [view_simps]:
  "db_wf db \<Longrightarrow> now \<le> now' \<Longrightarrow> view now' (snd (db_get now key db)) = view now' db"
  by (simp add: db_get_def view_remove_if_expired)

lemma view_del [view_simps]:
  "view now (snd (db_del keys db)) = (\<lambda>k. if k \<in> set keys then None else view now db k)"
proof -
  have absent: "view now db k = None" if "\<not> key_exists_unlocked k db" for k db
    using that by (auto simp: key_exists_unlocked_def view_def)
  have "view now (snd (del_loop keys count db)) =
      (\<lambda>k. if k \<in> set keys then None else view now db k)" for count
    by (induction keys arbitrary: count db)
      (auto simp: del_loop_Cons view_remove_expired fun_eq_iff absent)
  then show ?thesis by (simp add: db_del_def)
qed

lemma view_upd_same: "(view now' db)(key := view now' db key) = view now' db"
  by simp

lemma push_law:
  assumes wf: "db_wf db" and le: "now \<le> now'"
    and push: "\<And>db. push db = (let db = (if is_expired_unlocked now key db
         then remove_expired_unlocked key db else db)
       in if um_count key (store db) > 0 then (-1, db)
         else let l = f (list_at key db)
              in (to_int32 (length l), db\<lparr>list_store := um_put key l (list_store db)\<rparr>))"
  shows "fst (push db) = fst (push_spec f (view now db key))" (is ?r)
    and "view now' (snd (push db)) = (view now' db)
      (key := Option.bind (snd (push_spec f (view now db key))) (at_time now'))" (is ?v)
proof -
  have later: "view now' db key = Option.bind (view now db key) (at_time now')"
    using le by (rule view_later)
  show ?r
    using wf by (cases rule: key_cases [of db now key])
      (auto simp: push list_at_def spec_defs um_count_def remove_expired_unlocked_def Let_def)
  show ?v
    using wf
  proof (cases rule: key_cases [of db now key])
    case expired
    have st: "um_find (store (remove_expired_unlocked key db)) key = None"
      "um_find (list_store (remove_expired_unlocked key db)) key = None"
      "um_find (expiry (remove_expired_unlocked key db)) key = None"
      by (simp_all add: remove_expired_unlocked_def)
    show ?thesis
      using expired le st
      by (simp add: push list_at_def spec_defs um_count_def view_put_list view_remove_if_expired
          Let_def)
  next
    case (str v)
    then show ?thesis
      using later by (simp add: push spec_defs um_count_def fun_eq_iff)
  next
    case (lst l)
    then show ?thesis
      by (simp add: push list_at_def spec_defs um_count_def view_put_list Let_def)
  next
    case absent
    then show ?thesis
      by (simp add: push list_at_def spec_defs um_count_def view_put_list Let_def)
  qed
qed

lemmas db_lpush_law = push_law [where push = "db_lpush now key vals" and f = "\<lambda>l. rev vals @ l"
    for now key vals, OF _ _ db_lpush_def [unfolded fold_push_front]]

lemmas db_rpush_law = push_law [where push = "db_rpush now key vals" and f = "\<lambda>l. l @ vals"
    for now key vals, OF _ _ db_rpush_def [unfolded fold_push_back]]


lemma db_lpop_law:
  assumes "db_wf db" and "now \<le> now'"
  shows "fst (db_lpop now key db) = fst (pop_spec hd tl (view now db key))"
    and "view now' (snd (db_lpop now key db)) = (view now' db)
      (key := Option.bind (snd (pop_spec hd tl (view now db key))) (at_time now'))"
proof -
  have later: "view now' db key = Option.bind (view now db key) (at_time now')"
    using assms(2) by (rule view_later)
  show "fst (db_lpop now key db) = fst (pop_spec hd tl (view now db key))"
    using assms(1) by (cases rule: key_cases [of db now key])
      (auto simp: db_lpop_def spec_defs split: list.split option.split)
  show "view now' (snd (db_lpop now key db)) = (view now' db)
      (key := Option.bind (snd (pop_spec hd tl (view now db key))) (at_time now'))"
    using assms(1) by (cases rule: key_cases [of db now key])
      (use later assms(2) in \<open>auto simp: db_lpop_def spec_defs view_put_list view_erase_list
         view_remove_if_expired store_None_if_list fun_eq_iff split: list.split option.split\<close>)
qed

lemma db_rpop_law:
  assumes "db_wf db" and "now \<le> now'"
  shows "fst (db_rpop now key db) = fst (pop_spec last butlast (view now db key))"
    and "view now' (snd (db_rpop now key db)) = (view now' db)
      (key := Option.bind (snd (pop_spec last butlast (view now db key))) (at_time now'))"
proof -
  have later: "view now' db key = Option.bind (view now db key) (at_time now')"
    using assms(2) by (rule view_later)
  show "fst (db_rpop now key db) = fst (pop_spec last butlast (view now db key))"
    using assms(1) by (cases rule: key_cases [of db now key])
      (auto simp: db_rpop_def spec_defs split: option.split)
  show "view now' (snd (db_rpop now key db)) = (view now' db)
      (key := Option.bind (snd (pop_spec last butlast (view now db key))) (at_time now'))"
    using assms(1) by (cases rule: key_cases [of db now key])
      (use later assms(2) in \<open>auto simp: db_rpop_def spec_defs view_put_list view_erase_list
         view_remove_if_expired store_None_if_list fun_eq_iff split: option.split\<close>)
qed

lemma db_llen_result: "db_wf db \<Longrightarrow> fst (db_llen now key db) = llen_spec (view now db key)"
  by (cases rule: key_cases [of db now key]) (auto simp: db_llen_def spec_defs um_count_def)

lemma view_llen [view_simps]:
  "now \<le> now' \<Longrightarrow> view now' (snd (db_llen now key db)) = view now' db"
  by (auto simp: db_llen_def view_remove_if_expired split: option.split)

lemma view_lrange [view_simps]:
  "now \<le> now' \<Longrightarrow> view now' (snd (db_lrange now key start stop db)) = view now' db"
  by (auto simp: db_lrange_def Let_def view_remove_if_expired split: option.split)

lemma view_lindex [view_simps]:
  "now \<le> now' \<Longrightarrow> view now' (snd (db_lindex now key index db)) = view now' db"
  by (auto simp: db_lindex_def Let_def view_remove_if_expired split: option.split)

lemma view_ttl [view_simps]:
  "c [0] \<le> now' \<Longrightarrow> view now' (snd (db_ttl c key db)) = view now' db"
  by (auto simp: db_ttl_def view_remove_if_expired split: option.split)

lemma key_exists_iff:
  "key_exists_unlocked key db \<longleftrightarrow> entry_of db key \<noteq> None"
  by (auto simp: key_exists_unlocked_def entry_of_def um_count_def split: option.split)

lemma view_put_expiry [view_simps]:
  "view now (db\<lparr>expiry := um_put key d (expiry db)\<rparr>) = (view now db)
     (key := Option.bind (entry_of db key) (\<lambda>e. at_time now (fst e, Some d)))"
  by (auto simp: view_defs fun_eq_iff split: option.splits)

lemma view_erase_expiry [view_simps]:
  "view now (db\<lparr>expiry := um_erase key (expiry db)\<rparr>) = (view now db)
     (key := map_option (\<lambda>e. (fst e, None)) (entry_of db key))"
  by (auto simp: view_defs fun_eq_iff split: option.splits)

lemma db_expire_law:
  assumes wf: "db_wf db"
  shows "fst (db_expire c key secs db) = (view (c [0]) db key \<noteq> None)"
    and "c [0] \<le> now \<Longrightarrow> view now (snd (db_expire c key secs db)) = (view now db)
        (key := Option.bind (view (c [0]) db key)
           (\<lambda>e. at_time now (fst e, Some (c [1] + secs * ns_per_sec))))"
proof -
  show "fst (db_expire c key secs db) = (view (c [0]) db key \<noteq> None)"
    using wf by (cases rule: key_cases [of db "c [0]" key])
      (auto simp: db_expire_def key_exists_iff)
  assume le: "c [0] \<le> now"
  then have later: "view now db key = Option.bind (view (c [0]) db key) (at_time now)"
    by (rule view_later)
  show "view now (snd (db_expire c key secs db)) = (view now db)
        (key := Option.bind (view (c [0]) db key)
           (\<lambda>e. at_time now (fst e, Some (c [1] + secs * ns_per_sec))))"
    using wf by (cases rule: key_cases [of db "c [0]" key])
      (use later le in \<open>auto simp: db_expire_def key_exists_iff view_put_expiry
         view_remove_if_expired fun_eq_iff\<close>)
qed

lemma db_persist_law:
  assumes wf: "db_wf db" and le: "now \<le> now'"
  shows "fst (db_persist now key db) = (deadline_of (view now db key) \<noteq> None)"
    and "view now' (snd (db_persist now key db)) = (view now' db)
        (key := map_option (\<lambda>e. (fst e, None)) (view now db key))"
proof -
  have later: "view now' db key = Option.bind (view now db key) (at_time now')"
    using le by (rule view_later)
  show "fst (db_persist now key db) = (deadline_of (view now db key) \<noteq> None)"
    using wf by (cases rule: key_cases [of db now key])
      (auto simp: db_persist_def key_exists_iff deadline_of_def um_count_def)
  show "view now' (snd (db_persist now key db)) = (view now' db)
        (key := map_option (\<lambda>e. (fst e, None)) (view now db key))"
    using wf by (cases rule: key_cases [of db now key])
      (use later le in \<open>auto simp: db_persist_def key_exists_iff view_erase_expiry
         view_remove_if_expired fun_eq_iff\<close>)
qed

interpretation dbk: keyspace db_inv view db_set db_get db_del db_lpush db_rpush db_lpop db_rpop
    db_llen db_expire db_persist
proof unfold_locales
  fix db :: database and now now' :: time and c :: clock and key val keys vals secs
  show "now \<le> now' \<Longrightarrow> view now' db key = Option.bind (view now db key) (at_time now')"
    by (rule view_later)
  show "view now (db_set key val db) = (view now db)(key \<mapsto> (VString val, None))"
    by (rule view_set)
  assume inv: "db_inv db"
  then have wf: "db_wf db" by (simp add: db_inv_def)
  show "fst (db_get now key db) = as_string (view now db key)"
    using wf by (rule db_get_result)
  show "view now (snd (db_del keys db)) = (\<lambda>k. if k \<in> set keys then None else view now db k)"
    by (rule view_del)
  show "fst (db_lpush now key vals db) = fst (push_spec (\<lambda>l. rev vals @ l) (view now db key))"
    using wf by (rule db_lpush_law(1)) (rule order_refl)
  show "fst (db_rpush now key vals db) = fst (push_spec (\<lambda>l. l @ vals) (view now db key))"
    using wf by (rule db_rpush_law(1)) (rule order_refl)
  show "fst (db_lpop now key db) = fst (pop_spec hd tl (view now db key))"
    using wf by (rule db_lpop_law(1)) (rule order_refl)
  show "fst (db_rpop now key db) = fst (pop_spec last butlast (view now db key))"
    using wf by (rule db_rpop_law(1)) (rule order_refl)
  show "fst (db_llen now key db) = llen_spec (view now db key)"
    using wf by (rule db_llen_result)
  show "fst (db_expire c key secs db) = (view (c [0]) db key \<noteq> None)"
    using wf by (rule db_expire_law(1))
  show "c [0] \<le> now \<Longrightarrow> view now (snd (db_expire c key secs db)) = (view now db)
        (key := Option.bind (view (c [0]) db key)
           (\<lambda>e. at_time now (fst e, Some (c [1] + secs * ns_per_sec))))"
    using wf by (rule db_expire_law(2))
  show "fst (db_persist now key db) = (deadline_of (view now db key) \<noteq> None)"
    using wf by (rule db_persist_law(1)) (rule order_refl)
  assume le: "now \<le> now'"
  show "view now' (snd (db_get now key db)) = view now' db"
    using wf le by (rule view_get)
  show "view now' (snd (db_lpush now key vals db)) = (view now' db)
      (key := Option.bind (snd (push_spec (\<lambda>l. rev vals @ l) (view now db key))) (at_time now'))"
    using wf le by (rule db_lpush_law(2))
  show "view now' (snd (db_rpush now key vals db)) = (view now' db)
      (key := Option.bind (snd (push_spec (\<lambda>l. l @ vals) (view now db key))) (at_time now'))"
    using wf le by (rule db_rpush_law(2))
  show "view now' (snd (db_lpop now key db)) = (view now' db)
      (key := Option.bind (snd (pop_spec hd tl (view now db key))) (at_time now'))"
    using wf le by (rule db_lpop_law(2))
  show "view now' (snd (db_rpop now key db)) = (view now' db)
      (key := Option.bind (snd (pop_spec last butlast (view now db key))) (at_time now'))"
    using wf le by (rule db_rpop_law(2))
  show "view now' (snd (db_llen now key db)) = view now' db"
    using le by (rule view_llen)
  show "view now' (snd (db_persist now key db)) = (view now' db)
      (key := map_option (\<lambda>e. (fst e, None)) (view now db key))"
    using wf le by (rule db_persist_law(2))
qed (auto intro: wf_intros)

end
