(* ===== verification/Keyspace.thy ===== *)
theory Keyspace
  imports Database
begin

text \<open>
  The database against an abstract machine: the state of the machine is the map of the live
  entries, time passes by dropping the entries whose deadline has come, and every method is a few
  lines over that map. A history of method calls and background expiry rounds, each at its own
  instant, gives the results that the machine allows, and the live entries of the database are the
  state of the machine. Lazy and active expiry show in one place only: \<open>del\<close> also counts a named key
  that has expired and is still stored.
\<close>

section \<open>Counting and collecting live keys\<close>

lemma scan_keys_const:
  "scan_keys (sub_clock (\<lambda>_. now) i) j keys db =
     (filter (\<lambda>k. \<not> is_expired_unlocked now k db) keys,
      filter (\<lambda>k. is_expired_unlocked now k db) keys)"
  by (induction keys arbitrary: j) auto

lemma count_keys_scan:
  "count_keys c i keys n expired db =
     (n + length (fst (scan_keys c i keys db)), expired @ snd (scan_keys c i keys db))"
  by (induction keys arbitrary: i n expired) (auto simp: split_beta Let_def)

lemma db_dbsize_keys:
  "db_dbsize c db = (length (fst (db_keys c db)), snd (db_keys c db))"
  by (simp add: db_dbsize_def db_keys_def count_keys_scan split_beta)

lemma scan_keys_sets:
  "set (fst (scan_keys c i keys db)) \<union> set (snd (scan_keys c i keys db)) = set keys"
  by (induction keys arbitrary: i) (auto simp: split_beta Let_def)

lemma scan_keys_expired:
  "key \<in> set (snd (scan_keys c i keys db)) \<Longrightarrow> \<exists>j. is_expired_unlocked (c [j]) key db"
  by (induction keys arbitrary: i) (auto simp: split_beta Let_def split: if_splits)

lemma is_expired_mono:
  "is_expired_unlocked now key db \<Longrightarrow> now \<le> now' \<Longrightarrow> is_expired_unlocked now' key db"
  by (auto simp: is_expired_unlocked_def split: option.splits)

text \<open>Removing expired keys is invisible.\<close>

lemma view_fold_remove [view_simps]:
  "view now (fold remove_expired_unlocked keys db) =
     (\<lambda>k. if k \<in> set keys then None else view now db k)"
  by (induction keys arbitrary: db) (auto simp: view_remove_expired fun_eq_iff)

lemma view_fold_remove_expired:
  assumes "\<And>key. key \<in> set keys \<Longrightarrow> is_expired_unlocked now key db"
  shows "view now (fold remove_expired_unlocked keys db) = view now db"
  using assms view_expired by (fastforce simp: view_fold_remove fun_eq_iff)

lemma view_keys [view_simps]:
  assumes "\<And>p. c p \<le> now"
  shows "view now (snd (db_keys c db)) = view now db"
proof -
  have "view now db key = None"
    if "key \<in> set (snd (scan_keys (sub_clock c i) 0 ks db))" for key i ks
    using scan_keys_expired [OF that] assms view_expired by (metis sub_clock_apply)
  then show ?thesis
    by (simp add: db_keys_def split_beta view_fold_remove fun_eq_iff)
qed

lemma view_exists [view_simps]:
  assumes "\<And>p. c p \<le> now"
  shows "view now (snd (db_exists c keys db)) = view now db"
proof -
  have "view now (snd (exists_loop c i keys count db)) = view now db" for i count
    by (induction keys arbitrary: i count db)
      (auto simp: view_remove_if_expired [OF _ assms])
  then show ?thesis by (simp add: db_exists_def)
qed

lemma view_expiry_loop [view_simps]: "db_wf db \<Longrightarrow> view now (snd (expiry_loop now db)) = view now db"
proof -
  assume "db_wf db"
  then have wf: "um_wf (expiry db)" by (simp add: db_wf_def)
  have "is_expired_unlocked now key db"
    if "key \<in> set (map fst (filter (\<lambda>e. snd e \<le> now) (take MAX_SAMPLE (expiry db))))" for key
  proof -
    from that obtain d where "(key, d) \<in> set (expiry db)" "d \<le> now"
      by (auto dest: in_set_takeD)
    with wf show ?thesis
      by (simp add: um_find_in_set is_expired_unlocked_def)
  qed
  then show ?thesis
    by (auto simp: expiry_loop_def expiry_scan_def Let_def intro!: view_fold_remove_expired)
qed

text \<open>A database without expired keys answers like one that has purged them.\<close>

lemma exists_live_iff:
  "db_wf db \<Longrightarrow> \<not> is_expired_unlocked now key db \<Longrightarrow>
   key_exists_unlocked key db \<longleftrightarrow> view now db key \<noteq> None"
  by (simp add: key_exists_iff view_live)

lemma exists_loop_count:
  assumes "db_wf db"
  shows "fst (exists_loop (\<lambda>_. now) i keys count db) =
     count + int (length (filter (\<lambda>k. view now db k \<noteq> None) keys))"
  using assms
proof (induction keys arbitrary: i count db)
  case (Cons key keys)
  show ?case
  proof (cases "is_expired_unlocked now key db")
    case True
    then show ?thesis
      using Cons by (simp add: db_wf_remove_expired view_remove_if_expired view_expired)
  next
    case False
    then show ?thesis
      using Cons exists_live_iff [OF Cons.prems False] by simp
  qed
qed simp

lemma db_keys_result:
  assumes wf: "db_wf db"
  shows "set (fst (db_keys (\<lambda>_. now) db)) = dom (view now db)"
    and "distinct (fst (db_keys (\<lambda>_. now) db))"
proof -
  have keys: "fst (db_keys (\<lambda>_. now) db) =
     filter (\<lambda>k. \<not> is_expired_unlocked now k db) (um_keys (store db) @ um_keys (list_store db))"
    by (simp add: db_keys_def scan_keys_const)
  show "set (fst (db_keys (\<lambda>_. now) db)) = dom (view now db)"
    unfolding keys using wf
    by (auto simp: view_defs split: option.splits if_splits)
  show "distinct (fst (db_keys (\<lambda>_. now) db))"
    unfolding keys using wf
    by (auto simp: db_wf_def um.iter_distinct)
qed

lemma db_dbsize_result:
  "db_wf db \<Longrightarrow> fst (db_dbsize (\<lambda>_. now) db) = card (dom (view now db))"
  using distinct_card [OF db_keys_result(2)] by (simp add: db_dbsize_keys db_keys_result(1))


section \<open>List ranges and indices\<close>

definition lrange_spec :: "int \<Rightarrow> int \<Rightarrow> string list \<Rightarrow> string list" where
  "lrange_spec start stop l =
     (let len = int (length l);
          first = max 0 (if start < 0 then len + start else start);
          final = min (len - 1) (if stop < 0 then len + stop else stop)
      in take (nat (final - first + 1)) (drop (nat first) l))"

lemma map_nth_upto:
  assumes "0 \<le> i" and "j < int (length l)"
  shows "map (\<lambda>k. l ! nat k) [i..j] = take (nat (j - i + 1)) (drop (nat i) l)"
proof (rule nth_equalityI)
  show len: "length (map (\<lambda>k. l ! nat k) [i..j]) = length (take (nat (j - i + 1)) (drop (nat i) l))"
    using assms by auto
  fix k assume "k < length (map (\<lambda>k. l ! nat k) [i..j])"
  then have in_range: "k < length [i..j]" and k: "i + int k \<le> j" by auto
  have "map (\<lambda>k. l ! nat k) [i..j] ! k = l ! nat (i + int k)"
    using in_range nth_upto [OF k] by (simp only: nth_map)
  also have "\<dots> = take (nat (j - i + 1)) (drop (nat i) l) ! k"
    using assms k by (simp add: nat_add_distrib)
  finally show "map (\<lambda>k. l ! nat k) [i..j] ! k = take (nat (j - i + 1)) (drop (nat i) l) ! k" .
qed

lemma db_lrange_result:
  assumes wf: "db_wf db" and small: "int (length (as_list (view now db key))) \<le> int_max"
  shows "fst (db_lrange now key start stop db) = lrange_spec start stop (as_list (view now db key))"
  using wf
proof (cases rule: key_cases [of db now key])
  case (lst l)
  then have len: "to_int32 (length l) = int (length l)"
    using small by (simp add: as_list_def)
  show ?thesis
    using lst len by (auto simp: db_lrange_def lrange_spec_def as_list_def Let_def map_nth_upto
        max_def min_def) (cases l; simp)
qed (auto simp: db_lrange_def lrange_spec_def as_list_def)

definition lindex_spec :: "int \<Rightarrow> string list \<Rightarrow> string option" where
  "lindex_spec index l =
     (let i = (if index < 0 then int (length l) + index else index)
      in if 0 \<le> i \<and> i < int (length l) then Some (l ! nat i) else None)"

lemma db_lindex_result:
  assumes wf: "db_wf db" and small: "int (length (as_list (view now db key))) \<le> int_max"
  shows "fst (db_lindex now key index db) = lindex_spec index (as_list (view now db key))"
  using wf
proof (cases rule: key_cases [of db now key])
  case (lst l)
  then have len: "to_int32 (length l) = int (length l)"
    using small by (simp add: as_list_def)
  show ?thesis
    using lst len by (auto simp: db_lindex_def lindex_spec_def as_list_def Let_def)
qed (auto simp: db_lindex_def lindex_spec_def as_list_def Let_def)

definition ttl_spec :: "time \<Rightarrow> entry option \<Rightarrow> int" where
  "ttl_spec now e =
     (case e of None \<Rightarrow> -2
      | Some (_, None) \<Rightarrow> -1
      | Some (_, Some d) \<Rightarrow> cast_int32 ((d - now) div ns_per_sec))"

lemma sdiv_nonneg: "0 \<le> a \<Longrightarrow> 0 < b \<Longrightarrow> a sdiv b = a div (b::int)"
  by (simp add: signed_divide_int_def zsgn_def)

lemma db_ttl_result:
  assumes wf: "db_wf db"
  shows "fst (db_ttl (\<lambda>_. now) key db) = ttl_spec now (view now db key)"
proof -
  have remaining: "(d - now) sdiv ns_per_sec = (d - now) div ns_per_sec" if "now < d" for d
    using that by (intro sdiv_nonneg) (simp_all add: ns_per_sec_def)
  show ?thesis
    using wf by (cases rule: key_cases [of db now key])
      (auto simp: db_ttl_def key_exists_iff ttl_spec_def is_expired_unlocked_def remaining
        split: option.splits)
qed


section \<open>The abstract machine\<close>

text \<open>
  The calls of the class, one constructor per method and one for a round of the background thread.
\<close>

datatype db_call =
    Set string string
  | Get string
  | Del "string list"
  | Exists "string list"
  | Keys
  | Dbsize
  | Flushdb
  | Lpush string string "string list"
  | Rpush string string "string list"
  | Lpop string
  | Rpop string
  | Lrange string int int
  | Llen string
  | Lindex string int
  | Expire string int
  | Ttl string
  | Persist string
  | ExpiryRound

datatype db_result =
    RUnit
  | RString "string option"
  | RInt int
  | RBool bool
  | RList "string list"
  | RKeys "string set"

text \<open>The database at one instant: every clock reading of the call is \<open>now\<close>.\<close>

fun run_call :: "time \<Rightarrow> db_call \<Rightarrow> database \<Rightarrow> db_result \<times> database" where
  "run_call now (Set key val) db = (RUnit, db_set key val db)"
| "run_call now (Get key) db = map_prod RString id (db_get now key db)"
| "run_call now (Del keys) db = map_prod RInt id (db_del keys db)"
| "run_call now (Exists keys) db = map_prod RInt id (db_exists (\<lambda>_. now) keys db)"
| "run_call now Keys db = map_prod (RKeys \<circ> set) id (db_keys (\<lambda>_. now) db)"
| "run_call now Dbsize db = map_prod (RInt \<circ> int) id (db_dbsize (\<lambda>_. now) db)"
| "run_call now Flushdb db = (RUnit, db_flushdb db)"
| "run_call now (Lpush key val vals) db = map_prod RInt id (db_lpush now key (val # vals) db)"
| "run_call now (Rpush key val vals) db = map_prod RInt id (db_rpush now key (val # vals) db)"
| "run_call now (Lpop key) db = map_prod RString id (db_lpop now key db)"
| "run_call now (Rpop key) db = map_prod RString id (db_rpop now key db)"
| "run_call now (Lrange key start stop) db = map_prod RList id (db_lrange now key start stop db)"
| "run_call now (Llen key) db = map_prod RInt id (db_llen now key db)"
| "run_call now (Lindex key index) db = map_prod RString id (db_lindex now key index db)"
| "run_call now (Expire key secs) db = map_prod RBool id (db_expire (\<lambda>_. now) key secs db)"
| "run_call now (Ttl key) db = map_prod RInt id (db_ttl (\<lambda>_. now) key db)"
| "run_call now (Persist key) db = map_prod RBool id (db_persist now key db)"
| "run_call now ExpiryRound db = (RUnit, snd (expiry_loop now db))"

fun run_calls :: "(time \<times> db_call) list \<Rightarrow> database \<Rightarrow> db_result list \<times> database" where
  "run_calls [] db = ([], db)"
| "run_calls ((now, call) # h) db =
     (let (r, db') = run_call now call db; (rs, db'') = run_calls h db' in (r # rs, db''))"

type_synonym live_map = "string \<Rightarrow> entry option"

definition age :: "time \<Rightarrow> live_map \<Rightarrow> live_map" where
  "age now m = (\<lambda>key. Option.bind (m key) (at_time now))"

definition upd :: "time \<Rightarrow> string \<Rightarrow> 'a \<times> entry option \<Rightarrow> live_map \<Rightarrow> 'a \<times> live_map" where
  "upd now key r m = (fst r, m(key := Option.bind (snd r) (at_time now)))"

fun spec_call :: "time \<Rightarrow> db_call \<Rightarrow> live_map \<Rightarrow> db_result \<times> live_map" where
  "spec_call now (Set key val) m = (RUnit, m(key \<mapsto> (VString val, None)))"
| "spec_call now (Get key) m = (RString (as_string (m key)), m)"
| "spec_call now (Del keys) m =
     (RInt (int (card {k \<in> set keys. m k \<noteq> None})), \<lambda>k. if k \<in> set keys then None else m k)"
| "spec_call now (Exists keys) m = (RInt (int (length (filter (\<lambda>k. m k \<noteq> None) keys))), m)"
| "spec_call now Keys m = (RKeys (dom m), m)"
| "spec_call now Dbsize m = (RInt (int (card (dom m))), m)"
| "spec_call now Flushdb m = (RUnit, Map.empty)"
| "spec_call now (Lpush key val vals) m =
     map_prod RInt id (upd now key (push_spec (\<lambda>l. rev vals @ val # l) (m key)) m)"
| "spec_call now (Rpush key val vals) m =
     map_prod RInt id (upd now key (push_spec (\<lambda>l. l @ val # vals) (m key)) m)"
| "spec_call now (Lpop key) m = map_prod RString id (upd now key (pop_spec hd tl (m key)) m)"
| "spec_call now (Rpop key) m = map_prod RString id (upd now key (pop_spec last butlast (m key)) m)"
| "spec_call now (Lrange key start stop) m = (RList (lrange_spec start stop (as_list (m key))), m)"
| "spec_call now (Llen key) m = (RInt (llen_spec (m key)), m)"
| "spec_call now (Lindex key index) m = (RString (lindex_spec index (as_list (m key))), m)"
| "spec_call now (Expire key secs) m =
     (RBool (m key \<noteq> None),
      m(key := Option.bind (m key) (\<lambda>e. at_time now (fst e, Some (now + secs * ns_per_sec)))))"
| "spec_call now (Ttl key) m = (RInt (ttl_spec now (m key)), m)"
| "spec_call now (Persist key) m =
     (RBool (deadline_of (m key) \<noteq> None), m(key := map_option (\<lambda>e. (fst e, None)) (m key)))"
| "spec_call now ExpiryRound m = (RUnit, m)"

text \<open>
  The results that the machine allows. \<open>X\<close> holds the keys that have expired since they were last written or
  removed: \<open>del\<close> counts every live key it is given, may count one of these, and counts nothing else. All other
  results are determined by the live entries.
\<close>

fun allowed :: "db_call \<Rightarrow> live_map \<Rightarrow> string set \<Rightarrow> db_result \<Rightarrow> db_result \<Rightarrow> bool" where
  "allowed (Del keys) m X r0 r \<longleftrightarrow> (\<exists>E \<subseteq> X. r = RInt (int (card {k \<in> set keys. m k \<noteq> None \<or> k \<in> E})))"
| "allowed call m X r0 r \<longleftrightarrow> r = r0"

fun written :: "db_call \<Rightarrow> string set" where
  "written (Set key val) = {key}"
| "written (Del keys) = set keys"
| "written Flushdb = UNIV"
| "written _ = {}"

fun expired_by :: "db_call \<Rightarrow> live_map \<Rightarrow> live_map \<Rightarrow> string set" where
  "expired_by (Expire key secs) m m' = dom m - dom m'"
| "expired_by _ m m' = {}"

fun spec_history :: "(time \<times> db_call) list \<Rightarrow> live_map \<Rightarrow> string set \<Rightarrow> db_result list \<Rightarrow> live_map \<Rightarrow> bool" where
  "spec_history [] m X rs m' \<longleftrightarrow> rs = [] \<and> m' = m"
| "spec_history ((now, call) # h) m0 X0 rs m'' \<longleftrightarrow>
     (let m = age now m0; X = X0 \<union> (dom m0 - dom m); (r0, m') = spec_call now call m
      in \<exists>r rs'. rs = r # rs' \<and> allowed call m X r0 r \<and>
           spec_history h m' (X - written call - dom m' \<union> expired_by call m m') rs' m'')"

text \<open>The lists a call reads by index fit the 32-bit length the code works with.\<close>

definition lists_fit :: "live_map \<Rightarrow> bool" where
  "lists_fit m \<longleftrightarrow> (\<forall>key. int (length (as_list (m key))) \<le> int_max)"

lemma age_view: "now \<le> now' \<Longrightarrow> age now' (view now db) = view now' db"
  by (simp add: age_def view_later fun_eq_iff)

lemma run_call_inv: "db_inv db \<Longrightarrow> db_inv (snd (run_call now call db))"
  by (cases call) (auto intro: wf_intros)

lemma run_call_view:
  assumes inv: "db_inv db"
  shows "view now (snd (run_call now call db)) = snd (spec_call now call (view now db))"
proof -
  have wf: "db_wf db" using inv by (simp add: db_inv_def)
  have flush: "view now (db_flushdb db) = Map.empty"
    by (simp add: view_def entry_of_def db_flushdb_def fun_eq_iff)
  have dbsize: "view now (snd (db_dbsize (\<lambda>_. now) db)) = view now db"
    by (simp add: db_dbsize_keys view_keys)
  show ?thesis
    by (cases call)
      (simp_all add: view_set view_get [OF wf] view_del view_exists view_keys dbsize flush
        dbk.live_lpush [OF inv] dbk.live_rpush [OF inv] dbk.live_lpop [OF inv]
        dbk.live_rpop [OF inv] view_lrange view_llen view_lindex dbk.live_expire [OF inv] view_ttl
        dbk.live_persist [OF inv] view_expiry_loop [OF wf] upd_def)
qed

text \<open>\<open>del\<close> counts the stored keys, live or not.\<close>

lemma del_loop_count:
  "fst (del_loop keys count db) = count + int (card {k \<in> set keys. key_exists_unlocked k db})"
proof (induction keys arbitrary: count db)
  case (Cons key keys)
  let ?stored = "\<lambda>db. {k \<in> set keys. key_exists_unlocked k db}"
  have rest: "?stored (remove_expired_unlocked key db) = ?stored db - {key}"
    by (auto simp: key_exists_unlocked_def remove_expired_unlocked_def)
  show ?case
  proof (cases "key_exists_unlocked key db")
    case True
    then have "{k \<in> set (key # keys). key_exists_unlocked k db} = insert key (?stored db - {key})" by auto
    then have "card {k \<in> set (key # keys). key_exists_unlocked k db} = Suc (card (?stored db - {key}))"
      by (simp only:) (rule card_insert_disjoint, simp_all)
    then show ?thesis using Cons True rest by (simp add: del_loop_Cons)
  next
    case False
    then have "{k \<in> set (key # keys). key_exists_unlocked k db} = ?stored db" by auto
    then show ?thesis using Cons False by (simp add: del_loop_Cons)
  qed
qed simp

text \<open>The counts of \<open>del\<close> and \<open>exists\<close> stay within the \<open>int\<close> of the code as long as the number of keys does.\<close>

lemma counts_fit:
  assumes "int (length keys) \<le> int_max"
  shows "fst (db_del keys db) \<in> {0..int_max}" and "fst (db_exists c keys db) \<in> {0..int_max}"
proof -
  have "card {k \<in> set keys. key_exists_unlocked k db} \<le> card (set keys)" by (rule card_mono) auto
  also have "\<dots> \<le> length keys" by (rule card_length)
  finally show "fst (db_del keys db) \<in> {0..int_max}" using assms by (simp add: db_del_def del_loop_count)
  have "count \<le> fst (exists_loop c i keys count db) \<and> fst (exists_loop c i keys count db) \<le> count + int (length keys)"
    for i count
  proof (induction keys arbitrary: i count db)
    case (Cons key keys)
    show ?case
      using Cons [of "count + 1" "Suc i" db] Cons [of count "Suc i" db]
        Cons [of count "Suc i" "remove_expired_unlocked key db"] by auto
  qed simp
  from this [of 0 0] show "fst (db_exists c keys db) \<in> {0..int_max}" using assms by (auto simp: db_exists_def)
qed

text \<open>The keys that are stored although their deadline has come, and what the calls do to them.\<close>

definition stale :: "time \<Rightarrow> database \<Rightarrow> string set" where
  "stale now db = {k. key_exists_unlocked k db \<and> is_expired_unlocked now k db}"

lemma stored_live_or_stale:
  "db_wf db \<Longrightarrow> key_exists_unlocked k db \<longleftrightarrow> view now db k \<noteq> None \<or> k \<in> stale now db"
  using exists_live_iff [of db now k] view_expired [of now k db now]
  by (cases "is_expired_unlocked now k db") (auto simp: stale_def)

lemma stale_remove [simp]: "stale now (remove_expired_unlocked key db) = stale now db - {key}"
  by (auto simp: stale_def key_exists_unlocked_def is_expired_unlocked_def remove_expired_unlocked_def split: if_splits)

lemma stale_fold_remove [simp]: "stale now (fold remove_expired_unlocked keys db) = stale now db - set keys"
  by (induction keys arbitrary: db) auto

lemma stale_del [simp]: "stale now (snd (db_del keys db)) = stale now db - set keys"
proof -
  have "stale now (snd (del_loop keys count db)) = stale now db - set keys" for count
    by (induction keys arbitrary: count db) (auto simp: del_loop_Cons, auto simp: stale_def)
  then show ?thesis by (simp add: db_del_def)
qed

lemma stale_exists: "stale now (snd (db_exists c keys db)) \<subseteq> stale now db"
proof -
  have "stale now (snd (exists_loop c i keys count db)) \<subseteq> stale now db" for i count
  proof (induction keys arbitrary: i count db)
    case (Cons key keys)
    then show ?case using Cons [of "Suc i" count "remove_expired_unlocked key db"] by auto
  qed simp
  then show ?thesis by (simp add: db_exists_def)
qed

lemma stale_writes:
  "stale now (db_set key val db) = stale now db - {key}"
  "stale now (db_flushdb db) = {}"
  by (auto simp: stale_def db_set_def db_flushdb_def key_exists_unlocked_def is_expired_unlocked_def split: if_splits)

lemma stale_put_list:
  "\<not> is_expired_unlocked now key db \<Longrightarrow> stale now (db\<lparr>list_store := um_put key l (list_store db)\<rparr>) = stale now db"
  by (auto simp: stale_def key_exists_unlocked_def is_expired_unlocked_def split: if_splits)

lemma stale_erase:
  "stale now (erase_list key db) \<subseteq> stale now db"
  "stale now (db\<lparr>expiry := um_erase key (expiry db)\<rparr>) \<subseteq> stale now db"
  by (auto simp: stale_def erase_list_def key_exists_unlocked_def is_expired_unlocked_def split: if_splits)

lemma not_expired_remove: "\<not> is_expired_unlocked now k (remove_expired_unlocked k db)"
  by (simp add: is_expired_unlocked_def remove_expired_unlocked_def)

lemma stale_push:
  "stale now (snd (db_lpush now key vals db)) \<subseteq> stale now db"
  "stale now (snd (db_rpush now key vals db)) \<subseteq> stale now db"
  by (simp_all add: db_lpush_def db_rpush_def Let_def stale_put_list not_expired_remove)

lemma stale_pop:
  "stale now (snd (db_lpop now key db)) \<subseteq> stale now db"
  "stale now (snd (db_rpop now key db)) \<subseteq> stale now db"
  by (simp_all add: db_lpop_def db_rpop_def stale_put_list stale_erase split: option.split list.split)

lemma stale_reads:
  "stale now (snd (db_get now key db)) \<subseteq> stale now db"
  "stale now (snd (db_lrange now key start stop db)) \<subseteq> stale now db"
  "stale now (snd (db_llen now key db)) \<subseteq> stale now db"
  "stale now (snd (db_lindex now key index db)) \<subseteq> stale now db"
  by (simp_all add: db_get_def db_lrange_def db_llen_def db_lindex_def Let_def split: option.split)

lemma stale_times:
  "stale now (snd (db_ttl c key db)) \<subseteq> stale now db"
  "stale now (snd (db_persist now key db)) \<subseteq> stale now db"
  by (simp_all add: db_ttl_def db_persist_def stale_erase split: option.split)

lemma stale_keys: "stale now (snd (db_keys c db)) \<subseteq> stale now db"
  by (auto simp: db_keys_def split_beta Let_def)

lemma stale_round: "stale now (snd (expiry_loop now' db)) \<subseteq> stale now db"
  by (simp add: expiry_loop_def expiry_scan_def Let_def)

lemmas stale_calls = stale_writes stale_push stale_pop stale_reads stale_times stale_exists stale_keys stale_round

lemma stale_run_call:
  assumes "db_wf db"
  shows "stale now (snd (run_call now call db)) \<subseteq>
    stale now db - written call \<union> expired_by call (view now db) (view now (snd (run_call now call db)))"
proof (cases call)
  case (Expire key secs)
  have "k \<in> stale now db \<or> view now db k \<noteq> None \<and> view now (snd (db_expire (\<lambda>_. now) key secs db)) k = None"
    if "k \<in> stale now (snd (db_expire (\<lambda>_. now) key secs db))" for k
  proof -
    have "key_exists_unlocked k db"
      using that by (auto simp: stale_def db_expire_def key_exists_unlocked_def remove_expired_unlocked_def split: if_splits)
    moreover have "view now (snd (db_expire (\<lambda>_. now) key secs db)) k = None"
      using that view_expired [of now k _ now] by (auto simp: stale_def)
    ultimately show ?thesis using stored_live_or_stale [OF assms, of k now] by blast
  qed
  then show ?thesis using Expire by (simp add: subset_iff dom_def del: not_None_eq)
qed (use stale_calls in \<open>auto simp: db_dbsize_keys\<close>)

lemma run_call_result:
  assumes inv: "db_inv db" and fit: "lists_fit (view now db)" and other: "\<forall>keys. call \<noteq> Del keys"
  shows "fst (run_call now call db) = fst (spec_call now call (view now db))"
proof -
  have wf: "db_wf db" using inv by (simp add: db_inv_def)
  have small: "int (length (as_list (view now db key))) \<le> int_max" for key
    using fit by (simp add: lists_fit_def)
  have exists: "fst (db_exists (\<lambda>_. now) keys db) =
      int (length (filter (\<lambda>k. view now db k \<noteq> None) keys))" for keys
    using exists_loop_count [OF wf] by (simp add: db_exists_def)
  note results = db_get_result [OF wf] exists db_keys_result(1) [OF wf] db_dbsize_result [OF wf]
    dbk.lpush_result [OF inv] dbk.rpush_result [OF inv] dbk.lpop_result [OF inv]
    dbk.rpop_result [OF inv] db_lrange_result [OF wf small] dbk.llen_result [OF inv]
    db_lindex_result [OF wf small] dbk.expire_result [OF inv] db_ttl_result [OF wf]
    dbk.persist_result [OF inv]
  show ?thesis using other by (cases call) (simp_all add: results upd_def)
qed

lemma run_call_allowed:
  assumes "db_inv db" and "lists_fit (view now db)" and "stale now db \<subseteq> X"
  shows "allowed call (view now db) X (fst (spec_call now call (view now db))) (fst (run_call now call db))"
proof (cases "\<exists>keys. call = Del keys")
  case True
  then obtain keys where call: "call = Del keys" by blast
  have "db_wf db" using assms(1) by (simp add: db_inv_def)
  then have "fst (db_del keys db) = int (card {k \<in> set keys. view now db k \<noteq> None \<or> k \<in> stale now db})"
    using stored_live_or_stale by (simp add: db_del_def del_loop_count)
  then show ?thesis using assms(3) call by auto
next
  case False
  then show ?thesis using run_call_result [OF assms(1,2), of call] by (cases call) auto
qed

text \<open>The type of a live entry, and the calls that keep it.\<close>

fun type_of :: "redis_value \<Rightarrow> KeyType" where
  "type_of (VString s) = STRING"
| "type_of (VList l) = LIST"

lemma key_type_view: "view now db key = Some (v, d) \<Longrightarrow> key_type_unlocked key db = type_of v"
  by (auto simp: view_def entry_of_def at_time_def key_type_unlocked_def
      split: option.splits if_splits bind_splits)

lemma spec_call_type:
  assumes "m key = Some (v, d)" and "snd (spec_call now call m) key = Some (v', d')"
    and "\<And>s. call \<noteq> Set key s"
  shows "type_of v' = type_of v"
  using assms
  by (cases call; cases v)
    (auto simp: upd_def spec_defs at_time_def split: if_splits option.splits bind_splits)

text \<open>The lists stay short along a history of the machine.\<close>

fun short_lists :: "(time \<times> db_call) list \<Rightarrow> live_map \<Rightarrow> bool" where
  "short_lists [] m = True"
| "short_lists ((now, call) # h) m =
     (lists_fit (age now m) \<and> short_lists h (snd (spec_call now call (age now m))))"

lemma run_calls_refines:
  assumes "db_inv db" and "sorted (t0 # map fst h)" and "short_lists h (view t0 db)" and "stale t0 db \<subseteq> X"
  shows "spec_history h (view t0 db) X (fst (run_calls h db)) (view (last (t0 # map fst h)) (snd (run_calls h db))) \<and>
    db_inv (snd (run_calls h db))"
  using assms
proof (induction h arbitrary: db t0 X)
  case (Cons e h)
  obtain now call where e: "e = (now, call)" by force
  have wf: "db_wf db" using Cons.prems(1) by (simp add: db_inv_def)
  have le: "t0 \<le> now" using Cons.prems(2) e by simp
  then have age: "age now (view t0 db) = view now db" by (rule age_view)
  then have fit: "lists_fit (view now db)" using Cons.prems(3) e by simp
  let ?db = "snd (run_call now call db)" and ?X = "X \<union> (dom (view t0 db) - dom (view now db))"
  have "stale now db \<subseteq> ?X"
    using stored_live_or_stale [OF wf] Cons.prems(4) view_expired [of now _ db now] by (fastforce simp: stale_def)
  then have res: "allowed call (view now db) ?X (fst (spec_call now call (view now db))) (fst (run_call now call db))"
    and "stale now ?db \<subseteq> ?X - written call \<union> expired_by call (view now db) (view now ?db)"
    using run_call_allowed [OF Cons.prems(1) fit] stale_run_call [OF wf, of now call] by blast+
  moreover have "stale now ?db \<inter> dom (view now ?db) = {}"
    using view_expired [of now _ ?db now] by (auto simp: stale_def)
  ultimately have "stale now ?db \<subseteq> ?X - written call - dom (view now ?db) \<union> expired_by call (view now db) (view now ?db)"
    by blast
  moreover have step: "view now ?db = snd (spec_call now call (view now db))"
    using run_call_view [OF Cons.prems(1)] by auto
  moreover have "sorted (now # map fst h)" using Cons.prems(2) e by simp
  moreover have "short_lists h (view now ?db)" using Cons.prems(3) e age step by simp
  ultimately have "spec_history h (view now ?db)
      (?X - written call - dom (view now ?db) \<union> expired_by call (view now db) (view now ?db)) (fst (run_calls h ?db))
      (view (last (now # map fst h)) (snd (run_calls h ?db))) \<and> db_inv (snd (run_calls h ?db))"
    by (intro Cons.IH run_call_inv [OF Cons.prems(1)])
  then show ?case
    using step age e res by (simp add: split_beta Let_def)
qed simp

text \<open>A history that pushes few enough elements keeps every list short.\<close>

fun pushes :: "db_call \<Rightarrow> nat" where
  "pushes (Lpush key val vals) = Suc (length vals)"
| "pushes (Rpush key val vals) = Suc (length vals)"
| "pushes _ = 0"

definition pushed :: "(time \<times> db_call) list \<Rightarrow> nat" where
  "pushed h = sum_list (map (pushes \<circ> snd) h)"

definition len_at :: "live_map \<Rightarrow> string \<Rightarrow> nat" where
  "len_at m key = length (as_list (m key))"

lemma len_at_age: "len_at (age now m) key \<le> len_at m key"
  by (cases "m key") (auto simp: len_at_def age_def as_list_def at_time_def)

lemma as_list_push: "length (as_list (Option.bind (snd (push_spec f e)) (at_time now))) \<le>
    max (length (f (as_list e))) (length (as_list e))"
  by (auto simp: push_spec_def as_list_def at_time_def Let_def split: option.split redis_value.split)

lemma as_list_pop: "length (g (as_list e)) \<le> length (as_list e) \<Longrightarrow>
    length (as_list (Option.bind (snd (pop_spec f g e)) (at_time now))) \<le> length (as_list e)"
  by (auto simp: pop_spec_def as_list_def at_time_def Let_def
      split: option.splits redis_value.splits list.splits prod.splits)

lemma len_at_call: "len_at (snd (spec_call now call m)) key \<le> len_at m key + pushes call"
proof (cases call)
  case (Lpush k v vs)
  then show ?thesis
    using as_list_push [of "\<lambda>l. rev vs @ v # l" "m k" now] by (auto simp: len_at_def upd_def)
next
  case (Rpush k v vs)
  then show ?thesis
    using as_list_push [of "\<lambda>l. l @ v # vs" "m k" now] by (auto simp: len_at_def upd_def)
next
  case (Lpop k)
  then show ?thesis
    using as_list_pop [of tl "m k" hd now] by (auto simp: len_at_def upd_def)
next
  case (Rpop k)
  then show ?thesis
    using as_list_pop [of butlast "m k" last now] by (auto simp: len_at_def upd_def)
qed (auto simp: len_at_def as_list_def at_time_def split: option.splits bind_splits)

lemma short_listsI:
  "(\<forall>key. int (len_at m key + pushed h) \<le> int_max) \<Longrightarrow> short_lists h m"
proof (induction h arbitrary: m)
  case (Cons e h)
  obtain now call where e: "e = (now, call)" by force
  have fit: "lists_fit (age now m)"
    using Cons.prems len_at_age [of now m] unfolding lists_fit_def len_at_def [symmetric]
    by (smt (verit) of_nat_add of_nat_le_iff of_nat_0_le_iff)
  have "len_at (snd (spec_call now call (age now m))) key + pushed h \<le> len_at m key + pushed (e # h)" for key
    using len_at_call [of now call "age now m" key] len_at_age [of now m key] e by (simp add: pushed_def)
  then have "short_lists h (snd (spec_call now call (age now m)))"
    using Cons.prems by (intro Cons.IH) (meson of_nat_le_iff order_trans)
  with fit e show ?case by simp
qed simp

lemma view_new [simp]: "view now new_database = Map.empty"
  by (simp add: view_def entry_of_def new_database_def fun_eq_iff)


section \<open>Background expiry\<close>

lemma expiry_fold_remove: "um_find (expiry (fold remove_expired_unlocked ks db)) k =
    (if k \<in> set ks then None else um_find (expiry db) k)"
  by (induction ks arbitrary: db) (auto simp: remove_expired_unlocked_def)

lemma expiry_scan_all:
  assumes "db_wf db" and "length (expiry db) \<le> MAX_SAMPLE"
  shows "\<not> is_expired_unlocked now key (expiry_scan now db)"
proof -
  have wf: "um_wf (expiry db)" using assms(1) by (simp add: db_wf_def)
  have "um_find (expiry (expiry_scan now db)) key =
      (if \<exists>d. (key, d) \<in> set (expiry db) \<and> d \<le> now then None else um_find (expiry db) key)"
    using assms(2) by (auto simp: expiry_scan_def Let_def expiry_fold_remove image_iff)
  then show ?thesis
    by (auto simp: is_expired_unlocked_def um_find_in_set [OF wf] split: option.split if_splits)
qed

lemma expiry_scan_idle:
  "\<forall>e \<in> set (take MAX_SAMPLE (expiry db)). now < snd e \<Longrightarrow> expiry_scan now db = db"
proof -
  assume "\<forall>e \<in> set (take MAX_SAMPLE (expiry db)). now < snd e"
  then have "filter (\<lambda>e. snd e \<le> now) (take MAX_SAMPLE (expiry db)) = []"
    by (auto simp: filter_empty_conv)
  then show ?thesis by (simp add: expiry_scan_def)
qed

text \<open>
  A round of the expiry thread before a call cannot be noticed by the call, the count of \<open>del\<close> apart, nor
  afterwards: the calls of one command may be treated as if no round came between them.
\<close>

lemma expiry_invisible:
  assumes "db_inv db" and "now \<le> now'" and "lists_fit (view now' db)"
  shows "(\<forall>keys. call \<noteq> Del keys) \<longrightarrow> fst (run_call now' call (snd (expiry_loop now db))) = fst (run_call now' call db)"
    and "view now' (snd (run_call now' call (snd (expiry_loop now db)))) = view now' (snd (run_call now' call db))"
proof -
  let ?db = "snd (expiry_loop now db)"
  have inv: "db_inv ?db" using run_call_inv [OF assms(1), of now ExpiryRound] by simp
  have same: "view now' ?db = view now' db"
    using assms(1) by (simp add: view_later [OF assms(2)] view_expiry_loop db_inv_def fun_eq_iff)
  show "(\<forall>keys. call \<noteq> Del keys) \<longrightarrow> fst (run_call now' call ?db) = fst (run_call now' call db)"
    using run_call_result [OF inv, of now' call] run_call_result [OF assms(1), of now' call] assms(3) same by simp
  show "view now' (snd (run_call now' call ?db)) = view now' (snd (run_call now' call db))"
    using run_call_view [OF inv] run_call_view [OF assms(1)] same by simp
qed

section \<open>Properties\<close>

text \<open>
  C1. Every history of calls on a fresh database, with the expiry thread started or not, with non-decreasing
  times and fewer than \<open>2^31\<close> pushed elements, gives results that the abstract machine on live entries allows,
  and ends in a state whose live entries are those of the machine; the class invariant holds at the end. The
  results are those of the machine exactly, except that the count of \<open>del\<close> may include named keys that have
  expired since they were last written.
\<close>

theorem database_refines:
  assumes "db0 = new_database \<or> start_expiry_thread new_database = Some db0"
    and "sorted (t0 # map fst h)" and "int (pushed h) \<le> int_max"
  shows "spec_history h Map.empty {} (fst (run_calls h db0)) (view (last (t0 # map fst h)) (snd (run_calls h db0))) \<and>
    db_inv (snd (run_calls h db0))"
proof -
  have data: "store db0 = []" "list_store db0 = []" "expiry db0 = []"
    using assms(1) by (auto simp: new_database_def start_expiry_thread_def)
  then have fresh: "db_inv db0" "view t0 db0 = Map.empty" "stale t0 db0 = {}"
    using db_inv_new by (simp_all add: db_inv_def db_wf_def no_empty_lists_def new_database_def view_def entry_of_def
        fun_eq_iff stale_def key_exists_unlocked_def)
  have "short_lists h (view t0 db0)"
    using assms(3) by (intro short_listsI) (simp add: len_at_def as_list_def fresh)
  then show ?thesis
    using run_calls_refines [OF fresh(1) assms(2), of "{}"] fresh by simp
qed

theorem database_refines_witness:
  "let db0 = the (start_expiry_thread new_database);
       h = [(0, Set ''a'' ''x''), (1, Rpush ''l'' ''p'' [''q'']), (2, Expire ''a'' 1), (3000000000, ExpiryRound),
         (3000000001, Get ''a''), (3000000002, Del [''l'', ''n'', ''l''])]
   in fst (run_calls h db0) = [RUnit, RInt 2, RBool True, RUnit, RString None, RInt 1] \<and>
      spec_history h Map.empty {} (fst (run_calls h db0)) (view 3000000002 (snd (run_calls h db0)))"
proof -
  let ?db0 = "the (start_expiry_thread new_database)"
  let ?h = "[(0, Set ''a'' ''x''), (1, Rpush ''l'' ''p'' [''q'']), (2, Expire ''a'' 1), (3000000000, ExpiryRound),
         (3000000001, Get ''a''), (3000000002, Del [''l'', ''n'', ''l''])]"
  have "start_expiry_thread new_database = Some ?db0"
    by (simp add: start_expiry_thread_def new_database_def)
  then have "spec_history ?h Map.empty {} (fst (run_calls ?h ?db0)) (view 3000000002 (snd (run_calls ?h ?db0)))"
    using database_refines [of ?db0 0 ?h] by (simp add: int_max_def pushed_def del: run_calls.simps spec_history.simps)
  moreover have "fst (run_calls ?h ?db0) = [RUnit, RInt 2, RBool True, RUnit, RString None, RInt 1]"
    by code_simp
  ultimately show ?thesis by (simp only: Let_def simp_thms)
qed

text \<open>
  A list fed by \<open>rpush\<close> and drained by \<open>lpop\<close> is a queue: the elements come back in the order
  they were pushed, whatever the times of the calls.
\<close>

lemma rpush_lpop_fifo:
  assumes "db_inv db" and "view now db key = None" and "vals \<noteq> []"
    and "length ts = length vals" and "sorted (now # ts)"
  shows "fst (pops (\<lambda>t. db_lpop t key) ts (snd (db_rpush now key vals db))) = map Some vals"
  by (rule dbk.queue_order [OF assms])

lemma rpush_lpop_fifo_witness:
  "fst (pops (\<lambda>t. db_lpop t ''q'') [5, 6] (snd (db_rpush 5 ''q'' [''x'', ''y''] new_database))) =
     [Some ''x'', Some ''y'']"
  using rpush_lpop_fifo [of new_database 5 "''q''" "[''x'', ''y'']" "[5, 6]"] db_inv_new by simp

text \<open>
  After \<open>expire key secs\<close>, \<open>get\<close> still returns the key's string before the deadline and nothing
  from the deadline on.
\<close>

lemma get_after_db_expire:
  assumes "db_inv db" and "c [0] \<le> now"
  shows "fst (db_get now key (snd (db_expire c key secs db))) =
     (if now < c [1] + secs * ns_per_sec then as_string (view (c [0]) db key) else None)"
  by (rule dbk.get_after_expire [where c = c and now = now, OF assms])

lemma get_after_db_expire_witness:
  "fst (db_get 2000000000 ''k'' (snd (db_expire (\<lambda>_. 0) ''k'' 2 (db_set ''k'' ''v'' new_database)))) = None
   \<and> fst (db_get 1999999999 ''k'' (snd (db_expire (\<lambda>_. 0) ''k'' 2 (db_set ''k'' ''v'' new_database)))) = Some ''v''"
  using get_after_db_expire [of "db_set ''k'' ''v'' new_database" "\<lambda>_. 0" 2000000000 "''k''" 2]
    get_after_db_expire [of "db_set ''k'' ''v'' new_database" "\<lambda>_. 0" 1999999999 "''k''" 2]
    db_inv_set [OF db_inv_new]
  by (simp add: ns_per_sec_def view_set as_string_def)

text \<open>
  C38. One round of the running expiry thread removes every expired key when no more than
  \<^const>\<open>MAX_SAMPLE\<close> keys have a deadline, and never changes what is live.
\<close>

theorem expiry_round_purges:
  assumes "db_wf db" and "expiry_running db" and "length (expiry db) \<le> MAX_SAMPLE"
  shows "\<not> is_expired_unlocked now key (snd (expiry_loop now db)) \<and>
    view now (snd (expiry_loop now db)) = view now db"
  using assms expiry_scan_all view_expiry_loop [OF assms(1)] by (simp add: expiry_loop_def)

theorem expiry_round_purges_witness:
  "\<not> is_expired_unlocked 7 ''k'' (snd (expiry_loop 7
     \<lparr>store = [(''k'', ''v'')], list_store = [], expiry = [(''k'', 5)], expiry_running = True,
      expiry_joinable = True\<rparr>))"
  using expiry_round_purges [of "\<lparr>store = [(''k'', ''v'')], list_store = [], expiry = [(''k'', 5)],
      expiry_running = True, expiry_joinable = True\<rparr>" 7 "''k''"]
  by (simp add: db_wf_def um_wf_def um_keys_def um_find_eq MAX_SAMPLE_def)

text \<open>
  The sample of the expiry thread is always the first \<^const>\<open>MAX_SAMPLE\<close> entries in iteration
  order: as long as none of those is past its deadline, a round removes nothing, whatever is
  expired behind them.
\<close>

lemma expiry_round_starves:
  assumes "\<forall>e \<in> set (take MAX_SAMPLE (expiry db)). now < snd e"
  shows "snd (expiry_loop now db) = db"
  using expiry_scan_idle [OF assms] by (simp add: expiry_loop_def)

lemma expiry_round_starves_witness:
  "let live = map (\<lambda>i. (replicate i CHR ''x'', 100)) [0..<20];
       db = \<lparr>store = map (\<lambda>e. (fst e, ''v'')) (live @ [(''old'', 1)]), list_store = [],
             expiry = live @ [(''old'', 1)], expiry_running = True, expiry_joinable = True\<rparr>
   in is_expired_unlocked 50 ''old'' db \<and> snd (expiry_loop 50 db) = db"
  unfolding Let_def
  by (intro conjI expiry_round_starves)
    (simp_all add: MAX_SAMPLE_def is_expired_unlocked_def um_find_def upt_rec)

text \<open>
  \<open>del\<close> does not look at deadlines: an expired key that is still stored is counted as deleted,
  although \<open>exists\<close> does not see it.
\<close>

lemma del_counts_expired:
  assumes "is_expired_unlocked now key db" and "key_exists_unlocked key db"
  shows "fst (db_exists (\<lambda>_. now) [key] db) = 0 \<and> fst (db_del [key] db) = 1"
  using assms by (simp add: db_exists_def db_del_def del_loop_Cons)

lemma del_counts_expired_witness:
  "let db = \<lparr>store = [(''k'', ''v'')], list_store = [], expiry = [(''k'', 5)], expiry_running = False,
      expiry_joinable = False\<rparr>
   in fst (db_exists (\<lambda>_. 9) [''k''] db) = 0 \<and> fst (db_del [''k''] db) = 1"
  unfolding Let_def
  by (rule del_counts_expired) (simp_all add: is_expired_unlocked_def key_exists_unlocked_def um_find_def um_count_def)

text \<open>
  C30. A key keeps its type: as long as a key is live before and after a call other than \<open>set\<close> on that
  key, its type is the same before and after; in particular no push or pop turns a string into a list.
\<close>

theorem key_type_stable:
  assumes "db_inv db" and "view now db key \<noteq> None" and "view now (snd (run_call now call db)) key \<noteq> None"
    and "\<And>s. call \<noteq> Set key s"
  shows "key_type_unlocked key (snd (run_call now call db)) = key_type_unlocked key db"
proof -
  obtain v d v' d' where before: "view now db key = Some (v, d)"
    and after: "view now (snd (run_call now call db)) key = Some (v', d')"
    using assms(2,3) by auto
  have "type_of v' = type_of v"
    using spec_call_type [where m = "view now db", OF before] after assms(4)
    by (simp add: run_call_view [OF assms(1)])
  then show ?thesis using key_type_view [OF before] key_type_view [OF after] by simp
qed

theorem key_type_stable_witness:
  "key_type_unlocked ''k'' (snd (run_call 5 (Rpush ''k'' ''x'' []) (db_set ''k'' ''v'' new_database))) = STRING"
proof -
  let ?db = "db_set ''k'' ''v'' new_database"
  have inv: "db_inv ?db" by (intro wf_intros db_inv_new)
  have "view 5 (snd (run_call 5 (Rpush ''k'' ''x'' []) ?db)) ''k'' \<noteq> None"
    unfolding run_call_view [OF inv] by (simp add: view_set upd_def spec_defs at_time_def)
  then have "key_type_unlocked ''k'' (snd (run_call 5 (Rpush ''k'' ''x'' []) ?db)) = key_type_unlocked ''k'' ?db"
    by (intro key_type_stable [OF inv]) (simp_all add: view_set)
  also have "\<dots> = STRING" by (simp add: key_type_unlocked_def db_set_def)
  finally show ?thesis .
qed

end
