(* ===== verification/Strings.thy ===== *)
theory Strings
  imports Prelude
begin

text \<open>
  The parts of the C++ string and character library that the program uses, on byte strings
  (\<^typ>\<open>string\<close>, one \<^typ>\<open>char\<close> per byte): character classes in the C locale, decimal printing
  (\<open>std::to_string\<close>), decimal parsing (\<open>std::stoi\<close>, \<open>std::stoll\<close>), searching, and \<open>std::getline\<close>.
\<close>

section \<open>Characters\<close>

abbreviation CR :: char where "CR \<equiv> CHR 0x0D"
abbreviation LF :: char where "LF \<equiv> CHR 0x0A"
abbreviation TAB :: char where "TAB \<equiv> CHR 0x09"
abbreviation DQ :: char where "DQ \<equiv> CHR 0x22"
abbreviation SQ :: char where "SQ \<equiv> CHR 0x27"
abbreviation BSL :: char where "BSL \<equiv> CHR 0x5C"
abbreviation crlf :: string where "crlf \<equiv> [CR, LF]"

definition is_space :: "char \<Rightarrow> bool" where
  "is_space c \<longleftrightarrow> c \<in> set [CHR '' '', TAB, LF, CHR 0x0B, CHR 0x0C, CR]"

definition is_digit :: "char \<Rightarrow> bool" where
  "is_digit c \<longleftrightarrow> 48 \<le> (of_char c :: nat) \<and> (of_char c :: nat) \<le> 57"

text \<open>What a C function sees of \<open>s.c_str()\<close>.\<close>

definition c_str :: "string \<Rightarrow> string" where
  "c_str s = takeWhile (\<lambda>c. c \<noteq> CHR 0x00) s"

definition toupper :: "char \<Rightarrow> char" where
  "toupper c = (if 97 \<le> (of_char c :: nat) \<and> (of_char c :: nat) \<le> 122
     then char_of ((of_char c :: nat) - 32) else c)"

definition upper :: "string \<Rightarrow> string" where
  "upper s = map toupper s"

lemma toupper_idem [simp]: "toupper (toupper c) = toupper c"
  by (auto simp: toupper_def)

lemma upper_idem [simp]: "upper (upper s) = upper s"
  by (simp add: upper_def)

section \<open>Printing numbers\<close>

definition digit_char :: "nat \<Rightarrow> char" where
  "digit_char d = char_of (48 + d)"

definition digit_val :: "char \<Rightarrow> nat" where
  "digit_val c = of_char c - 48"

fun show_nat :: "nat \<Rightarrow> string" where
  "show_nat n = (if n < 10 then [digit_char n] else show_nat (n div 10) @ [digit_char (n mod 10)])"

declare show_nat.simps [simp del]

definition show_int :: "int \<Rightarrow> string" where
  "show_int i = (if i < 0 then CHR ''-'' # show_nat (nat (- i)) else show_nat (nat i))"

definition digits_val :: "string \<Rightarrow> nat" where
  "digits_val s = foldl (\<lambda>acc c. 10 * acc + digit_val c) 0 s"

lemma digit_char_digit [simp]: "d < 10 \<Longrightarrow> is_digit (digit_char d)"
  by (simp add: digit_char_def is_digit_def)

lemma digit_val_char [simp]: "d < 10 \<Longrightarrow> digit_val (digit_char d) = d"
  by (simp add: digit_char_def digit_val_def)

lemma show_nat_nonempty [simp]: "show_nat n \<noteq> []"
  by (subst show_nat.simps) simp

lemma show_nat_digits: "c \<in> set (show_nat n) \<Longrightarrow> is_digit c"
proof (induction n rule: show_nat.induct)
  case (1 n)
  then show ?case
    by (cases "n < 10") (auto simp: show_nat.simps [of n])
qed

lemma digits_val_show [simp]: "digits_val (show_nat n) = n"
proof (induction n rule: show_nat.induct)
  case (1 n)
  then show ?case
    by (cases "n < 10") (auto simp: show_nat.simps [of n] digits_val_def)
qed

lemma digit_not_special:
  "is_digit c \<Longrightarrow> c \<noteq> CR \<and> c \<noteq> LF \<and> c \<noteq> CHR ''-'' \<and> c \<noteq> CHR ''+'' \<and> \<not> is_space c"
  by (auto simp: is_digit_def is_space_def)

lemma show_nat_hd: "is_digit (hd (show_nat n))"
  using show_nat_digits [of "hd (show_nat n)" n] by simp

section \<open>Parsing numbers\<close>

text \<open>
  \<open>strtol\<close> in base 10: white space, an optional sign, then the longest run of digits. Without a
  digit \<open>stoi\<close> throws \<open>invalid_argument\<close>, outside the result type \<open>out_of_range\<close>; every caller
  treats the two alike, so both are \<^term>\<open>None\<close>.
\<close>

definition parse_decimal :: "int \<Rightarrow> int \<Rightarrow> string \<Rightarrow> int option" where
  "parse_decimal lo hi s =
     (let s1 = dropWhile is_space s;
          neg = (s1 \<noteq> [] \<and> hd s1 = CHR ''-'');
          s2 = (if s1 \<noteq> [] \<and> (hd s1 = CHR ''-'' \<or> hd s1 = CHR ''+'') then tl s1 else s1);
          ds = takeWhile is_digit s2;
          v = (if neg then - int (digits_val ds) else int (digits_val ds))
      in if ds = [] then None else if lo \<le> v \<and> v \<le> hi then Some v else None)"

definition stoi :: "string \<Rightarrow> int option" where
  "stoi s = parse_decimal int_min int_max s"

definition stoll :: "string \<Rightarrow> int option" where
  "stoll s = parse_decimal (- 9223372036854775808) 9223372036854775807 s"

lemma takeWhile_show_nat:
  "(rest = [] \<or> \<not> is_digit (hd rest)) \<Longrightarrow> takeWhile is_digit (show_nat n @ rest) = show_nat n"
  by (cases rest) (auto simp: takeWhile_append2 show_nat_digits takeWhile_tail)

lemma parse_decimal_show:
  assumes "lo \<le> i" and "i \<le> hi" and "rest = [] \<or> \<not> is_digit (hd rest)"
  shows "parse_decimal lo hi (show_int i @ rest) = Some i"
proof -
  obtain c cs where c: "show_nat (nat \<bar>i\<bar>) = c # cs" "is_digit c"
    using show_nat_hd [of "nat \<bar>i\<bar>"] by (cases "show_nat (nat \<bar>i\<bar>)") auto
  have tw: "takeWhile is_digit (c # cs @ rest) = c # cs"
    using takeWhile_show_nat [OF assms(3), of "nat \<bar>i\<bar>"] c by simp
  have dv: "digits_val (c # cs) = nat \<bar>i\<bar>"
    using digits_val_show [of "nat \<bar>i\<bar>"] c by simp
  show ?thesis
  proof (cases "i < 0")
    case True
    then have "show_int i = CHR ''-'' # c # cs" using c by (simp add: show_int_def)
    moreover have "\<not> is_space CHR ''-''" by (simp add: is_space_def)
    ultimately show ?thesis
      using True tw dv assms by (simp add: parse_decimal_def Let_def)
  next
    case False
    then have "show_int i = c # cs" using c by (simp add: show_int_def)
    then show ?thesis
      using False tw dv assms digit_not_special [OF c(2)] by (simp add: parse_decimal_def Let_def)
  qed
qed

lemma stoi_show [simp]: "int_min \<le> i \<Longrightarrow> i \<le> int_max \<Longrightarrow> stoi (show_int i) = Some i"
  using parse_decimal_show [of int_min i int_max "[]"] by (simp add: stoi_def)

lemma show_int_nat: "show_int (int n) = show_nat n"
  by (simp add: show_int_def)

lemma stoi_show_nat [simp]: "int n \<le> int_max \<Longrightarrow> stoi (show_nat n) = Some (int n)"
  using stoi_show [of "int n"] by (simp add: show_int_nat int_min_def)

lemma stoi_range: "stoi s = Some i \<Longrightarrow> int_min \<le> i \<and> i \<le> int_max"
  by (auto simp: stoi_def parse_decimal_def Let_def split: if_splits)

lemma show_int_no_cr: "CR \<notin> set (show_int i)" "LF \<notin> set (show_int i)"
  using digit_not_special by (auto simp: show_int_def dest!: show_nat_digits)

lemma show_nat_no_cr [simp]: "CR \<notin> set (show_nat n)" "LF \<notin> set (show_nat n)"
  using show_int_no_cr [of "int n"] by (simp_all add: show_int_nat)

section \<open>Searching\<close>

text \<open>\<open>find\<close> of a two-character needle: the index of its first occurrence.\<close>

fun find_pair :: "char \<Rightarrow> char \<Rightarrow> string \<Rightarrow> nat option" where
  "find_pair a b [] = None"
| "find_pair a b [x] = None"
| "find_pair a b (x # y # s) =
     (if x = a \<and> y = b then Some 0 else map_option Suc (find_pair a b (y # s)))"

fun find_char :: "char \<Rightarrow> string \<Rightarrow> nat option" where
  "find_char a [] = None"
| "find_char a (x # s) = (if x = a then Some 0 else map_option Suc (find_char a s))"

lemma find_pair_Some:
  "find_pair a b s = Some i \<Longrightarrow> Suc i < length s \<and> s ! i = a \<and> s ! Suc i = b"
proof (induction a b s arbitrary: i rule: find_pair.induct)
  case (3 a b x y s)
  then show ?case by (cases i) (auto split: if_splits)
qed auto

lemma find_pair_least:
  "find_pair a b s = Some i \<Longrightarrow> j < i \<Longrightarrow> \<not> (s ! j = a \<and> s ! Suc j = b)"
proof (induction a b s arbitrary: i j rule: find_pair.induct)
  case (3 a b x y s)
  then show ?case by (cases j) (auto split: if_splits)
qed auto

lemma find_pair_append: "find_pair a b s = Some i \<Longrightarrow> find_pair a b (s @ t) = Some i"
proof (induction a b s arbitrary: i rule: find_pair.induct)
  case (3 a b x y s)
  then show ?case by (auto split: if_splits)
qed auto

lemma find_pair_at: "a \<notin> set s \<Longrightarrow> find_pair a b (s @ a # b # t) = Some (length s)"
proof (induction s)
  case (Cons x s)
  then show ?case by (cases s) auto
qed simp

lemma find_char_Some: "find_char a s = Some i \<Longrightarrow> i < length s \<and> s ! i = a"
  by (induction s arbitrary: i) (auto split: if_splits)

lemma find_char_None: "find_char a s = None \<longleftrightarrow> a \<notin> set s"
  by (induction s) auto

lemma find_char_at: "a \<notin> set s \<Longrightarrow> find_char a (s @ a # t) = Some (length s)"
  by (induction s) auto

section \<open>Lines\<close>

text \<open>The lines a loop over \<open>std::getline\<close> yields: no line after a final newline.\<close>

fun getlines :: "string \<Rightarrow> string list" where
  "getlines [] = []"
| "getlines (c # s) =
     (if c = LF then [] # getlines s
      else case getlines s of [] \<Rightarrow> [[c]] | l # ls \<Rightarrow> (c # l) # ls)"

lemma getlines_length: "l \<in> set (getlines s) \<Longrightarrow> length l \<le> length s"
proof (induction s arbitrary: l)
  case (Cons c s)
  then show ?case
    by (cases "getlines s") (fastforce split: if_splits)+
qed simp

lemma getlines_no_lf: "l \<in> set (getlines s) \<Longrightarrow> LF \<notin> set l"
proof (induction s arbitrary: l)
  case (Cons c s)
  then show ?case
    by (cases "getlines s") (auto split: if_splits)
qed simp

lemma getlines_single: "LF \<notin> set s \<Longrightarrow> s \<noteq> [] \<Longrightarrow> getlines s = [s]"
proof (induction s)
  case (Cons c s)
  then show ?case by (cases s) auto
qed simp

lemma getlines_append: "LF \<notin> set s \<Longrightarrow> getlines (s @ LF # t) = s # getlines t"
  by (induction s) auto

section \<open>Substrings\<close>

definition starts_with :: "string \<Rightarrow> string \<Rightarrow> bool" where
  "starts_with p s \<longleftrightarrow> take (length p) s = p"

definition substr :: "string \<Rightarrow> nat \<Rightarrow> nat \<Rightarrow> string" where
  "substr s pos n = take n (drop pos s)"

section \<open>Stream extraction\<close>

text \<open>\<open>std::istream >> std::string\<close>: the word and the rest of the stream.\<close>

definition extract_word :: "string \<Rightarrow> string \<times> string" where
  "extract_word s =
     (let s1 = dropWhile is_space s
      in (takeWhile (\<lambda>c. \<not> is_space c) s1, dropWhile (\<lambda>c. \<not> is_space c) s1))"

end
