(* ===== verification/Parser.thy ===== *)
theory Parser
  imports Strings
begin

text \<open>
  The inline command tokenizer of \<open>include/parser/parser.h\<close> and \<open>src/parser/parser.cpp\<close>. The index
  loops of the code are functions on the rest of the input. A quoting function, the inverse of the
  tokenizer, shows that every list of arguments can be written as an inline command.
\<close>

section \<open>Commands and parse results\<close>

record Command =
  cmd_name :: string
  cmd_args :: "string list"

record ParseResult =
  pr_ok :: bool
  pr_command :: Command
  pr_error :: string

abbreviation empty_command :: Command where
  "empty_command \<equiv> \<lparr>cmd_name = [], cmd_args = []\<rparr>"

definition parse_success :: "Command \<Rightarrow> ParseResult" where
  "parse_success cmd = \<lparr>pr_ok = True, pr_command = cmd, pr_error = []\<rparr>"

definition parse_failure :: "string \<Rightarrow> ParseResult" where
  "parse_failure err = \<lparr>pr_ok = False, pr_command = empty_command, pr_error = err\<rparr>"

section \<open>The tokenizer\<close>

text \<open>The escape switch of a double-quoted token.\<close>

definition unescape :: "char \<Rightarrow> string" where
  "unescape e =
     (if e = DQ then [DQ] else if e = BSL then [BSL] else if e = CHR ''n'' then [LF]
      else if e = CHR ''t'' then [TAB] else [BSL, e])"

text \<open>From after the opening double quote: the token and what follows the closing quote.\<close>

fun scan_double :: "string \<Rightarrow> string \<times> string" where
  "scan_double [] = ([], [])"
| "scan_double (c # s) =
     (if c = DQ then ([], s)
      else if c = BSL \<and> s \<noteq> [] then
        (case s of e # s' \<Rightarrow> let (token, rest) = scan_double s' in (unescape e @ token, rest))
      else let (token, rest) = scan_double s in (c # token, rest))"

definition scan_single :: "string \<Rightarrow> string \<times> string" where
  "scan_single s = (takeWhile (\<lambda>c. c \<noteq> SQ) s, drop 1 (dropWhile (\<lambda>c. c \<noteq> SQ) s))"

definition scan_plain :: "string \<Rightarrow> string \<times> string" where
  "scan_plain s = (takeWhile (\<lambda>c. \<not> is_space c) s, dropWhile (\<lambda>c. \<not> is_space c) s)"

definition scan_token :: "char \<Rightarrow> string \<Rightarrow> string \<times> string" where
  "scan_token c s =
     (if c = DQ then scan_double s
      else if c = SQ then scan_single s
      else scan_plain (c # s))"

lemma scan_double_length: "length (snd (scan_double s)) \<le> length s"
proof (induction s rule: scan_double.induct)
  case (2 c s)
  then show ?case
    by (cases s) (fastforce simp: split_beta Let_def)+
qed simp

lemma scan_token_length: "\<not> is_space c \<Longrightarrow> length (snd (scan_token c s)) \<le> length s"
  using scan_double_length [of s] length_dropWhile_le [of _ s]
  by (auto simp: scan_token_def scan_single_def scan_plain_def intro: diff_le_self order_trans)

lemma dropWhile_hd_not: "dropWhile P s = c # r \<Longrightarrow> \<not> P c"
  by (metis dropWhile_eq_Cons_conv)

function tokenize :: "string \<Rightarrow> string list" where
  "tokenize input =
     (case dropWhile is_space input of
        [] \<Rightarrow> []
      | c # s \<Rightarrow> let (token, rest) = scan_token c s in token # tokenize rest)"
  by pat_completeness auto
termination
proof (relation "measure length")
  fix input c s p token rest
  assume "dropWhile is_space input = c # s" and "p = scan_token c s" and "(token, rest) = p"
  then have "length rest \<le> length s" "length (c # s) \<le> length input"
    using scan_token_length [of c s] dropWhile_hd_not [of is_space input c s]
      length_dropWhile_le [of is_space input]
    by (metis snd_conv, metis)
  then show "(rest, input) \<in> measure length" by simp
qed simp

declare tokenize.simps [simp del]

section \<open>Parsing a line\<close>

definition parse :: "string \<Rightarrow> ParseResult" where
  "parse input =
     (case tokenize input of
        [] \<Rightarrow> parse_failure ''ERR empty command''
      | t # ts \<Rightarrow> parse_success \<lparr>cmd_name = upper t, cmd_args = ts\<rparr>)"

section \<open>Properties\<close>

lemma tokenize_Nil [simp]: "tokenize [] = []"
  by (simp add: tokenize.simps)

lemma tokenize_space [simp]: "is_space c \<Longrightarrow> tokenize (c # s) = tokenize s"
  by (simp add: tokenize.simps [of "c # s"] tokenize.simps [of s])

lemma tokenize_token:
  "\<not> is_space c \<Longrightarrow>
   tokenize (c # s) = fst (scan_token c s) # tokenize (snd (scan_token c s))"
  by (simp add: tokenize.simps [of "c # s"] split_beta)

lemma tokenize_Nil_iff: "tokenize s = [] \<longleftrightarrow> (\<forall>c \<in> set s. is_space c)"
proof (induction s)
  case (Cons c s)
  then show ?case by (cases "is_space c") (auto simp: tokenize_token)
qed simp

lemma parse_ok_iff: "pr_ok (parse s) \<longleftrightarrow> (\<exists>c \<in> set s. \<not> is_space c)"
proof -
  have "pr_ok (parse s) \<longleftrightarrow> tokenize s \<noteq> []"
    by (simp add: parse_def parse_success_def parse_failure_def split: list.split)
  then show ?thesis by (auto simp: tokenize_Nil_iff)
qed

text \<open>Quoting: the inverse of the double-quoted scan.\<close>

definition escape :: "char \<Rightarrow> string" where
  "escape c = (if c = DQ then [BSL, DQ] else if c = BSL then [BSL, BSL]
     else if c = LF then [BSL, CHR ''n''] else if c = TAB then [BSL, CHR ''t''] else [c])"

definition quote :: "string \<Rightarrow> string" where
  "quote s = DQ # concat (map escape s) @ [DQ]"

lemma scan_double_escape:
  "scan_double (concat (map escape s) @ DQ # rest) = (s, rest)"
proof (induction s)
  case (Cons c s)
  then show ?case
    by (cases "concat (map escape s) @ DQ # rest") (auto simp: escape_def unescape_def)
qed simp

lemma tokenize_quote: "tokenize (quote s @ rest) = s # tokenize rest"
proof -
  have "\<not> is_space DQ" by (simp add: is_space_def)
  then show ?thesis
    by (simp add: quote_def tokenize_token scan_token_def scan_double_escape)
qed

lemma tokenize_quotes:
  "tokenize (concat (map (\<lambda>s. quote s @ '' '') ss)) = ss"
proof (induction ss)
  case (Cons s ss)
  have "is_space (CHR '' '')" by (simp add: is_space_def)
  with Cons show ?case by (simp add: tokenize_quote)
qed simp

lemma tokenize_plain:
  assumes "w \<noteq> []" and "\<forall>c \<in> set w. \<not> is_space c" and "hd w \<noteq> DQ" and "hd w \<noteq> SQ"
    and "rest = [] \<or> is_space (hd rest)"
  shows "tokenize (w @ rest) = w # tokenize rest"
proof -
  obtain c s where w: "w = c # s" using assms(1) by (cases w) auto
  have "scan_plain (w @ rest) = (w, rest)"
    using assms(2,5) by (cases rest) (auto simp: scan_plain_def takeWhile_append2 dropWhile_append2)
  then show ?thesis
    using assms(2-4) w by (simp add: tokenize_token scan_token_def)
qed

text \<open>
  C37. Every non-empty list of arguments, whatever bytes they hold, can be written as an inline command
  with double quotes, and parses back to itself with the name in upper case.
\<close>

theorem parse_quoted:
  assumes "ws \<noteq> []"
  shows "parse (concat (map (\<lambda>s. quote s @ '' '') ws)) =
    parse_success \<lparr>cmd_name = upper (hd ws), cmd_args = tl ws\<rparr>"
  using assms unfolding parse_def tokenize_quotes by (cases ws) simp_all

theorem parse_quoted_witness:
  "parse (concat (map (\<lambda>s. quote s @ '' '') [''get'', ''a b'', []])) =
    parse_success \<lparr>cmd_name = upper ''get'', cmd_args = [''a b'', []]\<rparr>"
  using parse_quoted [of "[''get'', ''a b'', []]"] by simp

text \<open>
  The tokenizer fails on no input: a line parses exactly when it holds a character that is not
  white space.
\<close>

lemma parse_succeeds_iff: "pr_ok (parse s) \<longleftrightarrow> list_ex (\<lambda>c. \<not> is_space c) s"
  by (simp add: parse_ok_iff list_ex_iff)

end
