(* ===== verification/Platform.thy ===== *)
theory Platform
  imports Strings
begin

text \<open>
  Sockets as \<open>include/platform/platform.h\<close> presents them (POSIX branch). The operating system is a
  parameter: \<open>socket_write\<close> and \<open>socket_read\<close> act on a world of an arbitrary type, and what is
  relied on of them is the documented behaviour of \<open>write(2)\<close> and \<open>read(2)\<close>, stated as predicates
  that theorems take as hypotheses. The two loops the program builds on them are defined here.
\<close>

type_synonym socket_t = int

definition INVALID_SOCKET_VAL :: socket_t where
  "INVALID_SOCKET_VAL = -1"

text \<open>The POSIX branch of \<open>init\<close> makes a write to a closed connection fail instead of ending the process.\<close>

definition platform_init :: bool where
  "platform_init = True"

definition is_valid :: "socket_t \<Rightarrow> bool" where
  "is_valid sock \<longleftrightarrow> sock \<ge> 0"

section \<open>Addresses\<close>

text \<open>
  \<open>struct sockaddr_in\<close> with its port in network byte order. \<open>htons\<close> and \<open>ntohs\<close> swap the bytes of a port, as
  they do on little-endian machines; \<open>inet_pton\<close> and \<open>inet_ntop\<close> are parameters.
\<close>

unbundle bit_operations_syntax

record sockaddr_in =
  sin_port :: "16 word"
  sin_addr :: "32 word"

definition INADDR_ANY :: "32 word" where
  "INADDR_ANY = 0"

definition htons :: "16 word \<Rightarrow> 16 word" where
  "htons p = push_bit 8 p OR drop_bit 8 p"

abbreviation ntohs :: "16 word \<Rightarrow> 16 word" where
  "ntohs \<equiv> htons"

lemma ntohs_htons [simp]: "ntohs (htons p) = p"
  by (rule bit_word_eqI) (auto simp: htons_def bit_simps)

section \<open>Transfer\<close>

text \<open>
  \<open>socket_write sock data\<close> returns how many bytes it took, or a number that is not positive.
  \<open>socket_read sock n\<close> returns the bytes it read (at most \<open>n\<close>); none stands for end of stream or
  an error.
\<close>

type_synonym 'w socket_write = "socket_t \<Rightarrow> string \<Rightarrow> 'w \<Rightarrow> int \<times> 'w"
type_synonym 'w socket_read = "socket_t \<Rightarrow> nat \<Rightarrow> 'w \<Rightarrow> string \<times> 'w"

text \<open>The loop \<open>while (total < n)\<close> around a partial write, on the bytes still to be written.\<close>

function write_loop :: "'w socket_write \<Rightarrow> socket_t \<Rightarrow> string \<Rightarrow> 'w \<Rightarrow> bool \<times> 'w" where
  "write_loop sw sock data w =
     (if data = [] then (True, w)
      else let (bytes, w') = sw sock data w
           in if bytes \<le> 0 then (False, w') else write_loop sw sock (drop (nat bytes) data) w')"
  by pat_completeness auto
termination
  by (relation "measure (\<lambda>(sw, sock, data, w). length data)") auto

declare write_loop.simps [simp del]

text \<open>The loop around a partial read: the bytes read so far are put in front of the rest.\<close>

function read_loop :: "'w socket_read \<Rightarrow> socket_t \<Rightarrow> nat \<Rightarrow> 'w \<Rightarrow> string option \<times> 'w" where
  "read_loop sr sock n w =
     (if n = 0 then (Some [], w)
      else let (bytes, w') = sr sock n w
           in if bytes = [] then (None, w')
              else case read_loop sr sock (n - length bytes) w' of
                (None, w'') \<Rightarrow> (None, w'')
              | (Some later, w'') \<Rightarrow> (Some (bytes @ later), w''))"
  by pat_completeness auto
termination
  by (relation "measure (\<lambda>(sr, sock, n, w). n)") auto

declare read_loop.simps [simp del]

text \<open>
  \<open>write(2)\<close>: a positive result \<open>n\<close> means that the first \<open>n\<close> bytes were taken, at most all of
  them; otherwise nothing was sent. \<open>sent w sock\<close> is what has been sent on a socket.
\<close>

definition lawful_write :: "'w socket_write \<Rightarrow> ('w \<Rightarrow> socket_t \<Rightarrow> string) \<Rightarrow> bool" where
  "lawful_write sw sent \<longleftrightarrow>
     (\<forall>sock data w. fst (sw sock data w) \<le> int (length data) \<and>
        sent (snd (sw sock data w)) =
          (sent w)(sock := sent w sock @ take (nat (fst (sw sock data w))) data))"

text \<open>
  \<open>read(2)\<close>: the bytes returned are taken off the front of what is still to be received, at most
  as many as asked for; nothing is returned only when nothing is left.
\<close>

definition lawful_read :: "'w socket_read \<Rightarrow> ('w \<Rightarrow> socket_t \<Rightarrow> string) \<Rightarrow> bool" where
  "lawful_read sr pending \<longleftrightarrow>
     (\<forall>sock n w. 0 < n \<longrightarrow>
        length (fst (sr sock n w)) \<le> n \<and>
        pending w sock = fst (sr sock n w) @ pending (snd (sr sock n w)) sock \<and>
        (pending w sock \<noteq> [] \<longrightarrow> fst (sr sock n w) \<noteq> []))"

lemma lawful_writeD:
  assumes "lawful_write sw sent" and "sw sock data w = (n, w')"
  shows "n \<le> int (length data)"
    and "sent w' = (sent w)(sock := sent w sock @ take (nat n) data)"
  using assms unfolding lawful_write_def by (metis fst_conv, metis fst_conv snd_conv)

lemma lawful_readD:
  assumes "lawful_read sr pending" and "sr sock n w = (bytes, w')" and "0 < n"
  shows "length bytes \<le> n" and "pending w sock = bytes @ pending w' sock"
    and "pending w sock \<noteq> [] \<Longrightarrow> bytes \<noteq> []"
  using assms unfolding lawful_read_def by (metis fst_conv, metis fst_conv snd_conv, metis fst_conv)

lemma write_loop_sends:
  assumes law: "lawful_write sw sent" and run: "write_loop sw sock data w = (ok, w')"
  shows "\<exists>k. sent w' = (sent w)(sock := sent w sock @ take k data) \<and> (ok \<longleftrightarrow> length data \<le> k)"
  using run
proof (induction "length data" arbitrary: data w rule: less_induct)
  case less
  obtain n w1 where sw: "sw sock data w = (n, w1)" by force
  note lw = lawful_writeD [OF law sw]
  show ?case
  proof (cases "data = [] \<or> n \<le> 0")
    case True
    then have "sent w' = (sent w)(sock := sent w sock @ take 0 data) \<and> (ok \<longleftrightarrow> length data \<le> 0)"
      using less.prems sw lw by (auto simp: write_loop.simps [of sw sock data w] fun_eq_iff split: if_splits)
    then show ?thesis by blast
  next
    case False
    then have "write_loop sw sock (drop (nat n) data) w1 = (ok, w')"
      using less.prems sw by (simp add: write_loop.simps [of sw sock data w])
    with False obtain k where k: "sent w' = (sent w1)(sock := sent w1 sock @ take k (drop (nat n) data))"
      "ok \<longleftrightarrow> length (drop (nat n) data) \<le> k"
      using less.hyps [of "drop (nat n) data" w1] by auto
    have "take (nat n) data @ take k (drop (nat n) data) = take (nat n + k) data"
      by (simp add: take_add)
    then have "sent w' = (sent w)(sock := sent w sock @ take (nat n + k) data)"
      using k lw by simp
    moreover have "ok \<longleftrightarrow> length data \<le> nat n + k"
      using k(2) by auto
    ultimately show ?thesis by blast
  qed
qed

lemma read_loop_receives:
  assumes law: "lawful_read sr pending" and len: "n \<le> length (pending w sock)"
  shows "\<exists>w'. read_loop sr sock n w = (Some (take n (pending w sock)), w') \<and>
    pending w' sock = drop n (pending w sock)"
  using len
proof (induction n arbitrary: w rule: less_induct)
  case (less n)
  show ?case
  proof (cases "n = 0")
    case True
    then show ?thesis by (simp add: read_loop.simps [of sr sock 0 w])
  next
    case False
    obtain bytes w1 where sr: "sr sock n w = (bytes, w1)" by force
    have n: "0 < n" using False by simp
    have nonempty: "pending w sock \<noteq> []" using False less.prems by auto
    note bytes = lawful_readD(1,2) [OF law sr n] lawful_readD(3) [OF law sr n nonempty]
    then have "n - length bytes < n" "n - length bytes \<le> length (pending w1 sock)"
      using False less.prems by auto
    then obtain w' where
      "read_loop sr sock (n - length bytes) w1 = (Some (take (n - length bytes) (pending w1 sock)), w')"
      "pending w' sock = drop (n - length bytes) (pending w1 sock)"
      using less.IH by blast
    then show ?thesis
      using False sr bytes by (simp add: read_loop.simps [of sr sock n w])
  qed
qed

lemma read_loop_length:
  assumes law: "lawful_read sr pending" and "read_loop sr sock n w = (Some data, w')"
  shows "length data = n \<and> pending w sock = data @ pending w' sock"
  using assms(2)
proof (induction n arbitrary: w data rule: less_induct)
  case (less n)
  show ?case
  proof (cases "n = 0")
    case True
    then show ?thesis using less.prems by (simp add: read_loop.simps [of sr sock 0 w])
  next
    case False
    obtain bytes w1 where sr: "sr sock n w = (bytes, w1)" by force
    then have "bytes \<noteq> []"
      using less.prems False by (auto simp: read_loop.simps [of sr sock n w] split: if_splits)
    moreover from this obtain later where
      later: "read_loop sr sock (n - length bytes) w1 = (Some later, w')" "data = bytes @ later"
      using less.prems False sr
      by (auto simp: read_loop.simps [of sr sock n w] split: option.splits prod.splits)
    ultimately have "length later = n - length bytes \<and> pending w1 sock = later @ pending w' sock"
      using less.IH [of "n - length bytes" w1 later] False by (cases bytes) auto
    moreover have "length bytes \<le> n" "pending w sock = bytes @ pending w1 sock"
      using lawful_readD(1,2) [OF law sr] False by simp_all
    ultimately show ?thesis
      using later(2) by simp
  qed
qed

text \<open>A socket that takes whatever is written: the world is the log of what was sent.\<close>

definition log_write :: "(socket_t \<Rightarrow> string) socket_write" where
  "log_write sock data w = (int (length data), w(sock := w sock @ data))"

lemma lawful_log_write: "lawful_write log_write (\<lambda>w. w)"
  by (simp add: lawful_write_def log_write_def)

lemma write_loop_log: "write_loop log_write sock data w = (True, w(sock := w sock @ data))"
  by (subst write_loop.simps, simp add: log_write_def) (subst write_loop.simps, simp)

text \<open>A socket that delivers what is pending, at most as much as asked for.\<close>

definition feed_read :: "string socket_read" where
  "feed_read sock n w = (take n w, drop n w)"

lemma lawful_feed_read: "lawful_read feed_read (\<lambda>w _. w)"
  by (simp add: lawful_read_def feed_read_def)

end
