(* ===== verification/Resp.thy ===== *)
theory Resp
  imports Parser Platform
begin

text \<open>
  The RESP2 protocol of \<open>include/resp/resp.h\<close> and \<open>src/resp/resp.cpp\<close>: the command parser that the
  server runs on a client's read buffer (RESP arrays and inline commands), the serializers, and the
  serializer that guesses the RESP type of a textual reply.
\<close>

section \<open>Parsing\<close>

record RespParseResult =
  rp_ok :: bool
  rp_need_more :: bool
  rp_protocol_error :: bool
  rp_command :: Command
  rp_consumed :: nat

definition rp_result :: "bool \<Rightarrow> bool \<Rightarrow> bool \<Rightarrow> Command \<Rightarrow> nat \<Rightarrow> RespParseResult" where
  "rp_result ok need err cmd n =
     \<lparr>rp_ok = ok, rp_need_more = need, rp_protocol_error = err, rp_command = cmd, rp_consumed = n\<rparr>"

lemma rp_result_simps [simp]:
  "rp_ok (rp_result ok need err cmd n) = ok"
  "rp_need_more (rp_result ok need err cmd n) = need"
  "rp_protocol_error (rp_result ok need err cmd n) = err"
  "rp_command (rp_result ok need err cmd n) = cmd"
  "rp_consumed (rp_result ok need err cmd n) = n"
  by (simp_all add: rp_result_def)

abbreviation need_more :: RespParseResult where
  "need_more \<equiv> rp_result False True False empty_command 0"

abbreviation protocol_error :: RespParseResult where
  "protocol_error \<equiv> rp_result False False True empty_command 0"

definition find_crlf :: "string \<Rightarrow> nat \<Rightarrow> nat option" where
  "find_crlf buffer start = map_option (\<lambda>i. start + i) (find_pair CR LF (drop start buffer))"

text \<open>
  One round of the loop over the bulk strings of an array: the element at \<open>pos\<close> and the position
  after it, or one of the two ways the function returns early.
\<close>

datatype resp_fail = NeedMore | ProtocolError

definition read_bulk :: "string \<Rightarrow> nat \<Rightarrow> resp_fail + (string \<times> nat)" where
  "read_bulk buffer pos =
     (if pos \<ge> length buffer then Inl NeedMore
      else if buffer ! pos \<noteq> CHR ''$'' then Inl ProtocolError
      else case find_crlf buffer pos of
        None \<Rightarrow> Inl NeedMore
      | Some eol \<Rightarrow>
          (case stoi (substr buffer (pos + 1) (eol - pos - 1)) of
             None \<Rightarrow> Inl ProtocolError
           | Some len \<Rightarrow>
               (if len < 0 then Inr ([], eol + 2)
                else let data_start = eol + 2 in
                  if data_start + nat len + 2 > length buffer then Inl NeedMore
                  else if buffer ! (data_start + nat len) \<noteq> CR
                     \<or> buffer ! (data_start + nat len + 1) \<noteq> LF then Inl ProtocolError
                  else Inr (substr buffer data_start (nat len), data_start + nat len + 2))))"

text \<open>The loop \<open>for (int i = 0; i < count; ++i)\<close>: the parts and the final position.\<close>

fun read_bulks :: "string \<Rightarrow> nat \<Rightarrow> nat \<Rightarrow> resp_fail + (string list \<times> nat)" where
  "read_bulks buffer 0 pos = Inr ([], pos)"
| "read_bulks buffer (Suc n) pos =
     (case read_bulk buffer pos of
        Inl fail \<Rightarrow> Inl fail
      | Inr (part, pos') \<Rightarrow> map_sum id (map_prod (Cons part) id) (read_bulks buffer n pos'))"

text \<open>The command built from the parts; an array has at least one.\<close>

definition make_command :: "string list \<Rightarrow> Command" where
  "make_command parts = \<lparr>cmd_name = upper (hd parts), cmd_args = tl parts\<rparr>"

definition parse_resp_array :: "string \<Rightarrow> RespParseResult" where
  "parse_resp_array buffer =
     (case find_crlf buffer 0 of
        None \<Rightarrow> need_more
      | Some eol \<Rightarrow>
          (case stoi (substr buffer 1 (eol - 1)) of
             None \<Rightarrow> protocol_error
           | Some count \<Rightarrow>
               (if count < 0 then protocol_error
                else if count = 0 then protocol_error
                else case read_bulks buffer (nat count) (eol + 2) of
                  Inl NeedMore \<Rightarrow> need_more
                | Inl ProtocolError \<Rightarrow> protocol_error
                | Inr (parts, pos) \<Rightarrow> rp_result True False False (make_command parts) pos)))"

definition max_inline :: nat where
  "max_inline = 64 * 1024"

definition is_blank :: "char \<Rightarrow> bool" where
  "is_blank c \<longleftrightarrow> c \<in> set [CHR '' '', TAB, CR]"

text \<open>The rest of \<open>parse_inline\<close> once the end of the line and the bytes to consume are known.\<close>

definition parse_line :: "string \<Rightarrow> nat \<Rightarrow> RespParseResult" where
  "parse_line line0 consume =
     (let line = dropWhile is_blank line0
      in if line = [] then rp_result False True False empty_command consume
         else let result = parse line
              in if \<not> pr_ok result then rp_result False False True empty_command consume
                 else rp_result True False False (pr_command result) consume)"

definition parse_inline :: "string \<Rightarrow> RespParseResult" where
  "parse_inline buffer =
     (case find_crlf buffer 0 of
        Some eol \<Rightarrow> parse_line (substr buffer 0 eol) (eol + 2)
      | None \<Rightarrow>
          (case find_char LF buffer of
             Some newline \<Rightarrow> parse_line (substr buffer 0 newline) (newline + 1)
           | None \<Rightarrow> if length buffer > max_inline then protocol_error else need_more))"

definition parse_command :: "string \<Rightarrow> RespParseResult" where
  "parse_command buffer =
     (if buffer = [] then need_more
      else if buffer ! 0 = CHR ''*'' then parse_resp_array buffer
      else parse_inline buffer)"

section \<open>Serialization\<close>

definition simple_string :: "string \<Rightarrow> string" where
  "simple_string str = ''+'' @ str @ crlf"

definition resp_error :: "string \<Rightarrow> string" where
  "resp_error msg = ''-'' @ msg @ crlf"

definition resp_integer :: "int \<Rightarrow> string" where
  "resp_integer val = '':'' @ show_int val @ crlf"

definition bulk_string :: "string \<Rightarrow> string" where
  "bulk_string str = ''$'' @ show_nat (length str) @ crlf @ str @ crlf"

definition null_bulk_string :: string where
  "null_bulk_string = ''$-1'' @ crlf"

definition null_array :: string where
  "null_array = ''*-1'' @ crlf"

definition empty_array :: string where
  "empty_array = ''*0'' @ crlf"

definition resp_array :: "string list \<Rightarrow> string" where
  "resp_array elements = ''*'' @ show_nat (length elements) @ crlf @ concat elements"

definition is_quoted :: "string \<Rightarrow> bool" where
  "is_quoted s \<longleftrightarrow> length s \<ge> 2 \<and> hd s = DQ \<and> last s = DQ"

definition unquote :: "string \<Rightarrow> string" where
  "unquote s = substr s 1 (length s - 2)"

text \<open>One line of a subscription reply or message as a RESP array of three elements.\<close>

definition push_line :: "string \<Rightarrow> string" where
  "push_line l =
     (let (type, r1) = extract_word l;
          (channel, r2) = extract_word r1;
          third = dropWhile is_space r2
      in resp_array
           [bulk_string type, bulk_string channel,
            if type = ''message'' then bulk_string third
            else (case stoll third of
                    Some count \<Rightarrow> resp_integer count
                  | None \<Rightarrow> bulk_string third)])"

definition is_array_reply :: "string \<Rightarrow> bool" where
  "is_array_reply s \<longleftrightarrow> length s \<ge> 3 \<and> s ! 0 \<in> set ''123456789'' \<and> s ! 1 = CHR '')''"

definition integer_reply :: "string \<Rightarrow> int option" where
  "integer_reply s =
     (if length s > 10 \<and> starts_with ''(integer) '' s then stoll (drop 10 s) else None)"

function serialize_response :: "string \<Rightarrow> string" where
  "serialize_response response =
     (if response = [] then null_bulk_string
      else if response = ''OK'' then simple_string ''OK''
      else if response = ''PONG'' then simple_string ''PONG''
      else if response = ''QUEUED'' then simple_string ''QUEUED''
      else if response = ''(nil)'' then null_bulk_string
      else if response = ''(empty list)'' then empty_array
      else if starts_with ''ERR '' response \<or> starts_with ''ERR'' response then resp_error response
      else if starts_with ''WRONGTYPE '' response then resp_error response
      else if starts_with ''NOAUTH '' response then resp_error response
      else case integer_reply response of
        Some val \<Rightarrow> resp_integer val
      | None \<Rightarrow>
         (if is_quoted response then bulk_string (unquote response)
          else if is_array_reply response then
            resp_array (map (\<lambda>line.
                case find_pair CHR '')'' CHR '' '' line of
                  Some paren \<Rightarrow>
                    (let content = drop (paren + 2) line
                     in if is_quoted content then bulk_string (unquote content)
                        else serialize_response content)
                | None \<Rightarrow> bulk_string line) (getlines response))
          else if starts_with ''subscribe '' response \<or> starts_with ''unsubscribe '' response
             \<or> starts_with ''message '' response then concat (map push_line (getlines response))
          else bulk_string response))"
  by pat_completeness auto
termination
proof (relation "measure length")
  fix response line paren content
  assume line: "line \<in> set (getlines response)"
    and paren: "find_pair CHR '')'' CHR '' '' line = Some paren"
    and content: "content = drop (paren + 2) line"
  from line have "length line \<le> length response" by (rule getlines_length)
  moreover from find_pair_Some [OF paren] have "Suc paren < length line" by blast
  ultimately show "(content, response) \<in> measure length" using content by (simp; linarith)
qed simp

declare serialize_response.simps [simp del]

section \<open>Sending\<close>

definition resp_write_exact :: "'w socket_write \<Rightarrow> socket_t \<Rightarrow> string \<Rightarrow> 'w \<Rightarrow> bool \<times> 'w" where
  "resp_write_exact sw sock data w = write_loop sw sock data w"

definition send_response :: "'w socket_write \<Rightarrow> socket_t \<Rightarrow> string \<Rightarrow> 'w \<Rightarrow> bool \<times> 'w" where
  "send_response sw sock resp_data w = resp_write_exact sw sock resp_data w"


section \<open>Finding line ends\<close>

lemma find_crlf_Some:
  assumes "find_crlf buffer start = Some i"
  shows "start \<le> i" and "Suc i < length buffer" and "buffer ! i = CR" and "buffer ! Suc i = LF"
proof -
  from assms obtain j where j: "find_pair CR LF (drop start buffer) = Some j" "i = start + j"
    by (auto simp: find_crlf_def)
  then show "start \<le> i" and "Suc i < length buffer" and "buffer ! i = CR" and "buffer ! Suc i = LF"
    using find_pair_Some [OF j(1)] by auto
qed

lemma find_crlf_append: "find_crlf b start = Some i \<Longrightarrow> find_crlf (b @ t) start = Some i"
proof -
  assume i: "find_crlf b start = Some i"
  then have "start \<le> length b" using find_crlf_Some(1,2) [OF i] by simp
  with i show ?thesis by (auto simp: find_crlf_def find_pair_append)
qed

lemma find_crlf_least:
  assumes "find_crlf buffer start = Some i" and "start \<le> j" and "j < i"
  shows "\<not> (buffer ! j = CR \<and> buffer ! Suc j = LF)"
proof -
  from assms(1) obtain k where k: "find_pair CR LF (drop start buffer) = Some k" "i = start + k"
    by (auto simp: find_crlf_def)
  have "j - start < k" using assms(2,3) k(2) by simp
  from find_pair_least [OF k(1) this] find_crlf_Some(2) [OF assms(1)] assms(2,3)
  show ?thesis by (simp add: Suc_diff_le)
qed

lemma find_crlf_at:
  "CR \<notin> set s \<Longrightarrow> find_crlf (pre @ s @ CR # LF # t) (length pre) = Some (length pre + length s)"
  by (simp add: find_crlf_def find_pair_at)

lemma substr_append: "pos + n \<le> length b \<Longrightarrow> substr (b @ t) pos n = substr b pos n"
  by (simp add: substr_def)

lemma substr_mid: "substr (pre @ s @ t) (length pre) (length s) = s"
  by (simp add: substr_def)

section \<open>The array parser\<close>

lemma read_bulk_Inr:
  assumes "read_bulk buffer pos = Inr (part, pos')"
  shows "pos + 2 < pos'" and "pos' \<le> length buffer"
proof -
  from assms obtain eol where eol: "find_crlf buffer pos = Some eol" "buffer ! pos = CHR ''$''"
    "eol + 2 \<le> pos'" "pos' \<le> length buffer"
    using find_crlf_Some(2) [of buffer pos]
    by (fastforce simp: read_bulk_def Let_def split: if_splits option.splits)
  moreover have "pos \<noteq> eol" using find_crlf_Some(3) [OF eol(1)] eol(2) by auto
  ultimately show "pos + 2 < pos'" and "pos' \<le> length buffer"
    using find_crlf_Some(1) [OF eol(1)] by linarith+
qed

lemma read_bulks_bounds:
  "read_bulks buffer n pos = Inr (parts, pos') \<Longrightarrow> pos \<le> length buffer \<Longrightarrow>
   length parts = n \<and> pos \<le> pos' \<and> pos' \<le> length buffer"
proof (induction n arbitrary: pos parts)
  case (Suc n)
  then obtain part p ps where "read_bulk buffer pos = Inr (part, p)"
    "read_bulks buffer n p = Inr (ps, pos')" "parts = part # ps"
    by (auto split: sum.splits simp: map_sum_def)
  then show ?case using read_bulk_Inr Suc.IH by fastforce
qed auto

text \<open>
  Whatever a complete answer rests on is already in the buffer: more bytes do not change it.
\<close>

lemma read_bulk_append:
  assumes "read_bulk b pos \<noteq> Inl NeedMore"
  shows "read_bulk (b @ t) pos = read_bulk b pos"
proof -
  have pos: "pos < length b" using assms by (auto simp: read_bulk_def split: if_splits)
  show ?thesis
  proof (cases "b ! pos = CHR ''$''")
    case True
    then obtain eol where eol: "find_crlf b pos = Some eol"
      using assms pos by (auto simp: read_bulk_def split: option.splits)
    have "pos + 1 + (eol - pos - 1) \<le> length b"
      using find_crlf_Some(1,2) [OF eol] by simp
    then have num: "substr (b @ t) (pos + 1) (eol - pos - 1) = substr b (pos + 1) (eol - pos - 1)"
      by (rule substr_append)
    have "eol + 2 \<le> length b" using find_crlf_Some(2) [OF eol] by simp
    then show ?thesis
      using assms True pos eol find_crlf_append [OF eol, of t] num
      by (auto simp: read_bulk_def Let_def nth_append substr_append split: option.splits if_splits)
  next
    case False
    then show ?thesis using pos by (simp add: read_bulk_def nth_append)
  qed
qed

lemma read_bulks_append:
  "read_bulks b n pos \<noteq> Inl NeedMore \<Longrightarrow> read_bulks (b @ t) n pos = read_bulks b n pos"
proof (induction n arbitrary: pos)
  case (Suc n)
  then have "read_bulk b pos \<noteq> Inl NeedMore" by auto
  then show ?case
    using Suc read_bulk_append [of b pos t]
    by (cases "read_bulk b pos") (auto simp: map_sum_def split: sum.splits)
qed simp

lemma parse_resp_array_append:
  assumes "\<not> rp_need_more (parse_resp_array b)"
  shows "parse_resp_array (b @ t) = parse_resp_array b"
proof -
  from assms obtain eol where eol: "find_crlf b 0 = Some eol"
    by (auto simp: parse_resp_array_def split: option.splits)
  have "1 + (eol - 1) \<le> length b" using find_crlf_Some(2) [OF eol] by linarith
  then have num: "substr (b @ t) 1 (eol - 1) = substr b 1 (eol - 1)" by (rule substr_append)
  show ?thesis
  proof (cases "stoi (substr b 1 (eol - 1))")
    case None
    then show ?thesis using eol find_crlf_append [OF eol] num by (simp add: parse_resp_array_def)
  next
    case (Some count)
    then have "0 < count \<Longrightarrow> read_bulks b (nat count) (eol + 2) \<noteq> Inl NeedMore"
      using assms eol by (auto simp: parse_resp_array_def)
    then show ?thesis
      using Some eol find_crlf_append [OF eol, of t] num
      by (auto simp: parse_resp_array_def read_bulks_append)
  qed
qed

text \<open>The parser undoes the serializer.\<close>

lemma read_bulk_enc:
  assumes "int (length part) \<le> int_max"
  shows "read_bulk (pre @ bulk_string part @ rest) (length pre) =
    Inr (part, length pre + length (bulk_string part))"
proof -
  let ?num = "show_nat (length part)"
  let ?b = "pre @ bulk_string part @ rest"
  have b: "?b = (pre @ [CHR ''$'']) @ ?num @ CR # LF # part @ crlf @ rest"
    by (simp add: bulk_string_def)
  have "find_crlf ?b (length pre) = Some (length pre + Suc (length ?num))"
    using find_crlf_at [of "CHR ''$'' # ?num" pre "part @ crlf @ rest"]
    by (simp add: bulk_string_def)
  moreover have "substr ?b (length pre + 1) (length ?num) = ?num"
    using substr_mid [of "pre @ [CHR ''$'']" ?num "CR # LF # part @ crlf @ rest"] b by simp
  moreover have "substr ?b (Suc (Suc (Suc (length pre + length ?num)))) (length part) = part"
    using substr_mid [of "pre @ [CHR ''$''] @ ?num @ crlf" part "crlf @ rest"] b by simp
  ultimately show ?thesis
    using assms
    by (simp add: read_bulk_def) (simp add: bulk_string_def nth_append)
qed


lemma read_bulks_enc:
  assumes "\<forall>part \<in> set parts. int (length part) \<le> int_max"
  shows "read_bulks (pre @ concat (map bulk_string parts) @ rest) (length parts) (length pre) =
    Inr (parts, length pre + length (concat (map bulk_string parts)))"
  using assms
proof (induction parts arbitrary: pre)
  case (Cons part parts)
  have "read_bulks ((pre @ bulk_string part) @ concat (map bulk_string parts) @ rest) (length parts)
      (length (pre @ bulk_string part)) =
    Inr (parts, length (pre @ bulk_string part) + length (concat (map bulk_string parts)))"
    using Cons.prems by (intro Cons.IH) auto
  then show ?case
    using read_bulk_enc [of part pre "concat (map bulk_string parts) @ rest"] Cons.prems by simp
qed simp

lemma parse_resp_array_enc:
  assumes "parts \<noteq> []" and "int (length parts) \<le> int_max"
    and "\<forall>part \<in> set parts. int (length part) \<le> int_max"
  shows "parse_resp_array (resp_array (map bulk_string parts) @ rest) =
    rp_result True False False (make_command parts) (length (resp_array (map bulk_string parts)))"
proof -
  let ?num = "show_nat (length parts)"
  let ?pre = "CHR ''*'' # ?num @ crlf"
  let ?b = "?pre @ concat (map bulk_string parts) @ rest"
  have b: "resp_array (map bulk_string parts) @ rest = ?b"
    by (simp add: resp_array_def)
  have eol: "find_crlf ?b 0 = Some (Suc (length ?num))"
    using find_crlf_at [of "CHR ''*'' # ?num" "[]" "concat (map bulk_string parts) @ rest"] by simp
  have num: "substr ?b 1 (length ?num) = ?num"
    using substr_mid [of "[CHR ''*'']" ?num "crlf @ concat (map bulk_string parts) @ rest"] by simp
  have bulks: "read_bulks ?b (length parts) (Suc (length ?num) + 2) =
      Inr (parts, length ?pre + length (concat (map bulk_string parts)))"
    using read_bulks_enc [OF assms(3), of ?pre rest] by simp
  show ?thesis
    unfolding b parse_resp_array_def using eol num bulks assms(1,2)
    by (simp add: resp_array_def)
qed

section \<open>Progress\<close>

lemma parse_resp_array_consumed:
  assumes "rp_ok (parse_resp_array b)"
  shows "0 < rp_consumed (parse_resp_array b) \<and> rp_consumed (parse_resp_array b) \<le> length b"
proof -
  from assms obtain eol count parts pos where eol: "find_crlf b 0 = Some eol"
    and bulks: "read_bulks b (nat count) (eol + 2) = Inr (parts, pos)"
    and res: "rp_consumed (parse_resp_array b) = pos"
    by (auto simp: parse_resp_array_def split: option.splits if_splits sum.splits resp_fail.splits)
  have "eol + 2 \<le> length b" using find_crlf_Some(2) [OF eol] by simp
  then show ?thesis using read_bulks_bounds [OF bulks] res by auto
qed

lemma parse_line_consumed: "rp_consumed (parse_line l n) = n"
  by (simp add: parse_line_def Let_def)

lemma parse_inline_consumed: "rp_consumed (parse_inline b) \<le> length b"
proof (cases "find_crlf b 0")
  case None
  then show ?thesis
    using find_char_Some [of LF b]
    by (auto simp: parse_inline_def parse_line_consumed Suc_le_eq split: option.splits)
next
  case (Some eol)
  then show ?thesis
    using find_crlf_Some(2) [OF Some] by (simp add: parse_inline_def parse_line_consumed)
qed

lemma parse_inline_progress:
  "rp_ok (parse_inline b) \<Longrightarrow> 0 < rp_consumed (parse_inline b)"
  by (auto simp: parse_inline_def parse_line_consumed split: option.splits if_splits)

lemma parse_command_consumed:
  "rp_consumed (parse_command b) \<le> length b"
proof (cases "b \<noteq> [] \<and> b ! 0 = CHR ''*''")
  case True
  then have "parse_command b = parse_resp_array b" by (simp add: parse_command_def)
  moreover have "\<not> rp_ok (parse_resp_array b) \<Longrightarrow> rp_consumed (parse_resp_array b) = 0"
    by (auto simp: parse_resp_array_def split: option.splits if_splits sum.splits resp_fail.splits)
  ultimately show ?thesis using parse_resp_array_consumed [of b] by fastforce
next
  case False
  then show ?thesis using parse_inline_consumed [of b] by (auto simp: parse_command_def)
qed

lemma parse_command_progress:
  "rp_ok (parse_command b) \<Longrightarrow> 0 < rp_consumed (parse_command b)"
  using parse_resp_array_consumed [of b] parse_inline_progress [of b]
  by (auto simp: parse_command_def split: if_splits)

text \<open>Exactly one of the three flags of a parse result is set.\<close>

definition one_flag :: "RespParseResult \<Rightarrow> bool" where
  "one_flag r \<longleftrightarrow>
     (rp_ok r \<and> \<not> rp_need_more r \<and> \<not> rp_protocol_error r) \<or>
     (\<not> rp_ok r \<and> rp_need_more r \<and> \<not> rp_protocol_error r) \<or>
     (\<not> rp_ok r \<and> \<not> rp_need_more r \<and> rp_protocol_error r)"

lemma parse_command_one_flag: "one_flag (parse_command b)"
  by (auto simp: one_flag_def parse_command_def parse_resp_array_def parse_inline_def
      parse_line_def Let_def split: option.splits sum.splits resp_fail.splits)

text \<open>The array parser as a parser on a growing buffer: its verdict, once there is one.\<close>

definition array_verdict :: "string \<Rightarrow> (RespParseResult \<times> nat) option" where
  "array_verdict b = (let p = parse_resp_array b in if rp_need_more p then None else Some (p, rp_consumed p))"

lemma parse_resp_array_rejects: "\<not> rp_ok (parse_resp_array b) \<Longrightarrow> rp_consumed (parse_resp_array b) = 0"
  by (auto simp: parse_resp_array_def split: option.splits if_splits sum.splits resp_fail.splits)

interpretation ap: stream_parser array_verdict
proof
  show "array_verdict b = Some (r, k) \<Longrightarrow> k \<le> length b" for b r k
    using parse_resp_array_consumed [of b] parse_resp_array_rejects [of b]
    by (cases "rp_ok (parse_resp_array b)") (auto simp: array_verdict_def Let_def split: if_splits)
  show "array_verdict b = Some x \<Longrightarrow> array_verdict (b @ t) = Some x" for b x t
    by (auto simp: array_verdict_def Let_def parse_resp_array_append split: if_splits)
qed

section \<open>Properties\<close>

text \<open>
  C24. Every command sent as a RESP array of bulk strings is parsed back to its words, with the name in
  upper case, whatever bytes the words hold and whatever follows; exactly the bytes of the array are
  consumed.
\<close>

theorem parse_command_roundtrip:
  assumes "parts \<noteq> []" and "int (length parts) \<le> int_max"
    and "\<forall>part \<in> set parts. int (length part) \<le> int_max"
  shows "parse_command (resp_array (map bulk_string parts) @ rest) =
    rp_result True False False \<lparr>cmd_name = upper (hd parts), cmd_args = tl parts\<rparr>
      (length (resp_array (map bulk_string parts)))"
  using parse_resp_array_enc [OF assms, of rest]
  by (simp add: parse_command_def make_command_def resp_array_def)

theorem parse_command_roundtrip_witness:
  "parse_command (resp_array (map bulk_string [''set'', [CR, LF], []]) @ ''*1'') =
    rp_result True False False \<lparr>cmd_name = upper ''set'', cmd_args = [[CR, LF], []]\<rparr>
      (length (resp_array (map bulk_string [''set'', [CR, LF], []])))"
  using parse_command_roundtrip [of "[''set'', [CR, LF], []]" "''*1''"]
  by (simp add: int_max_def)

text \<open>
  The verdict on a RESP array does not depend on how the bytes arrive: once the parser has given
  a command or a protocol error, more bytes do not change it.
\<close>

lemma array_parse_stable:
  assumes "b \<noteq> []" and "b ! 0 = CHR ''*''" and "\<not> rp_need_more (parse_command b)"
  shows "parse_command (b @ t) = parse_command b"
  using assms parse_resp_array_append [of b t] by (simp add: parse_command_def nth_append)

lemma array_parse_stable_witness:
  "parse_command ((''*0'' @ crlf) @ ''more'') = parse_command (''*0'' @ crlf)"
proof (rule array_parse_stable)
  show "\<not> rp_need_more (parse_command (''*0'' @ crlf))" by code_simp
qed simp_all

text \<open>
  Inline commands lack that stability: a command that ends in a bare line feed is parsed alone
  when it arrives alone, and swallows the next command when that one is already in the buffer and
  ends in \<open>CRLF\<close>.
\<close>

lemma inline_parse_unstable:
  "parse_command (''GET a'' @ [LF]) = rp_result True False False \<lparr>cmd_name = ''GET'', cmd_args = [''a'']\<rparr> 6 \<and>
   parse_command (''GET a'' @ [LF] @ ''PING'' @ crlf) =
     rp_result True False False \<lparr>cmd_name = ''GET'', cmd_args = [''a'', ''PING'']\<rparr> 12"
  by code_simp

text \<open>
  C33. Every call of the command parser sets exactly one of the flags ok, need-more and protocol-error,
  consumes at most the buffer, and consumes at least one byte when it reports a command, so that the
  loop over a buffer makes progress.
\<close>

theorem parse_command_progresses:
  "one_flag (parse_command b) \<and> rp_consumed (parse_command b) \<le> length b \<and>
   (if rp_ok (parse_command b) then 0 < rp_consumed (parse_command b) else True)"
  using parse_command_one_flag [of b] parse_command_consumed [of b] parse_command_progress [of b] by simp

end
