(* ===== verification/PubSub.thy ===== *)
theory PubSub
  imports Resp
begin

text \<open>
  The publish/subscribe manager of \<open>include/pubsub/pubsub.h\<close> and \<open>src/pubsub/pubsub.cpp\<close>: the two
  indices, channel to subscribers and client to channels, their consistency as the invariant of the
  class, and the subscription relation they both represent.
\<close>

section \<open>State\<close>

text \<open>
  \<open>std::set<socket_t>\<close> is a strictly ascending list (its iteration order), \<open>std::unordered_set\<close> a
  list without duplicates.
\<close>

record PubSubManager =
  channels :: "(string, socket_t list) umap"
  client_channels :: "(socket_t, string list) umap"

definition new_pubsub :: PubSubManager where
  "new_pubsub = \<lparr>channels = [], client_channels = []\<rparr>"

definition subscribers :: "PubSubManager \<Rightarrow> string \<Rightarrow> socket_t list" where
  "subscribers ps channel =
     (case um_find (channels ps) channel of None \<Rightarrow> [] | Some fds \<Rightarrow> fds)"

definition channels_of :: "PubSubManager \<Rightarrow> socket_t \<Rightarrow> string list" where
  "channels_of ps fd =
     (case um_find (client_channels ps) fd of None \<Rightarrow> [] | Some chs \<Rightarrow> chs)"

section \<open>Subscribing\<close>

definition subscribe_one :: "socket_t \<Rightarrow> string \<Rightarrow> PubSubManager \<Rightarrow> PubSubManager" where
  "subscribe_one fd channel ps =
     ps\<lparr>channels := um_put channel (insort_insert fd (subscribers ps channel)) (channels ps),
        client_channels := um_put fd (List.insert channel (channels_of ps fd)) (client_channels ps)\<rparr>"

fun subscribe :: "socket_t \<Rightarrow> string list \<Rightarrow> PubSubManager \<Rightarrow> (string \<times> int) list \<times> PubSubManager" where
  "subscribe fd [] ps = ([], ps)"
| "subscribe fd (channel # chs) ps =
     (let ps1 = subscribe_one fd channel ps;
          sub_count = to_int32 (length (channels_of ps1 fd));
          (results, ps2) = subscribe fd chs ps1
      in ((channel, sub_count) # results, ps2))"

section \<open>Unsubscribing\<close>

text \<open>Remove a client from a channel's set, and the channel when nobody is left.\<close>

definition leave_channel :: "socket_t \<Rightarrow> string \<Rightarrow> PubSubManager \<Rightarrow> PubSubManager" where
  "leave_channel fd channel ps =
     (case um_find (channels ps) channel of
        None \<Rightarrow> ps
      | Some fds \<Rightarrow>
          (let fds' = removeAll fd fds
           in if fds' = [] then ps\<lparr>channels := um_erase channel (channels ps)\<rparr>
              else ps\<lparr>channels := um_put channel fds' (channels ps)\<rparr>))"

definition drop_channel :: "socket_t \<Rightarrow> string \<Rightarrow> PubSubManager \<Rightarrow> PubSubManager" where
  "drop_channel fd channel ps =
     (case um_find (client_channels ps) fd of
        None \<Rightarrow> ps
      | Some chs \<Rightarrow>
          ps\<lparr>client_channels := um_put fd (removeAll channel chs) (client_channels ps)\<rparr>)"

fun unsubscribe_loop :: "socket_t \<Rightarrow> string list \<Rightarrow> PubSubManager
    \<Rightarrow> (string \<times> int) list \<times> PubSubManager" where
  "unsubscribe_loop fd [] ps = ([], ps)"
| "unsubscribe_loop fd (channel # chs) ps =
     (let ps1 = drop_channel fd channel (leave_channel fd channel ps);
          sub_count = to_int32 (length (channels_of ps1 fd));
          (results, ps2) = unsubscribe_loop fd chs ps1
      in ((channel, sub_count) # results, ps2))"

definition erase_if_empty :: "socket_t \<Rightarrow> PubSubManager \<Rightarrow> PubSubManager" where
  "erase_if_empty fd ps =
     (if um_find (client_channels ps) fd = Some []
      then ps\<lparr>client_channels := um_erase fd (client_channels ps)\<rparr> else ps)"

definition unsubscribe :: "socket_t \<Rightarrow> string list \<Rightarrow> PubSubManager
    \<Rightarrow> (string \<times> int) list \<times> PubSubManager" where
  "unsubscribe fd chs ps =
     (let to_unsub = (if chs = [] then channels_of ps fd else chs)
      in if to_unsub = [] then ([(''*'', 0)], ps)
         else let (results, ps1) = unsubscribe_loop fd to_unsub ps
              in (results, erase_if_empty fd ps1))"

section \<open>Publishing\<close>

definition push_message :: "string \<Rightarrow> string \<Rightarrow> string" where
  "push_message channel message =
     resp_array [bulk_string ''message'', bulk_string channel, bulk_string message]"

text \<open>Send to every subscriber in turn: the number delivered and the sockets that failed.\<close>

fun deliver :: "'w socket_write \<Rightarrow> string \<Rightarrow> socket_t list \<Rightarrow> 'w \<Rightarrow> int \<times> socket_t list \<times> 'w" where
  "deliver sw msg [] w = (0, [], w)"
| "deliver sw msg (fd # fds) w =
     (let (ok, w1) = send_response sw fd msg w;
          (delivered, dead, w2) = deliver sw msg fds w1
      in if ok then (delivered + 1, dead, w2) else (delivered, fd # dead, w2))"

text \<open>Clean up one dead socket: out of the channel's set and out of the reverse index.\<close>

definition bury :: "string \<Rightarrow> socket_t \<Rightarrow> PubSubManager \<Rightarrow> PubSubManager" where
  "bury channel fd ps =
     (let ps1 = ps\<lparr>channels := um_put channel (removeAll fd (subscribers ps channel)) (channels ps)\<rparr>
      in erase_if_empty fd (drop_channel fd channel ps1))"

definition publish :: "'w socket_write \<Rightarrow> string \<Rightarrow> string \<Rightarrow> PubSubManager \<Rightarrow> 'w
    \<Rightarrow> int \<times> PubSubManager \<times> 'w" where
  "publish sw channel message ps w =
     (case um_find (channels ps) channel of
        None \<Rightarrow> (0, ps, w)
      | Some fds \<Rightarrow>
          (let (delivered, dead, w1) = deliver sw (push_message channel message) fds w;
               ps1 = fold (bury channel) dead ps;
               ps2 = (if subscribers ps1 channel = []
                      then ps1\<lparr>channels := um_erase channel (channels ps1)\<rparr> else ps1)
           in (delivered, ps2, w1)))"

section \<open>Queries and disconnection\<close>

definition is_subscribed :: "socket_t \<Rightarrow> PubSubManager \<Rightarrow> bool" where
  "is_subscribed fd ps =
     (case um_find (client_channels ps) fd of None \<Rightarrow> False | Some chs \<Rightarrow> chs \<noteq> [])"

definition client_disconnected :: "socket_t \<Rightarrow> PubSubManager \<Rightarrow> PubSubManager" where
  "client_disconnected fd ps =
     (case um_find (client_channels ps) fd of
        None \<Rightarrow> ps
      | Some chs \<Rightarrow>
          (let ps1 = fold (leave_channel fd) chs ps
           in ps1\<lparr>client_channels := um_erase fd (client_channels ps1)\<rparr>))"

definition active_channel_count :: "PubSubManager \<Rightarrow> nat" where
  "active_channel_count ps = length (channels ps)"

definition total_subscription_count :: "PubSubManager \<Rightarrow> nat" where
  "total_subscription_count ps = foldl (\<lambda>total e. total + length (snd e)) 0 (client_channels ps)"

section \<open>Consistency of the two indices\<close>

text \<open>
  The forward index and the reverse index hold the same subscriptions, neither holds an empty set,
  and the sets have no duplicates.
\<close>

definition no_empty :: "('k, 'a list) umap \<Rightarrow> bool" where
  "no_empty m \<longleftrightarrow> (\<forall>k. um_find m k \<noteq> Some [])"

definition sets_ok :: "PubSubManager \<Rightarrow> bool" where
  "sets_ok ps \<longleftrightarrow> um_wf (channels ps) \<and> um_wf (client_channels ps) \<and>
     (\<forall>ch. sorted (subscribers ps ch) \<and> distinct (subscribers ps ch)) \<and>
     (\<forall>fd. distinct (channels_of ps fd))"

definition indices_agree :: "PubSubManager \<Rightarrow> bool" where
  "indices_agree ps \<longleftrightarrow>
     (\<forall>fd ch. fd \<in> set (subscribers ps ch) \<longleftrightarrow> ch \<in> set (channels_of ps fd))"

definition pubsub_wf :: "PubSubManager \<Rightarrow> bool" where
  "pubsub_wf ps \<longleftrightarrow> sets_ok ps \<and> indices_agree ps \<and>
     no_empty (channels ps) \<and> no_empty (client_channels ps)"

lemma new_pubsub_simps [simp]:
  "subscribers new_pubsub ch = []" "channels_of new_pubsub fd = []"
  by (simp_all add: new_pubsub_def subscribers_def channels_of_def)

lemma pubsub_wf_new: "pubsub_wf new_pubsub"
  by (simp add: pubsub_wf_def sets_ok_def indices_agree_def no_empty_def new_pubsub_def
      subscribers_def channels_of_def)

lemma is_subscribed_iff: "is_subscribed fd ps \<longleftrightarrow> channels_of ps fd \<noteq> []"
  by (simp add: is_subscribed_def channels_of_def split: option.split)

text \<open>What the building blocks do to the two indices, pointwise.\<close>

lemma subscribers_simps [simp]:
  "subscribers (subscribe_one fd ch ps) =
     (subscribers ps)(ch := insort_insert fd (subscribers ps ch))"
  "subscribers (leave_channel fd ch ps) =
     (subscribers ps)(ch := removeAll fd (subscribers ps ch))"
  "subscribers (drop_channel fd ch ps) = subscribers ps"
  "subscribers (erase_if_empty fd ps) = subscribers ps"
  "subscribers (bury ch fd ps) = (subscribers ps)(ch := removeAll fd (subscribers ps ch))"
  by (auto simp: subscribers_def subscribe_one_def leave_channel_def drop_channel_def
      erase_if_empty_def bury_def Let_def fun_eq_iff split: option.splits)

lemma channels_of_simps [simp]:
  "channels_of (subscribe_one fd ch ps) =
     (channels_of ps)(fd := List.insert ch (channels_of ps fd))"
  "channels_of (leave_channel fd ch ps) = channels_of ps"
  "channels_of (drop_channel fd ch ps) = (channels_of ps)(fd := removeAll ch (channels_of ps fd))"
  "channels_of (erase_if_empty fd ps) = channels_of ps"
  "channels_of (bury ch fd ps) = (channels_of ps)(fd := removeAll ch (channels_of ps fd))"
  by (auto simp: channels_of_def subscribe_one_def leave_channel_def drop_channel_def
      erase_if_empty_def bury_def Let_def fun_eq_iff split: option.splits)

lemma um_wf_blocks [simp]:
  assumes "um_wf (channels ps)" and "um_wf (client_channels ps)"
  shows "um_wf (channels (subscribe_one fd ch ps))" "um_wf (client_channels (subscribe_one fd ch ps))"
    "um_wf (channels (leave_channel fd ch ps))" "um_wf (client_channels (leave_channel fd ch ps))"
    "um_wf (channels (drop_channel fd ch ps))" "um_wf (client_channels (drop_channel fd ch ps))"
    "um_wf (channels (erase_if_empty fd ps))" "um_wf (client_channels (erase_if_empty fd ps))"
  using assms by (auto simp: subscribe_one_def leave_channel_def drop_channel_def
      erase_if_empty_def Let_def split: option.splits)

lemma um_wf_bury [simp]:
  "um_wf (channels ps) \<Longrightarrow> um_wf (client_channels ps) \<Longrightarrow> um_wf (channels (bury ch fd ps))"
  "um_wf (channels ps) \<Longrightarrow> um_wf (client_channels ps) \<Longrightarrow> um_wf (client_channels (bury ch fd ps))"
  by (simp_all add: bury_def Let_def)

lemma sorted_removeAll: "sorted xs \<Longrightarrow> sorted (removeAll x xs)"
  by (simp add: removeAll_filter_not_eq sorted_wrt_filter)

lemma sets_ok_blocks [intro, simp]:
  assumes "sets_ok ps"
  shows "sets_ok (subscribe_one fd ch ps)" "sets_ok (leave_channel fd ch ps)"
    "sets_ok (drop_channel fd ch ps)" "sets_ok (erase_if_empty fd ps)" "sets_ok (bury ch fd ps)"
  using assms by (auto simp: sets_ok_def sorted_insort_insert distinct_insort_insert
      distinct_removeAll sorted_removeAll)


lemma no_emptyD: "no_empty m \<Longrightarrow> um_find m k \<noteq> Some []"
  by (simp add: no_empty_def)

lemma no_empty_blocks [intro, simp]:
  "no_empty (channels ps) \<Longrightarrow> no_empty (channels (subscribe_one fd ch ps))"
  "no_empty (channels ps) \<Longrightarrow> no_empty (channels (leave_channel fd ch ps))"
  "no_empty (channels ps) \<Longrightarrow> no_empty (channels (drop_channel fd ch ps))"
  "no_empty (channels ps) \<Longrightarrow> no_empty (channels (erase_if_empty fd ps))"
  "no_empty (client_channels ps) \<Longrightarrow> no_empty (client_channels (subscribe_one fd ch ps))"
  "no_empty (client_channels ps) \<Longrightarrow> no_empty (client_channels (leave_channel fd ch ps))"
  "no_empty (client_channels ps) \<Longrightarrow>
     no_empty (client_channels (erase_if_empty fd (drop_channel fd ch ps)))"
  using set_insort_insert [of fd "subscribers ps ch"]
  by (auto simp: no_empty_def subscribe_one_def leave_channel_def drop_channel_def
      erase_if_empty_def Let_def List.insert_def split: option.splits if_splits)

lemma subscribe_wf [wf_intros]: "pubsub_wf ps \<Longrightarrow> pubsub_wf (snd (subscribe fd chs ps))"
proof (induction chs arbitrary: ps)
  case (Cons ch chs)
  have "indices_agree (subscribe_one fd ch ps)"
    using Cons.prems by (auto simp: pubsub_wf_def indices_agree_def set_insort_insert)
  then have "pubsub_wf (subscribe_one fd ch ps)"
    using Cons.prems by (simp add: pubsub_wf_def)
  then show ?case using Cons.IH by (simp add: split_beta Let_def)
qed simp

text \<open>While a client is being unsubscribed only its own entry may be empty.\<close>

definition unsub_inv :: "socket_t \<Rightarrow> PubSubManager \<Rightarrow> bool" where
  "unsub_inv fd ps \<longleftrightarrow> sets_ok ps \<and> indices_agree ps \<and> no_empty (channels ps) \<and>
     (\<forall>fd'. fd' \<noteq> fd \<longrightarrow> um_find (client_channels ps) fd' \<noteq> Some [])"

lemma unsub_step: "unsub_inv fd ps \<Longrightarrow> unsub_inv fd (drop_channel fd ch (leave_channel fd ch ps))"
proof -
  assume inv: "unsub_inv fd ps"
  have "indices_agree (drop_channel fd ch (leave_channel fd ch ps))"
    using inv by (auto simp: unsub_inv_def indices_agree_def)
  moreover have "um_find (client_channels (drop_channel fd ch (leave_channel fd ch ps))) fd' \<noteq> Some []"
    if "fd' \<noteq> fd" for fd'
    using inv that
    by (auto simp: unsub_inv_def drop_channel_def leave_channel_def Let_def split: option.splits)
  ultimately show ?thesis
    using inv by (simp add: unsub_inv_def)
qed

lemma unsubscribe_loop_inv: "unsub_inv fd ps \<Longrightarrow> unsub_inv fd (snd (unsubscribe_loop fd chs ps))"
  by (induction chs arbitrary: ps) (simp_all add: split_beta Let_def unsub_step)

lemma erase_if_empty_wf: "unsub_inv fd ps \<Longrightarrow> pubsub_wf (erase_if_empty fd ps)"
  by (auto simp: unsub_inv_def pubsub_wf_def indices_agree_def)
    (auto simp: no_empty_def erase_if_empty_def)

lemma unsubscribe_wf [wf_intros]: "pubsub_wf ps \<Longrightarrow> pubsub_wf (snd (unsubscribe fd chs ps))"
proof -
  assume wf: "pubsub_wf ps"
  then have "unsub_inv fd ps" by (auto simp: pubsub_wf_def unsub_inv_def no_empty_def)
  then have "pubsub_wf (erase_if_empty fd (snd (unsubscribe_loop fd l ps)))" for l
    by (intro erase_if_empty_wf unsubscribe_loop_inv)
  with wf show ?thesis by (simp add: unsubscribe_def Let_def split_beta)
qed

text \<open>While dead sockets are removed from a channel only that channel may be empty.\<close>

definition bury_inv :: "string \<Rightarrow> PubSubManager \<Rightarrow> bool" where
  "bury_inv ch ps \<longleftrightarrow> sets_ok ps \<and> indices_agree ps \<and> no_empty (client_channels ps) \<and>
     (\<forall>ch'. ch' \<noteq> ch \<longrightarrow> um_find (channels ps) ch' \<noteq> Some [])"

lemma bury_step: "bury_inv ch ps \<Longrightarrow> bury_inv ch (bury ch fd ps)"
proof -
  assume inv: "bury_inv ch ps"
  have "indices_agree (bury ch fd ps)"
    using inv by (auto simp: bury_inv_def indices_agree_def)
  moreover have "um_find (channels (bury ch fd ps)) ch' \<noteq> Some []" if "ch' \<noteq> ch" for ch'
    using inv that
    by (auto simp: bury_inv_def bury_def drop_channel_def erase_if_empty_def Let_def
        split: option.splits)
  moreover have "no_empty (client_channels (bury ch fd ps))"
    using inv unfolding bury_def Let_def by (intro no_empty_blocks) (simp add: bury_inv_def)
  ultimately show ?thesis
    using inv by (simp add: bury_inv_def)
qed

lemma fold_bury_inv: "bury_inv ch ps \<Longrightarrow> bury_inv ch (fold (bury ch) dead ps)"
  by (induction dead arbitrary: ps) (simp_all add: bury_step)

lemma publish_wf [wf_intros]: "pubsub_wf ps \<Longrightarrow> pubsub_wf (fst (snd (publish sw ch msg ps w)))"
proof (cases "um_find (channels ps) ch")
  case (Some fds)
  assume wf: "pubsub_wf ps"
  then have "bury_inv ch ps" by (auto simp: pubsub_wf_def bury_inv_def no_empty_def)
  then have inv: "bury_inv ch (fold (bury ch) dead ps)" for dead by (rule fold_bury_inv)
  have "pubsub_wf (if subscribers ps1 ch = [] then ps1\<lparr>channels := um_erase ch (channels ps1)\<rparr>
      else ps1)" if "bury_inv ch ps1" for ps1
  proof -
    have "subscribers (ps1\<lparr>channels := um_erase ch (channels ps1)\<rparr>) = subscribers ps1"
      if "subscribers ps1 ch = []"
      using that by (auto simp: subscribers_def fun_eq_iff)
    moreover have "channels_of (ps1\<lparr>channels := um_erase ch (channels ps1)\<rparr>) = channels_of ps1"
      by (simp add: channels_of_def fun_eq_iff)
    moreover have "um_find (channels ps1) ch' \<noteq> Some []" if "subscribers ps1 ch \<noteq> []" for ch'
      using that \<open>bury_inv ch ps1\<close> by (cases "ch' = ch") (auto simp: subscribers_def bury_inv_def)
    ultimately show ?thesis
      using that
      by (auto simp: bury_inv_def pubsub_wf_def sets_ok_def indices_agree_def no_empty_def)
  qed
  with inv Some show ?thesis by (simp add: publish_def split_beta Let_def)
qed (simp add: publish_def)

text \<open>Leaving a list of channels, then dropping the client's own entry.\<close>

lemma client_channels_leave [simp]: "client_channels (leave_channel fd ch ps) = client_channels ps"
  by (simp add: leave_channel_def Let_def split: option.splits)

lemma leave_channels:
  "subscribers (fold (leave_channel fd) chs ps) =
     (\<lambda>ch. if ch \<in> set chs then removeAll fd (subscribers ps ch) else subscribers ps ch)"
  "channels_of (fold (leave_channel fd) chs ps) = channels_of ps"
  "client_channels (fold (leave_channel fd) chs ps) = client_channels ps"
  by (induction chs arbitrary: ps) (auto simp: fun_eq_iff)

lemma leave_channels_ok:
  "sets_ok ps \<Longrightarrow> sets_ok (fold (leave_channel fd) chs ps)"
  "no_empty (channels ps) \<Longrightarrow> no_empty (channels (fold (leave_channel fd) chs ps))"
  by (induction chs arbitrary: ps) simp_all

lemma client_disconnected_subs:
  assumes "pubsub_wf ps"
  shows "subscribers (client_disconnected fd ps) = (\<lambda>ch. removeAll fd (subscribers ps ch))"
    and "channels_of (client_disconnected fd ps) = (channels_of ps)(fd := [])"
proof -
  have agree: "fd \<in> set (subscribers ps ch) \<longleftrightarrow> ch \<in> set (channels_of ps fd)" for ch
    using assms by (simp add: pubsub_wf_def indices_agree_def)
  have upd: "subscribers (p\<lparr>client_channels := c\<rparr>) = subscribers p" for p c
    by (simp add: subscribers_def fun_eq_iff)
  show "subscribers (client_disconnected fd ps) = (\<lambda>ch. removeAll fd (subscribers ps ch))"
    using agree
    by (auto simp: client_disconnected_def Let_def upd leave_channels channels_of_def fun_eq_iff
        removeAll_id split: option.splits)
  show "channels_of (client_disconnected fd ps) = (channels_of ps)(fd := [])"
    by (auto simp: client_disconnected_def Let_def leave_channels channels_of_def fun_eq_iff
        split: option.splits)
qed

lemma client_disconnected_wf [wf_intros]: "pubsub_wf ps \<Longrightarrow> pubsub_wf (client_disconnected fd ps)"
proof -
  assume wf: "pubsub_wf ps"
  let ?ps = "client_disconnected fd ps"
  have "um_wf (channels ?ps) \<and> um_wf (client_channels ?ps) \<and> no_empty (channels ?ps) \<and>
      no_empty (client_channels ?ps)"
    using wf leave_channels_ok [of ps]
    by (auto simp: client_disconnected_def Let_def pubsub_wf_def sets_ok_def leave_channels
        no_empty_def split: option.splits)
  then show ?thesis
    using wf client_disconnected_subs [OF wf, of fd]
    by (auto simp: pubsub_wf_def sets_ok_def indices_agree_def sorted_removeAll distinct_removeAll)
qed

section \<open>Delivery\<close>

lemma deliver_spec:
  assumes law: "lawful_write sw sent" and "distinct fds" and "deliver sw msg fds w = (n, dead, w')"
  shows "set dead \<subseteq> set fds \<and> distinct dead \<and> int (length fds) = n + int (length dead) \<and>
    (\<forall>fd. fd \<notin> set fds \<longrightarrow> sent w' fd = sent w fd) \<and>
    (\<forall>fd \<in> set fds - set dead. sent w' fd = sent w fd @ msg) \<and>
    (\<forall>fd \<in> set dead. \<exists>k < length msg. sent w' fd = sent w fd @ take k msg)"
  using assms(2,3)
proof (induction fds arbitrary: w n dead)
  case (Cons fd fds)
  obtain ok w1 where send: "send_response sw fd msg w = (ok, w1)" by force
  obtain m dd where rest: "deliver sw msg fds w1 = (m, dd, w')" and res: "(n, dead) = (if ok then (m + 1, dd) else (m, fd # dd))"
    using Cons.prems(2) send by (cases "deliver sw msg fds w1") (auto split: if_splits)
  have "write_loop sw fd msg w = (ok, w1)"
    using send by (simp add: send_response_def resp_write_exact_def)
  then obtain k where k: "sent w1 = (sent w)(fd := sent w fd @ take k msg)" "ok \<longleftrightarrow> length msg \<le> k"
    using write_loop_sends [OF law] by blast
  have IH: "set dd \<subseteq> set fds \<and> distinct dd \<and> int (length fds) = m + int (length dd) \<and>
    (\<forall>fd. fd \<notin> set fds \<longrightarrow> sent w' fd = sent w1 fd) \<and>
    (\<forall>fd \<in> set fds - set dd. sent w' fd = sent w1 fd @ msg) \<and>
    (\<forall>fd \<in> set dd. \<exists>k < length msg. sent w' fd = sent w1 fd @ take k msg)"
    using Cons.IH [of w1 m dd] rest Cons.prems(1) by simp
  have fresh: "fd \<notin> set fds" "fd \<notin> set dd" using Cons.prems(1) IH by auto
  then have own: "sent w' fd = sent w fd @ take k msg" using IH k(1) by simp
  have others: "sent w1 fd' = sent w fd'" if "fd' \<noteq> fd" for fd' using k(1) that by simp
  show ?case
  proof (cases ok)
    case True
    then have "dead = dd" "n = m + 1" "sent w' fd = sent w fd @ msg" using res own k(2) by auto
    then show ?thesis using IH fresh others by auto metis+
  next
    case False
    then have "dead = fd # dd" "n = m" "\<exists>k < length msg. sent w' fd = sent w fd @ take k msg"
      using res own k(2) by (auto simp: not_le)
    then show ?thesis using IH fresh others by auto metis+
  qed
qed simp

lemma fold_bury_subscribers:
  "subscribers (fold (bury ch) dead ps) =
     (subscribers ps)(ch := filter (\<lambda>fd. fd \<notin> set dead) (subscribers ps ch))"
  by (induction dead arbitrary: ps) (auto simp: removeAll_filter_not_eq fun_eq_iff intro!: filter_cong)

lemma subscribers_erase_empty:
  "subscribers ps ch = [] \<Longrightarrow> subscribers (ps\<lparr>channels := um_erase ch (channels ps)\<rparr>) = subscribers ps"
  by (auto simp: subscribers_def fun_eq_iff)

lemma length_without:
  assumes "distinct xs" and "distinct ys" and "set ys \<subseteq> set xs"
  shows "length (filter (\<lambda>x. x \<notin> set ys) xs) + length ys = length xs"
proof -
  have "set (filter (\<lambda>x. x \<in> set ys) xs) = set ys" using assms(3) by auto
  then have "length (filter (\<lambda>x. x \<in> set ys) xs) = length ys"
    using assms(1,2) by (metis distinct_card distinct_filter)
  then show ?thesis using sum_length_filter_compl [of "\<lambda>x. x \<in> set ys" xs] by simp
qed

lemma publish_subscribers:
  assumes "publish sw ch msg ps w = (n, ps', w')"
    and "deliver sw (push_message ch msg) (subscribers ps ch) w = (m, dead, w'')"
  shows "n = m \<and> w' = w'' \<and> subscribers ps' =
    (subscribers ps)(ch := filter (\<lambda>fd. fd \<notin> set dead) (subscribers ps ch))"
proof (cases "um_find (channels ps) ch")
  case None
  then show ?thesis using assms by (auto simp: publish_def subscribers_def fun_eq_iff)
next
  case (Some fds)
  then have fds: "subscribers ps ch = fds" by (simp add: subscribers_def)
  show ?thesis
    using assms Some fds subscribers_erase_empty [of "fold (bury ch) dead ps" ch]
    by (auto simp: publish_def Let_def fold_bury_subscribers split: if_splits)
qed

section \<open>Subscriptions of other clients\<close>

text \<open>Nobody but the client itself gains a subscription.\<close>

definition ps_frame :: "socket_t \<Rightarrow> PubSubManager \<Rightarrow> PubSubManager \<Rightarrow> bool" where
  "ps_frame fd ps ps' \<longleftrightarrow> (\<forall>fd'. fd' \<noteq> fd \<longrightarrow> set (channels_of ps' fd') \<subseteq> set (channels_of ps fd'))"

lemma ps_frame_refl [simp]: "ps_frame fd ps ps"
  by (simp add: ps_frame_def)

lemma ps_frame_trans: "ps_frame fd p q \<Longrightarrow> ps_frame fd q r \<Longrightarrow> ps_frame fd p r"
  unfolding ps_frame_def by blast

lemma ps_frame_subscribe: "ps_frame fd ps (snd (subscribe fd chs ps))"
proof (induction chs arbitrary: ps)
  case (Cons ch chs)
  have "ps_frame fd ps (subscribe_one fd ch ps)" by (simp add: ps_frame_def)
  then show ?case using Cons ps_frame_trans by (simp add: split_beta Let_def)
qed simp

lemma ps_frame_unsubscribe_loop: "ps_frame fd ps (snd (unsubscribe_loop fd chs ps))"
proof (induction chs arbitrary: ps)
  case (Cons ch chs)
  have "ps_frame fd ps (drop_channel fd ch (leave_channel fd ch ps))" by (simp add: ps_frame_def)
  then show ?case using Cons ps_frame_trans by (simp add: split_beta Let_def)
qed simp

lemma ps_frame_unsubscribe: "ps_frame fd ps (snd (unsubscribe fd chs ps))"
  using ps_frame_unsubscribe_loop
  by (simp add: unsubscribe_def Let_def split_beta ps_frame_def)

lemma ps_frame_publish: "ps_frame fd ps (fst (snd (publish sw ch msg ps w)))"
proof -
  have erase: "channels_of (p\<lparr>channels := m\<rparr>) = channels_of p" for p m
    by (simp add: channels_of_def fun_eq_iff)
  have "ps_frame fd ps (fold (bury ch) dead ps)" for dead
  proof (induction dead arbitrary: ps)
    case (Cons a dead)
    have "ps_frame fd ps (bury ch a ps)" by (auto simp: ps_frame_def)
    then show ?case using Cons ps_frame_trans by simp
  qed simp
  then show ?thesis
    by (simp add: publish_def split_beta Let_def ps_frame_def erase split: option.split)
qed

lemma publish_spec:
  assumes "pubsub_wf ps" and "lawful_write sw sent" and "publish sw ch msg ps w = (n, ps', w')"
  shows "set (subscribers ps' ch) \<subseteq> set (subscribers ps ch) \<and>
    n = int (length (subscribers ps' ch)) \<and>
    (\<forall>fd \<in> set (subscribers ps' ch). sent w' fd = sent w fd @ push_message ch msg) \<and>
    (\<forall>fd \<in> set (subscribers ps ch) - set (subscribers ps' ch).
       \<exists>k < length (push_message ch msg). sent w' fd = sent w fd @ take k (push_message ch msg)) \<and>
    (\<forall>fd. fd \<notin> set (subscribers ps ch) \<longrightarrow> sent w' fd = sent w fd)"
proof -
  obtain m dead w'' where d: "deliver sw (push_message ch msg) (subscribers ps ch) w = (m, dead, w'')"
    by (cases "deliver sw (push_message ch msg) (subscribers ps ch) w")
  have dist: "distinct (subscribers ps ch)" using assms(1) by (simp add: pubsub_wf_def sets_ok_def)
  note spec = deliver_spec [OF assms(2) dist d]
  have ps': "n = m" "w' = w''"
    "subscribers ps' ch = filter (\<lambda>fd. fd \<notin> set dead) (subscribers ps ch)"
    using publish_subscribers [OF assms(3) d] by simp_all
  moreover have "n = int (length (subscribers ps' ch))"
    using spec ps' length_without [OF dist, of dead] by simp
  ultimately show ?thesis using spec by auto
qed

text \<open>When every write completes, nobody is dropped.\<close>

lemma deliver_complete:
  "(\<And>s data w. fst (write_loop sw s data w)) \<Longrightarrow> fst (snd (deliver sw msg fds w)) = []"
  by (induction fds arbitrary: w) (simp_all add: send_response_def resp_write_exact_def split_beta Let_def)

lemma publish_complete:
  assumes "pubsub_wf ps" and "lawful_write sw sent" and "\<And>s data w. fst (write_loop sw s data w)"
    and "publish sw ch msg ps w = (n, ps', w')"
  shows "n = int (length (subscribers ps ch))" and "subscribers ps' = subscribers ps"
    and "sent w' fd = sent w fd @ (if fd \<in> set (subscribers ps ch) then push_message ch msg else [])"
proof -
  obtain m w'' where d: "deliver sw (push_message ch msg) (subscribers ps ch) w = (m, [], w'')"
    using deliver_complete [OF assms(3)] by (metis prod.collapse)
  show same: "subscribers ps' = subscribers ps" using publish_subscribers [OF assms(4) d] by simp
  show "n = int (length (subscribers ps ch))"
    "sent w' fd = sent w fd @ (if fd \<in> set (subscribers ps ch) then push_message ch msg else [])"
    using publish_spec [OF assms(1,2,4)] by (simp_all add: same)
qed

section \<open>Properties\<close>

text \<open>
  The two indices of the manager stay consistent: every operation keeps the forward index
  (channel to clients) and the reverse index (client to channels) in agreement, without empty sets
  and without duplicates.
\<close>

lemma pubsub_indices_consistent:
  assumes "pubsub_wf ps"
  shows "pubsub_wf (snd (subscribe fd chs ps)) \<and> pubsub_wf (snd (unsubscribe fd chs ps)) \<and>
    pubsub_wf (fst (snd (publish sw ch msg ps w))) \<and> pubsub_wf (client_disconnected fd ps)"
  using assms by (simp add: wf_intros)

lemma pubsub_indices_consistent_witness:
  "pubsub_wf new_pubsub \<and> pubsub_wf (snd (subscribe 4 [''news''] new_pubsub))"
  using pubsub_indices_consistent [OF pubsub_wf_new, of 4 "[''news'']" log_write "[]" "[]" "\<lambda>_. []"]
    pubsub_wf_new by simp

text \<open>
  C26. \<open>publish\<close> writes the message once, whole, to every subscriber it counts as delivered and to
  nobody outside the channel; the subscribers that did not take the whole message are exactly those
  dropped from the channel, and each of them got a proper prefix of it.
\<close>

theorem publish_delivers:
  assumes "pubsub_wf ps" and "lawful_write sw sent" and "publish sw ch msg ps w = (n, ps', w')"
  shows "set (subscribers ps' ch) \<subseteq> set (subscribers ps ch) \<and>
    n = int (length (subscribers ps' ch)) \<and>
    (\<forall>fd \<in> set (subscribers ps' ch). sent w' fd = sent w fd @ push_message ch msg) \<and>
    (\<forall>fd \<in> set (subscribers ps ch) - set (subscribers ps' ch).
       \<exists>k < length (push_message ch msg). sent w' fd = sent w fd @ take k (push_message ch msg)) \<and>
    (\<forall>fd. fd \<notin> set (subscribers ps ch) \<longrightarrow> sent w' fd = sent w fd)"
  by (rule publish_spec [OF assms])

theorem publish_delivers_witness:
  "let ps = snd (subscribe 4 [''news''] new_pubsub);
       r = publish log_write ''news'' ''hi'' ps (\<lambda>_. [])
   in fst r = int (length (subscribers (fst (snd r)) ''news'')) \<and> snd (snd r) 5 = []"
proof -
  let ?ps = "snd (subscribe 4 [''news''] new_pubsub)"
  let ?r = "publish log_write ''news'' ''hi'' ?ps (\<lambda>_. [])"
  have "pubsub_wf ?ps" by (intro subscribe_wf pubsub_wf_new)
  moreover have "5 \<notin> set (subscribers ?ps ''news'')"
    by (simp add: set_insort_insert)
  ultimately show ?thesis
    using publish_delivers [OF _ lawful_log_write, of ?ps "''news''" "''hi''" "\<lambda>_. []" "fst ?r" "fst (snd ?r)"
        "snd (snd ?r)"]
    unfolding Let_def prod.collapse by blast
qed

end
