(* ===== verification/Persistence.thy ===== *)
theory Persistence
  imports Database Strings
begin

unbundle bit_operations_syntax

text \<open>
  The dump file of \<open>include/persistence/persistence.h\<close> and \<open>src/persistence/persistence.cpp\<close>: the
  big-endian integers and length-prefixed strings it is made of, the table-driven CRC32, the writer
  and the reader, and the file-system steps of \<open>save\<close> and \<open>load\<close>.
\<close>

section \<open>CRC32\<close>

definition crc_poly :: "32 word" where
  "crc_poly = 0xEDB88320"

text \<open>One round of the loop in \<open>generate_crc32_entry\<close>.\<close>

definition crc_bit :: "32 word \<Rightarrow> 32 word" where
  "crc_bit crc = (if crc AND 1 \<noteq> 0 then drop_bit 1 crc XOR crc_poly else drop_bit 1 crc)"

definition generate_crc32_entry :: "32 word \<Rightarrow> 32 word" where
  "generate_crc32_entry index = (crc_bit ^^ 8) index"

definition crc32_table :: "32 word list" where
  "crc32_table = map (\<lambda>i. generate_crc32_entry (word_of_nat i)) [0..<256]"

definition byte_word :: "char \<Rightarrow> 32 word" where
  "byte_word c = word_of_nat (of_char c)"

text \<open>The body of the byte loop in \<open>compute_crc32\<close>.\<close>

definition crc_byte :: "32 word \<Rightarrow> char \<Rightarrow> 32 word" where
  "crc_byte crc c =
     (let index = unat ((crc XOR byte_word c) AND 0xFF)
      in drop_bit 8 crc XOR (crc32_table ! index))"

definition CHUNK_SIZE :: nat where
  "CHUNK_SIZE = 4096"

text \<open>
  The chunk loop: \<open>remaining\<close> bytes of \<open>file\<close> to go. A short read sets the stream's failure bits,
  which ends the loop.
\<close>

function crc_chunks :: "nat \<Rightarrow> string \<Rightarrow> 32 word \<Rightarrow> 32 word" where
  "crc_chunks remaining file crc =
     (if remaining = 0 then crc
      else let to_read = min remaining CHUNK_SIZE;
               buffer = take to_read file;
               crc' = foldl crc_byte crc buffer
           in if length buffer < to_read then crc'
              else crc_chunks (remaining - length buffer) (drop to_read file) crc')"
  by pat_completeness auto
termination
  by (relation "measure (\<lambda>(remaining, file, crc). remaining)") (auto simp: CHUNK_SIZE_def)

declare crc_chunks.simps [simp del]

definition compute_crc32 :: "string \<Rightarrow> nat \<Rightarrow> 32 word" where
  "compute_crc32 file len = crc_chunks len file 0xFFFFFFFF XOR 0xFFFFFFFF"

section \<open>Binary encoding\<close>

definition byte_at :: "nat \<Rightarrow> 'a::len word \<Rightarrow> char" where
  "byte_at shift val = char_of (unat (drop_bit shift val AND 0xFF))"

definition write_uint32 :: "32 word \<Rightarrow> string" where
  "write_uint32 val = [byte_at 24 val, byte_at 16 val, byte_at 8 val, byte_at 0 val]"

definition byte_val :: "char \<Rightarrow> 'a::len word" where
  "byte_val c = word_of_nat (of_char c)"

text \<open>A read takes its bytes off the front of the stream, or fails.\<close>

definition read_uint32 :: "(char, 32 word) decoder" where
  "read_uint32 s =
     (case s of
        b0 # b1 # b2 # b3 # rest \<Rightarrow>
          Some (push_bit 24 (byte_val b0) OR push_bit 16 (byte_val b1) OR push_bit 8 (byte_val b2)
            OR byte_val b3, rest)
      | _ \<Rightarrow> None)"

definition write_int64 :: "int \<Rightarrow> string" where
  "write_int64 val =
     (let uval = (word_of_int val :: 64 word)
      in [byte_at 56 uval, byte_at 48 uval, byte_at 40 uval, byte_at 32 uval,
          byte_at 24 uval, byte_at 16 uval, byte_at 8 uval, byte_at 0 uval])"

definition read_int64 :: "(char, int) decoder" where
  "read_int64 s =
     (case s of
        b0 # b1 # b2 # b3 # b4 # b5 # b6 # b7 # rest \<Rightarrow>
          (let uval = (push_bit 56 (byte_val b0) OR push_bit 48 (byte_val b1)
                 OR push_bit 40 (byte_val b2) OR push_bit 32 (byte_val b3)
                 OR push_bit 24 (byte_val b4) OR push_bit 16 (byte_val b5)
                 OR push_bit 8 (byte_val b6) OR byte_val b7 :: 64 word)
           in Some (sint uval, rest))
      | _ \<Rightarrow> None)"

definition write_string :: "string \<Rightarrow> string" where
  "write_string s = write_uint32 (word_of_nat (length s)) @ s"

definition read_string :: "(char, string) decoder" where
  "read_string s =
     (case read_uint32 s of
        None \<Rightarrow> None
      | Some (len, rest) \<Rightarrow>
          (if length rest < unat len then None
           else Some (take (unat len) rest, drop (unat len) rest)))"

section \<open>Writing a dump\<close>

definition MAGIC :: string where
  "MAGIC = ''MYREDIS01''"

definition TYPE_STRING :: char where
  "TYPE_STRING = CHR 0x00"

definition TYPE_LIST :: char where
  "TYPE_LIST = CHR 0x01"

text \<open>\<open>FLAG_HAS_TTL\<close> is bit 0 of the flags byte.\<close>

definition FLAG_HAS_TTL :: char where
  "FLAG_HAS_TTL = CHR 0x01"

definition flags_byte :: "time option \<Rightarrow> char" where
  "flags_byte deadline = (if deadline \<noteq> None then FLAG_HAS_TTL else CHR 0x00)"

definition snap_expired :: "time \<Rightarrow> DatabaseSnapshot \<Rightarrow> string \<Rightarrow> bool" where
  "snap_expired now snap key =
     (case um_find (snap_expiry snap) key of None \<Rightarrow> False | Some deadline \<Rightarrow> deadline \<le> now)"

definition write_ttl :: "time \<Rightarrow> time option \<Rightarrow> string" where
  "write_ttl now deadline =
     (case deadline of None \<Rightarrow> [] | Some d \<Rightarrow> write_int64 ((d - now) sdiv ns_per_ms))"

definition write_string_entry :: "time \<Rightarrow> DatabaseSnapshot \<Rightarrow> string \<times> string \<Rightarrow> string" where
  "write_string_entry now snap e =
     (let (key, val) = e; deadline = um_find (snap_expiry snap) key
      in if snap_expired now snap key then []
         else [TYPE_STRING, flags_byte deadline] @ write_string key @ write_string val
           @ write_ttl now deadline)"

definition write_list_entry :: "time \<Rightarrow> DatabaseSnapshot \<Rightarrow> string \<times> string list \<Rightarrow> string" where
  "write_list_entry now snap e =
     (let (key, l) = e; deadline = um_find (snap_expiry snap) key
      in if snap_expired now snap key then []
         else [TYPE_LIST, flags_byte deadline] @ write_string key
           @ write_uint32 (word_of_nat (length l)) @ concat (map write_string l)
           @ write_ttl now deadline)"

definition entry_count :: "time \<Rightarrow> DatabaseSnapshot \<Rightarrow> nat" where
  "entry_count now snap =
     length (filter (\<lambda>e. \<not> snap_expired now snap (fst e)) (snap_store snap)) +
     length (filter (\<lambda>e. \<not> snap_expired now snap (fst e)) (snap_list_store snap))"

text \<open>The bytes written before the checksum is appended.\<close>

definition dump_data :: "time \<Rightarrow> DatabaseSnapshot \<Rightarrow> string" where
  "dump_data now snap =
     MAGIC @ write_uint32 (word_of_nat (entry_count now snap))
     @ concat (map (write_string_entry now snap) (snap_store snap))
     @ concat (map (write_list_entry now snap) (snap_list_store snap))"

section \<open>Saving\<close>

text \<open>
  Files by path. The outcome of each system call of \<open>save\<close> is given: whether it succeeds; for a failed write of
  the data, how many bytes reach the file; for the final append, whose result the code does not look at, how many
  bytes of the checksum do. A failed open changes nothing, a failed removal leaves the file and a failed rename
  leaves both paths as they are; a rename replaces the target. The results of \<open>std::remove\<close> are not looked at.
\<close>

type_synonym files = "string \<Rightarrow> string option"

record save_io =
  open_ok :: bool
  write_ok :: bool
  data_written :: nat
  reopen_ok :: bool
  crc_open_ok :: bool
  append_ok :: bool
  crc_written :: nat
  remove_old_ok :: bool
  rename_ok :: bool
  remove_tmp_ok :: bool

definition save :: "save_io \<Rightarrow> time \<Rightarrow> string \<Rightarrow> database \<Rightarrow> files \<Rightarrow> bool \<times> files" where
  "save io now filepath db fs =
     (let snapshot = get_snapshot db;
          tmp_path = filepath @ ''.tmp'';
          data = dump_data now snapshot;
          remove_tmp = (\<lambda>fs. if remove_tmp_ok io then fs(tmp_path := None) else fs)
      in if \<not> open_ok io then (False, fs)
         else if \<not> write_ok io then (False, remove_tmp (fs(tmp_path := Some (take (data_written io) data))))
         else if \<not> reopen_ok io then (False, remove_tmp (fs(tmp_path := Some data)))
         else let crc = (if crc_open_ok io then compute_crc32 data (length data) else 0)
           in if \<not> append_ok io then (False, remove_tmp (fs(tmp_path := Some data)))
              else let fs1 = fs(tmp_path := Some (data @ take (crc_written io) (write_uint32 crc)));
                       fs2 = (if remove_old_ok io then fs1(filepath := None) else fs1)
                   in if \<not> rename_ok io then (False, remove_tmp fs2)
                      else (True, fs2(filepath := fs2 tmp_path, tmp_path := None)))"

text \<open>Every call succeeds.\<close>

definition all_ok :: save_io where
  "all_ok = \<lparr>open_ok = True, write_ok = True, data_written = 0, reopen_ok = True, crc_open_ok = True,
     append_ok = True, crc_written = 4, remove_old_ok = True, rename_ok = True, remove_tmp_ok = True\<rparr>"

text \<open>
  The file operations of a \<open>save\<close> whose calls all succeed, in their order and with the bytes one by
  one, to speak about the files a crash leaves behind.
\<close>

datatype file_op = Truncate string | Put string char | Remove string | Rename string string

fun file_effect :: "files \<Rightarrow> file_op \<Rightarrow> files" where
  "file_effect fs (Truncate p) = fs(p := Some [])"
| "file_effect fs (Put p c) = fs(p := Some ((case fs p of None \<Rightarrow> [] | Some s \<Rightarrow> s) @ [c]))"
| "file_effect fs (Remove p) = fs(p := None)"
| "file_effect fs (Rename p q) = fs(q := fs p, p := None)"

definition save_ops :: "time \<Rightarrow> string \<Rightarrow> database \<Rightarrow> file_op list" where
  "save_ops now filepath db =
     (let tmp_path = filepath @ ''.tmp'';
          data = dump_data now (get_snapshot db)
      in Truncate tmp_path # map (Put tmp_path) data
         @ map (Put tmp_path) (write_uint32 (compute_crc32 data (length data)))
         @ [Remove filepath, Rename tmp_path filepath])"

section \<open>Loading\<close>

definition empty_snapshot :: DatabaseSnapshot where
  "empty_snapshot = \<lparr>snap_store = [], snap_list_store = [], snap_expiry = []\<rparr>"

definition has_ttl :: "char \<Rightarrow> bool" where
  "has_ttl flags \<longleftrightarrow> odd (of_char flags :: nat)"

definition read_ttl :: "bool \<Rightarrow> (char, int option) decoder" where
  "read_ttl ttl s =
     (if ttl then (case read_int64 s of None \<Rightarrow> None | Some (ms, rest) \<Rightarrow> Some (Some ms, rest))
      else Some (None, s))"

text \<open>\<open>snapshot.expiry[key] = now + milliseconds(ttl_ms)\<close> when the entry has a TTL.\<close>

definition put_deadline :: "time \<Rightarrow> string \<Rightarrow> int option \<Rightarrow> (string, time) umap \<Rightarrow> (string, time) umap" where
  "put_deadline now key ttl m =
     (case ttl of None \<Rightarrow> m | Some ms \<Rightarrow> um_put key (now + ms * ns_per_ms) m)"

text \<open>One round of the entry loop: the snapshot after the entry and the rest of the file.\<close>

definition load_entry :: "time \<Rightarrow> DatabaseSnapshot \<Rightarrow> string \<Rightarrow> (DatabaseSnapshot \<times> string) option" where
  "load_entry now snap s =
     (case s of
        type_tag # flags # s1 \<Rightarrow>
          (case read_string s1 of
             None \<Rightarrow> None
           | Some (key, s2) \<Rightarrow>
               (if type_tag = TYPE_STRING then
                  (case read_string s2 of
                     None \<Rightarrow> None
                   | Some (val, s3) \<Rightarrow>
                       (case read_ttl (has_ttl flags) s3 of
                          None \<Rightarrow> None
                        | Some (ttl, s4) \<Rightarrow>
                            (if (case ttl of None \<Rightarrow> False | Some ms \<Rightarrow> ms \<le> 0) then Some (snap, s4)
                             else Some (snap\<lparr>snap_store := um_put key val (snap_store snap),
                               snap_expiry := put_deadline now key ttl (snap_expiry snap)\<rparr>, s4))))
                else if type_tag = TYPE_LIST then
                  (case read_uint32 s2 of
                     None \<Rightarrow> None
                   | Some (elem_count, s3) \<Rightarrow>
                       (case decode_seq read_string (unat elem_count) s3 of
                          None \<Rightarrow> None
                        | Some (l, s4) \<Rightarrow>
                            (case read_ttl (has_ttl flags) s4 of
                               None \<Rightarrow> None
                             | Some (ttl, s5) \<Rightarrow>
                                 (if (case ttl of None \<Rightarrow> False | Some ms \<Rightarrow> ms \<le> 0) then Some (snap, s5)
                                  else Some (snap\<lparr>snap_list_store := um_put key l (snap_list_store snap),
                                    snap_expiry := put_deadline now key ttl (snap_expiry snap)\<rparr>, s5)))))
                else None))
      | _ \<Rightarrow> None)"

fun load_entries :: "time \<Rightarrow> nat \<Rightarrow> DatabaseSnapshot \<Rightarrow> string \<Rightarrow> DatabaseSnapshot option" where
  "load_entries now 0 snap s = Some snap"
| "load_entries now (Suc n) snap s =
     (case load_entry now snap s of
        None \<Rightarrow> None
      | Some (snap', s') \<Rightarrow> load_entries now n snap' s')"

text \<open>\<open>crc_open\<close>: whether \<open>compute_crc32\<close> can open the file a second time; it returns 0 if not.\<close>

definition load :: "bool \<Rightarrow> time \<Rightarrow> string \<Rightarrow> database \<Rightarrow> files \<Rightarrow> bool \<times> database" where
  "load crc_open now filepath db fs =
     (case fs filepath of
        None \<Rightarrow> (False, db)
      | Some file \<Rightarrow>
          (if length file < 9 + 4 + 4 then (False, db)
           else let data_size = length file - 4;
                    computed_crc = (if crc_open then compute_crc32 file data_size else 0)
                in case read_uint32 (drop data_size file) of
                  None \<Rightarrow> (False, db)
                | Some (stored_crc, _) \<Rightarrow>
                    (if computed_crc \<noteq> stored_crc then (False, db)
                     else if take 9 file \<noteq> MAGIC then (False, db)
                     else case read_uint32 (drop 9 file) of
                       None \<Rightarrow> (False, db)
                     | Some (n, s) \<Rightarrow>
                         (case load_entries now (unat n) empty_snapshot s of
                            None \<Rightarrow> (False, db)
                          | Some snapshot \<Rightarrow> (True, load_snapshot snapshot db)))))"


section \<open>The codecs\<close>

lemma and_255: "(w AND 0xFF :: 'a::len word) = take_bit 8 w"
proof -
  have "(0xFF :: 'a word) = mask 8" by (simp add: mask_eq_exp_minus_1)
  then show ?thesis by (simp add: take_bit_eq_mask)
qed

lemma unat_take8: "unat (take_bit 8 w :: 'a::len word) < 256"
proof -
  have "unat (take_bit 8 w) = take_bit 8 (unat w)" by (simp add: unsigned_take_bit_eq)
  then show ?thesis using take_bit_nat_less_exp [of 8 "unat w"] by simp
qed

lemma byte_val_at: "byte_val (byte_at k w) = (take_bit 8 (drop_bit k w) :: 'a::len word)"
  by (simp add: byte_val_def byte_at_def and_255 unat_take8)

lemma bit_slot:
  "bit (push_bit k (take_bit 8 (drop_bit k w)) :: 'a::len word) n \<longleftrightarrow> k \<le> n \<and> n < k + 8 \<and> bit w n"
  by (cases "k \<le> n"; cases "n < LENGTH('a)") (auto simp: bit_simps dest: bit_imp_le_length)

lemma bit_slot0: "bit (take_bit 8 w :: 'a::len word) n \<longleftrightarrow> n < 8 \<and> bit w n"
  by (auto simp: bit_simps)

lemma join_bytes_32:
  "push_bit 24 (take_bit 8 (drop_bit 24 w)) OR push_bit 16 (take_bit 8 (drop_bit 16 w))
     OR push_bit 8 (take_bit 8 (drop_bit 8 w)) OR take_bit 8 w = (w :: 32 word)"
proof (rule bit_word_eqI)
  fix n assume "n < LENGTH(32)"
  then have "n < 32" by simp
  then show "bit (push_bit 24 (take_bit 8 (drop_bit 24 w)) OR push_bit 16 (take_bit 8 (drop_bit 16 w))
     OR push_bit 8 (take_bit 8 (drop_bit 8 w)) OR take_bit 8 w) n \<longleftrightarrow> bit w n"
    unfolding bit_or_iff bit_slot bit_slot0 by linarith
qed

lemma join_bytes_64:
  "push_bit 56 (take_bit 8 (drop_bit 56 w)) OR push_bit 48 (take_bit 8 (drop_bit 48 w))
     OR push_bit 40 (take_bit 8 (drop_bit 40 w)) OR push_bit 32 (take_bit 8 (drop_bit 32 w))
     OR push_bit 24 (take_bit 8 (drop_bit 24 w)) OR push_bit 16 (take_bit 8 (drop_bit 16 w))
     OR push_bit 8 (take_bit 8 (drop_bit 8 w)) OR take_bit 8 w = (w :: 64 word)"
  (is "?l = w")
proof (rule bit_word_eqI)
  fix n assume "n < LENGTH(64)"
  then have "n < 64" by simp
  then show "bit ?l n \<longleftrightarrow> bit w n"
    unfolding bit_or_iff bit_slot bit_slot0 by linarith
qed

interpretation u32: codec write_uint32 read_uint32 "\<lambda>_. True"
  by unfold_locales (simp add: write_uint32_def read_uint32_def byte_val_at join_bytes_32)

definition int64_range :: "int \<Rightarrow> bool" where
  "int64_range i \<longleftrightarrow> - (2 ^ 63) \<le> i \<and> i < 2 ^ 63"

lemma sint_word_of_int64: "int64_range i \<Longrightarrow> sint (word_of_int i :: 64 word) = i"
  by (simp add: int64_range_def signed_take_bit_int_eq_self signed_of_int)

interpretation i64: codec write_int64 read_int64 int64_range
  by unfold_locales
    (simp add: write_int64_def read_int64_def Let_def byte_val_at join_bytes_64 sint_word_of_int64)

definition fits32 :: "'a list \<Rightarrow> bool" where
  "fits32 l \<longleftrightarrow> length l < 2 ^ 32"

interpretation str: codec write_string read_string fits32
proof unfold_locales
  fix s rest :: string
  assume "fits32 s"
  then have "unat (word_of_nat (length s) :: 32 word) = length s"
    by (simp add: fits32_def unat_of_nat take_bit_nat_eq_self)
  then show "read_string (write_string s @ rest) = Some (s, rest)"
    by (simp add: read_string_def write_string_def u32.dec_enc)
qed


section \<open>The checksum\<close>

lemma crc_chunks_eq: "crc_chunks n bs crc = foldl crc_byte crc (take n bs)"
proof (induction n bs crc rule: crc_chunks.induct)
  case (1 n bs crc)
  let ?k = "min n CHUNK_SIZE"
  show ?case
  proof (cases "n = 0 \<or> length (take ?k bs) < ?k")
    case True
    then have "n = 0 \<or> length bs < ?k" by (auto simp: min_less_iff_disj)
    then have "n = 0 \<or> take n bs = take ?k bs" by (auto simp: take_all)
    then show ?thesis using True by (auto simp: crc_chunks.simps [of n bs crc] Let_def)
  next
    case False
    then have len: "length (take ?k bs) = ?k" by (simp add: min_def split: if_splits)
    have "take n bs = take ?k bs @ take (n - ?k) (drop ?k bs)"
      by (metis le_add_diff_inverse min.cobounded1 take_add)
    then show ?thesis
      using 1 False len by (simp add: crc_chunks.simps [of n bs crc] Let_def)
  qed
qed

lemma compute_crc32_eq:
  "compute_crc32 file n = foldl crc_byte 0xFFFFFFFF (take n file) XOR 0xFFFFFFFF"
  by (simp add: compute_crc32_def crc_chunks_eq)

lemma crc_bit_eq: "crc_bit x = drop_bit 1 x XOR (if bit x 0 then crc_poly else 0)"
  by (simp add: crc_bit_def bit_0 and_one_eq odd_iff_mod_2_eq_one)

lemma crc_bit_xor: "crc_bit (x XOR y) = crc_bit x XOR crc_bit y"
  by (cases "bit x 0"; cases "bit y 0")
    (simp_all add: crc_bit_eq bit_xor_iff drop_bit_xor ac_simps)

lemma crc_bits_xor: "(crc_bit ^^ n) (x XOR y) = (crc_bit ^^ n) x XOR (crc_bit ^^ n) y"
  by (induction n) (simp_all add: crc_bit_xor)

lemma crc_bits_shift:
  "(\<And>i. i < n \<Longrightarrow> \<not> bit x i) \<Longrightarrow> (crc_bit ^^ n) x = drop_bit n x"
proof (induction n)
  case (Suc n)
  then have "(crc_bit ^^ Suc n) x = crc_bit (drop_bit n x)" and "\<not> bit x n" by auto
  then show ?case by (simp add: crc_bit_eq [of "drop_bit n x"] bit_drop_bit_eq)
qed simp

lemma crc_bit_inj0: "crc_bit x = 0 \<Longrightarrow> x = 0"
proof -
  assume zero: "crc_bit x = 0"
  have top: "bit crc_poly 31" by (simp add: crc_poly_def)
  have "\<not> bit (drop_bit 1 x) 31" by (simp add: bit_drop_bit_eq) (use bit_imp_le_length [of x 32] in auto)
  then have low: "\<not> bit x 0"
    using zero top by (auto simp: crc_bit_eq bit_xor_iff split: if_splits dest: arg_cong [of _ _ "\<lambda>w. bit w 31"])
  then have shift: "drop_bit 1 x = 0" using zero by (simp add: crc_bit_eq)
  show "x = 0"
  proof (rule bit_word_eqI)
    fix n
    show "bit x n \<longleftrightarrow> bit 0 n"
      using low arg_cong [OF shift, of "\<lambda>w. bit w (n - 1)"] by (cases n) (simp_all add: bit_drop_bit_eq)
  qed
qed

lemma xor_cancel: "x XOR z = y XOR z \<Longrightarrow> x = (y :: 'a::len word)"
  by (metis xor.assoc xor.right_neutral xor_self_eq)

lemma crc_bits_inj: "(crc_bit ^^ n) x = (crc_bit ^^ n) y \<Longrightarrow> x = y"
proof -
  assume "(crc_bit ^^ n) x = (crc_bit ^^ n) y"
  then have "(crc_bit ^^ n) (x XOR y) = 0" by (simp add: crc_bits_xor)
  then have "x XOR y = y XOR y" by (induction n) (auto dest: crc_bit_inj0)
  then show "x = y" by (rule xor_cancel)
qed

lemma byte_word_bits: "8 \<le> n \<Longrightarrow> \<not> bit (byte_word c) n"
proof -
  assume n: "8 \<le> n"
  have "byte_word c = take_bit 8 (byte_word c)"
    by (simp add: byte_word_def take_bit_of_nat take_bit_nat_eq_self)
  then show ?thesis using n by (metis bit_take_bit_iff not_less)
qed

lemma word_split8: "(x :: 32 word) = take_bit 8 x XOR push_bit 8 (drop_bit 8 x)"
proof (rule bit_word_eqI)
  fix n assume "n < LENGTH(32)"
  then show "bit x n \<longleftrightarrow> bit (take_bit 8 x XOR push_bit 8 (drop_bit 8 x)) n"
    by (cases "n < 8") (simp_all add: bit_xor_iff bit_take_bit_iff bit_push_bit_iff bit_drop_bit_eq)
qed

text \<open>The table lookup is eight rounds of the bitwise algorithm.\<close>

lemma crc_byte_bitwise: "crc_byte crc c = (crc_bit ^^ 8) (crc XOR byte_word c)"
proof -
  let ?x = "crc XOR byte_word c"
  have idx: "unat (?x AND 0xFF) < 256" unfolding and_255 by (rule unat_take8)
  then have lookup: "crc32_table ! unat (?x AND 0xFF) = generate_crc32_entry (?x AND 0xFF)"
    by (simp add: crc32_table_def)
  have split: "?x = (?x AND 0xFF) XOR push_bit 8 (drop_bit 8 ?x)"
    unfolding and_255 by (rule word_split8)
  have high: "drop_bit 8 ?x = drop_bit 8 crc"
    by (rule bit_word_eqI) (simp add: bit_drop_bit_eq bit_xor_iff byte_word_bits)
  have "(crc_bit ^^ 8) ?x = (crc_bit ^^ 8) (?x AND 0xFF) XOR (crc_bit ^^ 8) (push_bit 8 (drop_bit 8 ?x))"
    using split crc_bits_xor by metis
  also have "(crc_bit ^^ 8) (push_bit 8 (drop_bit 8 ?x)) = drop_bit 8 (push_bit 8 (drop_bit 8 ?x))"
    by (rule crc_bits_shift) (simp add: bit_push_bit_iff bit_xor_iff)
  also have "\<dots> = drop_bit 8 crc"
    unfolding high by (rule bit_word_eqI) (auto simp: bit_simps dest: bit_imp_le_length)
  finally show ?thesis
    using lookup by (simp add: crc_byte_def Let_def generate_crc32_entry_def ac_simps)
qed

lemma byte_word_inj: "byte_word c = byte_word d \<Longrightarrow> c = d"
proof -
  assume "byte_word c = byte_word d"
  then have eq: "unat (byte_word c) = unat (byte_word d)" by simp
  have "unat (byte_word e) = of_char e" for e
    using less_trans [of "of_char e" 256 "2 ^ 32 :: nat"]
    by (simp add: byte_word_def unat_of_nat)
  with eq have "(of_char c :: nat) = of_char d" by simp
  then show "c = d" by simp
qed

lemma crc_byte_inj: "crc_byte x c = crc_byte y c \<Longrightarrow> x = y"
  unfolding crc_byte_bitwise by (drule crc_bits_inj) (rule xor_cancel)


lemma crc_byte_data_inj: "crc_byte x c = crc_byte x d \<Longrightarrow> c = d"
  unfolding crc_byte_bitwise
  by (drule crc_bits_inj) (metis byte_word_inj xor.commute xor_cancel)

lemma crc_fold_inj: "foldl crc_byte x s = foldl crc_byte y s \<Longrightarrow> x = y"
  by (induction s arbitrary: x y) (auto dest: crc_byte_inj)

text \<open>The checksum tells apart any two strings that differ in one byte.\<close>

lemma crc_detects_byte:
  assumes "c \<noteq> d"
  shows "compute_crc32 (p @ c # s) (length (p @ c # s)) \<noteq>
    compute_crc32 (p @ d # s) (length (p @ d # s))"
proof
  assume "compute_crc32 (p @ c # s) (length (p @ c # s)) =
    compute_crc32 (p @ d # s) (length (p @ d # s))"
  then have "foldl crc_byte 0xFFFFFFFF (p @ c # s) = foldl crc_byte 0xFFFFFFFF (p @ d # s)"
    unfolding compute_crc32_eq using xor_cancel by fastforce
  then have "crc_byte (foldl crc_byte 0xFFFFFFFF p) c = crc_byte (foldl crc_byte 0xFFFFFFFF p) d"
    by (auto dest: crc_fold_inj)
  with assms show False by (auto dest: crc_byte_data_inj)
qed

section \<open>Reading back what was written\<close>

definition snap_entry :: "DatabaseSnapshot \<Rightarrow> string \<Rightarrow> entry option" where
  "snap_entry snap key = entry_of (load_snapshot snap new_database) key"

text \<open>
  What a live entry becomes when it is dumped at \<open>now\<close> and loaded at \<open>now'\<close>: the remaining time is
  kept in whole milliseconds, and an entry with less than a millisecond left is dropped.
\<close>

definition reloaded :: "time \<Rightarrow> time \<Rightarrow> entry \<Rightarrow> entry option" where
  "reloaded now now' e =
     (case snd e of
        None \<Rightarrow> Some e
      | Some d \<Rightarrow>
          (let ms = (d - now) div ns_per_ms
           in if ms \<le> 0 then None else Some (fst e, Some (now' + ms * ns_per_ms))))"

definition ms_of :: "time \<Rightarrow> time option \<Rightarrow> int option" where
  "ms_of now deadline = map_option (\<lambda>d. (d - now) sdiv ns_per_ms) deadline"

definition ttl_fits :: "time \<Rightarrow> time option \<Rightarrow> bool" where
  "ttl_fits now deadline \<longleftrightarrow> (case deadline of None \<Rightarrow> True | Some d \<Rightarrow> int64_range ((d - now) sdiv ns_per_ms))"

lemma read_ttl_enc:
  "ttl_fits now deadline \<Longrightarrow>
   read_ttl (has_ttl (flags_byte deadline)) (write_ttl now deadline @ rest) =
     Some (ms_of now deadline, rest)"
  by (cases deadline)
    (auto simp: read_ttl_def has_ttl_def flags_byte_def FLAG_HAS_TTL_def write_ttl_def ttl_fits_def
      ms_of_def i64.dec_enc)

text \<open>The effect of one entry on the snapshot.\<close>

definition put_value :: "string \<Rightarrow> redis_value \<Rightarrow> DatabaseSnapshot \<Rightarrow> DatabaseSnapshot" where
  "put_value key v snap =
     (case v of
        VString s \<Rightarrow> snap\<lparr>snap_store := um_put key s (snap_store snap)\<rparr>
      | VList l \<Rightarrow> snap\<lparr>snap_list_store := um_put key l (snap_list_store snap)\<rparr>)"

definition put_entry :: "time \<Rightarrow> string \<Rightarrow> redis_value \<Rightarrow> int option \<Rightarrow> DatabaseSnapshot \<Rightarrow> DatabaseSnapshot" where
  "put_entry now key v ttl snap =
     (if (case ttl of None \<Rightarrow> False | Some ms \<Rightarrow> ms \<le> 0) then snap
      else let snap1 = put_value key v snap
           in snap1\<lparr>snap_expiry := put_deadline now key ttl (snap_expiry snap1)\<rparr>)"

fun value_fits :: "redis_value \<Rightarrow> bool" where
  "value_fits (VString s) = fits32 s"
| "value_fits (VList l) = (fits32 l \<and> list_all fits32 l)"

lemma unat_length32: "fits32 l \<Longrightarrow> unat (word_of_nat (length l) :: 32 word) = length l"
  by (simp add: fits32_def unat_of_nat take_bit_nat_eq_self)

lemma load_string_entry:
  assumes "fits32 key" and "fits32 val" and "ttl_fits now (um_find (snap_expiry snap) key)"
    and "\<not> snap_expired now snap key"
  shows "load_entry now' snap' (write_string_entry now snap (key, val) @ rest) =
    Some (put_entry now' key (VString val) (ms_of now (um_find (snap_expiry snap) key)) snap', rest)"
  using assms
  by (simp add: write_string_entry_def load_entry_def str.dec_enc read_ttl_enc put_entry_def
      put_value_def Let_def)

lemma load_list_entry:
  assumes "fits32 key" and "value_fits (VList l)"
    and "ttl_fits now (um_find (snap_expiry snap) key)" and "\<not> snap_expired now snap key"
  shows "load_entry now' snap' (write_list_entry now snap (key, l) @ rest) =
    Some (put_entry now' key (VList l) (ms_of now (um_find (snap_expiry snap) key)) snap', rest)"
  using assms
  by (simp add: write_list_entry_def load_entry_def str.dec_enc u32.dec_enc read_ttl_enc
      put_entry_def put_value_def Let_def unat_length32 str.decode_seq_concat
      TYPE_STRING_def TYPE_LIST_def)


text \<open>The live entries of a snapshot in the order they are written, and their bytes.\<close>

definition live_entries :: "time \<Rightarrow> DatabaseSnapshot \<Rightarrow> (string \<times> redis_value) list" where
  "live_entries now snap =
     map (map_prod id VString) (filter (\<lambda>e. \<not> snap_expired now snap (fst e)) (snap_store snap)) @
     map (map_prod id VList) (filter (\<lambda>e. \<not> snap_expired now snap (fst e)) (snap_list_store snap))"

fun entry_bytes :: "time \<Rightarrow> DatabaseSnapshot \<Rightarrow> string \<times> redis_value \<Rightarrow> string" where
  "entry_bytes now snap (key, VString val) = write_string_entry now snap (key, val)"
| "entry_bytes now snap (key, VList l) = write_list_entry now snap (key, l)"

lemma concat_filter_Nil: "(\<And>x. \<not> P x \<Longrightarrow> f x = []) \<Longrightarrow> concat (map f (filter P xs)) = concat (map f xs)"
  by (induction xs) auto

lemma dump_data_entries:
  "dump_data now snap = MAGIC @ write_uint32 (word_of_nat (length (live_entries now snap)))
     @ concat (map (entry_bytes now snap) (live_entries now snap))"
proof -
  have "concat (map (write_string_entry now snap) (snap_store snap)) =
      concat (map (entry_bytes now snap \<circ> map_prod id VString)
        (filter (\<lambda>e. \<not> snap_expired now snap (fst e)) (snap_store snap)))"
    by (subst concat_filter_Nil) (auto simp: write_string_entry_def intro!: arg_cong [of _ _ concat])
  moreover have "concat (map (write_list_entry now snap) (snap_list_store snap)) =
      concat (map (entry_bytes now snap \<circ> map_prod id VList)
        (filter (\<lambda>e. \<not> snap_expired now snap (fst e)) (snap_list_store snap)))"
    by (subst concat_filter_Nil) (auto simp: write_list_entry_def intro!: arg_cong [of _ _ concat])
  ultimately show ?thesis
    by (simp add: dump_data_def live_entries_def entry_count_def)
qed

definition entries_fit :: "time \<Rightarrow> DatabaseSnapshot \<Rightarrow> bool" where
  "entries_fit now snap \<longleftrightarrow> fits32 (live_entries now snap) \<and>
     (\<forall>(key, v) \<in> set (live_entries now snap). fits32 key \<and> value_fits v \<and>
        ttl_fits now (um_find (snap_expiry snap) key))"

definition restore :: "time \<Rightarrow> time \<Rightarrow> DatabaseSnapshot \<Rightarrow> string \<times> redis_value
    \<Rightarrow> DatabaseSnapshot \<Rightarrow> DatabaseSnapshot" where
  "restore now now' snap e =
     put_entry now' (fst e) (snd e) (ms_of now (um_find (snap_expiry snap) (fst e)))"

lemma load_entry_bytes:
  assumes "fits32 key" and "value_fits v" and "ttl_fits now (um_find (snap_expiry snap) key)"
    and "\<not> snap_expired now snap key"
  shows "load_entry now' snap' (entry_bytes now snap (key, v) @ rest) =
    Some (restore now now' snap (key, v) snap', rest)"
  using assms by (cases v) (simp_all add: load_string_entry load_list_entry restore_def)

lemma load_entries_bytes:
  assumes "\<forall>(key, v) \<in> set es. fits32 key \<and> value_fits v \<and>
    ttl_fits now (um_find (snap_expiry snap) key) \<and> \<not> snap_expired now snap key"
  shows "load_entries now' (length es) snap' (concat (map (entry_bytes now snap) es) @ rest) =
    Some (fold (restore now now' snap) es snap')"
  using assms by (induction es arbitrary: snap') (auto simp: load_entry_bytes)

text \<open>What the restored snapshot holds for a key.\<close>

definition kept :: "time \<Rightarrow> DatabaseSnapshot \<Rightarrow> string \<Rightarrow> bool" where
  "kept now snap key \<longleftrightarrow>
     (case ms_of now (um_find (snap_expiry snap) key) of None \<Rightarrow> True | Some ms \<Rightarrow> \<not> ms \<le> 0)"

definition kept_deadline :: "time \<Rightarrow> time \<Rightarrow> DatabaseSnapshot \<Rightarrow> string \<Rightarrow> time option" where
  "kept_deadline now now' snap key =
     map_option (\<lambda>ms. now' + ms * ns_per_ms) (ms_of now (um_find (snap_expiry snap) key))"

lemma restore_fields:
  "um_find (snap_store (restore now now' snap (k, v) s)) =
     (case v of VString val \<Rightarrow>
        if kept now snap k then (um_find (snap_store s))(k \<mapsto> val) else um_find (snap_store s)
      | VList l \<Rightarrow> um_find (snap_store s))"
  "um_find (snap_list_store (restore now now' snap (k, v) s)) =
     (case v of VList l \<Rightarrow>
        if kept now snap k then (um_find (snap_list_store s))(k \<mapsto> l)
        else um_find (snap_list_store s)
      | VString val \<Rightarrow> um_find (snap_list_store s))"
  "um_find (snap_expiry (restore now now' snap (k, v) s)) =
     (if kept now snap k \<and> kept_deadline now now' snap k \<noteq> None
      then (um_find (snap_expiry s))(k := kept_deadline now now' snap k)
      else um_find (snap_expiry s))"
  by (auto simp: restore_def put_entry_def put_value_def put_deadline_def kept_def
      kept_deadline_def Let_def split: option.splits redis_value.splits)

lemma restored_store:
  "distinct (map fst es) \<Longrightarrow>
   um_find (snap_store (fold (restore now now' snap) es s)) key =
      (case map_of es key of
         Some (VString val) \<Rightarrow> if kept now snap key then Some val else um_find (snap_store s) key
       | _ \<Rightarrow> um_find (snap_store s) key)"
proof (induction es arbitrary: s)
  case (Cons e es)
  obtain k v where e: "e = (k, v)" by force
  then have "map_of es k = None" using Cons.prems by (auto simp: map_of_eq_None_iff)
  then show ?case
    using Cons e by (cases "key = k") (auto simp: restore_fields split: redis_value.split option.split)
qed simp

lemma restored_list_store:
  "distinct (map fst es) \<Longrightarrow>
   um_find (snap_list_store (fold (restore now now' snap) es s)) key =
      (case map_of es key of
         Some (VList l) \<Rightarrow> if kept now snap key then Some l else um_find (snap_list_store s) key
       | _ \<Rightarrow> um_find (snap_list_store s) key)"
proof (induction es arbitrary: s)
  case (Cons e es)
  obtain k v where e: "e = (k, v)" by force
  then have "map_of es k = None" using Cons.prems by (auto simp: map_of_eq_None_iff)
  then show ?case
    using Cons e by (cases "key = k") (auto simp: restore_fields split: redis_value.split option.split)
qed simp

lemma restored_expiry:
  "distinct (map fst es) \<Longrightarrow> um_find (snap_expiry s) key = None \<Longrightarrow>
   um_find (snap_expiry (fold (restore now now' snap) es s)) key =
      (if map_of es key \<noteq> None \<and> kept now snap key then kept_deadline now now' snap key else None)"
proof (induction es arbitrary: s)
  case (Cons e es)
  obtain k v where e: "e = (k, v)" by force
  then have fresh: "map_of es k = None" using Cons.prems by (auto simp: map_of_eq_None_iff)
  have keep: "um_find (snap_expiry (fold (restore now now' snap) es t)) k = um_find (snap_expiry t) k" for t
    using fresh
    by (induction es arbitrary: t) (auto simp: restore_fields split: if_splits)
  show ?case
    using Cons e fresh keep by (cases "key = k") (auto simp: restore_fields)
qed simp

lemma snapshot_of [simp]:
  "snap_store (get_snapshot db) = store db" "snap_list_store (get_snapshot db) = list_store db"
  "snap_expiry (get_snapshot db) = expiry db"
  by (simp_all add: get_snapshot_def)

lemma map_of_filter_key:
  "map_of (filter (\<lambda>e. P (fst e)) m) k = (if P k then map_of m k else None)"
  by (induction m) auto

lemma map_of_map_prod: "map_of (map (map_prod id f) m) k = map_option f (map_of m k)"
  by (induction m) auto

lemma snap_expired_iff: "snap_expired now (get_snapshot db) key \<longleftrightarrow> is_expired_unlocked now key db"
  by (auto simp: snap_expired_def is_expired_unlocked_def split: option.split)

lemma map_of_live_entries:
  assumes "db_wf db"
  shows "map_of (live_entries now (get_snapshot db)) key = map_option fst (view now db key)"
proof -
  have eq: "map_of (live_entries now (get_snapshot db)) key =
     (if is_expired_unlocked now key db then None
      else case um_find (store db) key of
        Some v \<Rightarrow> Some (VString v) | None \<Rightarrow> map_option VList (um_find (list_store db) key))"
    unfolding live_entries_def map_of_append map_add_def map_of_map_prod
      map_of_filter_key [where P = "\<lambda>k. \<not> snap_expired now (get_snapshot db) k"]
    by (simp add: um_find_eq snap_expired_iff split: option.split)
  show ?thesis
    using assms by (cases rule: key_cases [of db now key]) (simp_all add: eq view_live)
qed

lemma distinct_filter_keys: "distinct (map fst m) \<Longrightarrow> distinct (map fst (filter P m))"
  by (induction m) auto

lemma distinct_live_entries:
  assumes "db_wf db"
  shows "distinct (map fst (live_entries now (get_snapshot db)))"
proof -
  have "fst ` set (store db) \<inter> fst ` set (list_store db) = {}"
    using assms by (simp add: db_wf_def um_find_eq dom_map_of_conv_image_fst)
  then show ?thesis
    using assms
    by (auto simp: live_entries_def db_wf_def um_wf_def um_keys_def intro!: distinct_filter_keys)
qed

lemma fold_restore_wf:
  "um_wf (snap_store s) \<Longrightarrow> um_wf (snap_list_store s) \<Longrightarrow> um_wf (snap_expiry s) \<Longrightarrow>
   um_wf (snap_store (fold (restore now now' snap) es s)) \<and>
   um_wf (snap_list_store (fold (restore now now' snap) es s)) \<and>
   um_wf (snap_expiry (fold (restore now now' snap) es s))"
proof (induction es arbitrary: s)
  case (Cons e es)
  have "um_wf (snap_store (restore now now' snap e s)) \<and> um_wf (snap_list_store (restore now now' snap e s))
      \<and> um_wf (snap_expiry (restore now now' snap e s))"
    using Cons.prems
    by (auto simp: restore_def put_entry_def put_value_def put_deadline_def Let_def
        split: option.split redis_value.split)
  then show ?case using Cons.IH by simp
qed simp

definition restored :: "time \<Rightarrow> time \<Rightarrow> database \<Rightarrow> DatabaseSnapshot" where
  "restored now now' db =
     fold (restore now now' (get_snapshot db)) (live_entries now (get_snapshot db)) empty_snapshot"

lemma kept_iff:
  "view now db key = Some (v, d) \<Longrightarrow>
   \<not> kept now (get_snapshot db) key \<Longrightarrow> reloaded now now' (v, d) = None"
  "view now db key = Some (v, d) \<Longrightarrow> kept now (get_snapshot db) key \<Longrightarrow>
   reloaded now now' (v, d) = Some (v, kept_deadline now now' (get_snapshot db) key)"
  by (auto simp: kept_def reloaded_def kept_deadline_def ms_of_def view_defs Let_def
      signed_divide_int_def sgn_if ns_per_ms_def split: option.splits if_splits dest: sym)

lemma restored_entry:
  assumes "db_wf db"
  shows "entry_of (load_snapshot (restored now now' db) db0) key =
    Option.bind (view now db key) (reloaded now now')"
proof (cases "view now db key")
  case None
  then show ?thesis
    by (simp add: entry_of_def load_snapshot_def restored_def restored_store restored_list_store
        distinct_live_entries assms map_of_live_entries empty_snapshot_def)
next
  case (Some e)
  then obtain v d where e: "view now db key = Some (v, d)" by (cases e) auto
  show ?thesis
    using kept_iff [OF e, of now'] e
    by (cases v; cases "kept now (get_snapshot db) key")
      (auto simp: entry_of_def load_snapshot_def restored_def restored_store restored_list_store
        restored_expiry distinct_live_entries assms map_of_live_entries empty_snapshot_def)
qed

lemma restored_wf:
  assumes "db_wf db"
  shows "db_wf (load_snapshot (restored now now' db) db0)"
proof -
  have wf: "um_wf (snap_store (restored now now' db)) \<and> um_wf (snap_list_store (restored now now' db))
      \<and> um_wf (snap_expiry (restored now now' db))"
    unfolding restored_def by (rule fold_restore_wf) (simp_all add: empty_snapshot_def)
  have "um_find (snap_store (restored now now' db)) k = None
      \<or> um_find (snap_list_store (restored now now' db)) k = None" for k
    by (simp add: restored_def restored_store restored_list_store distinct_live_entries assms
        empty_snapshot_def split: option.split redis_value.split)
  moreover have "um_find (snap_expiry (restored now now' db)) k \<noteq> None \<Longrightarrow>
      um_find (snap_store (restored now now' db)) k \<noteq> None
      \<or> um_find (snap_list_store (restored now now' db)) k \<noteq> None" for k
    by (simp add: restored_def restored_store restored_list_store restored_expiry
        distinct_live_entries assms empty_snapshot_def split: option.split redis_value.split if_splits)
      blast
  ultimately show ?thesis
    using wf unfolding db_wf_def load_snapshot_def
    by (auto simp: dom_def) (metis option.distinct(1))
qed

lemma reload_dump:
  assumes "db_wf db" and "entries_fit now (get_snapshot db)"
  shows "load_entries now' (unat (word_of_nat (length (live_entries now (get_snapshot db))) :: 32 word))
      empty_snapshot (concat (map (entry_bytes now (get_snapshot db)) (live_entries now (get_snapshot db)))
        @ rest) = Some (restored now now' db)"
proof -
  let ?es = "live_entries now (get_snapshot db)"
  have "unat (word_of_nat (length ?es) :: 32 word) = length ?es"
    using assms(2) by (simp add: entries_fit_def unat_length32)
  moreover have "\<forall>(key, v) \<in> set ?es. fits32 key \<and> value_fits v \<and>
      ttl_fits now (um_find (snap_expiry (get_snapshot db)) key) \<and> \<not> snap_expired now (get_snapshot db) key"
    using assms(2) by (auto simp: entries_fit_def live_entries_def)
  ultimately show ?thesis
    by (simp add: restored_def load_entries_bytes)
qed

lemma length_u32 [len_simps]: "length (write_uint32 w) = 4"
  by (simp add: write_uint32_def)

lemma length_MAGIC [len_simps]: "length MAGIC = 9"
  by (simp add: MAGIC_def)

definition dump_file :: "time \<Rightarrow> database \<Rightarrow> string" where
  "dump_file now db =
     (let data = dump_data now (get_snapshot db) in data @ write_uint32 (compute_crc32 data (length data)))"

lemma save_all_ok:
  "save all_ok now path db fs = (True, fs(path := Some (dump_file now db), path @ ''.tmp'' := None))"
  by (auto simp: save_def all_ok_def dump_file_def Let_def length_u32 fun_eq_iff)

lemma save_ops_dump:
  "save_ops now path db = (Truncate (path @ ''.tmp'') # map (Put (path @ ''.tmp'')) (dump_file now db))
     @ [Remove path, Rename (path @ ''.tmp'') path]"
  by (simp add: save_ops_def dump_file_def Let_def)

lemma foldl_puts:
  "fs p = Some s \<Longrightarrow> foldl file_effect fs (map (Put p) t) = fs(p := Some (s @ t))"
  by (induction t arbitrary: fs s) (auto simp: fun_upd_idem)

lemma split_before_two:
  assumes "xs @ ys = zs @ [a, b]"
  shows "(\<exists>n. xs = take n zs) \<and> ys \<noteq> [] \<or> xs = zs @ [a] \<and> ys \<noteq> [] \<or> xs = zs @ [a, b] \<and> ys = []"
  using assms
  by (auto simp: append_eq_append_conv2 Cons_eq_append_conv append_eq_Cons_conv intro: exI [where x = "length xs"])

lemma compute_crc32_prefix:
  "compute_crc32 (s @ t) (length s) = compute_crc32 s (length s)"
  by (simp add: compute_crc32_eq)

lemma load_dump_file:
  assumes "db_wf db" and "entries_fit now (get_snapshot db)" and "fs path = Some (dump_file now db)"
  shows "load True now' path db0 fs = (True, load_snapshot (restored now now' db) db0)"
proof -
  let ?data = "dump_data now (get_snapshot db)"
  let ?crc = "write_uint32 (compute_crc32 ?data (length ?data))"
  have len: "9 + 4 \<le> length ?data"
    by (simp add: dump_data_def len_simps)
  have stored: "read_uint32 ?crc = Some (compute_crc32 ?data (length ?data), [])"
    using u32.dec_enc [of "compute_crc32 ?data (length ?data)" "[]"] by simp
  have magic: "take 9 (?data @ ?crc) = MAGIC"
    by (simp add: dump_data_def len_simps)
  have "drop 9 (?data @ ?crc) = write_uint32 (word_of_nat (length (live_entries now (get_snapshot db))))
      @ concat (map (entry_bytes now (get_snapshot db)) (live_entries now (get_snapshot db))) @ ?crc"
    by (simp add: dump_data_entries len_simps)
  then have "read_uint32 (drop 9 (?data @ ?crc)) =
      Some (word_of_nat (length (live_entries now (get_snapshot db))),
        concat (map (entry_bytes now (get_snapshot db)) (live_entries now (get_snapshot db))) @ ?crc)"
    by (simp only: u32.dec_enc)
  then show ?thesis
    using assms len magic
    by (simp add: load_def dump_file_def Let_def length_u32 compute_crc32_prefix stored reload_dump)
qed

lemma bit_byte_val: "bit (byte_val c :: 'a::len word) n \<Longrightarrow> n < 8"
proof -
  assume "bit (byte_val c :: 'a word) n"
  then have "bit (of_char c :: nat) n" by (simp add: byte_val_def bit_simps)
  moreover have "(of_char c :: nat) = take_bit 8 (of_char c)"
    by (simp add: take_bit_nat_eq_self)
  ultimately show "n < 8" by (metis bit_take_bit_iff)
qed

lemma char_of_byte_val: "char_of (unat (byte_val c :: 32 word)) = c"
proof -
  have "(of_char c :: nat) < 2 ^ 32"
    using less_trans [of "of_char c" 256 "2 ^ 32 :: nat"] by simp
  then show ?thesis by (simp add: byte_val_def unat_of_nat)
qed

lemma bit_shifted:
  "bit (push_bit k x :: 32 word) n \<longleftrightarrow> k \<le> n \<and> n < 32 \<and> bit x (n - k)"
  by (auto simp: bit_simps)

text \<open>Four bytes are determined by the number they encode.\<close>

lemma write_read_uint32:
  "write_uint32 (push_bit 24 (byte_val b0) OR push_bit 16 (byte_val b1) OR push_bit 8 (byte_val b2)
     OR byte_val b3) = [b0, b1, b2, b3]"
proof -
  let ?w = "push_bit 24 (byte_val b0) OR push_bit 16 (byte_val b1) OR push_bit 8 (byte_val b2)
    OR byte_val b3 :: 32 word"
  note b = bit_byte_val [of _ _, where 'a = 32]
  have "take_bit 8 (drop_bit 24 ?w) = byte_val b0" "take_bit 8 (drop_bit 16 ?w) = byte_val b1"
    "take_bit 8 (drop_bit 8 ?w) = byte_val b2" "take_bit 8 (drop_bit 0 ?w) = byte_val b3"
    by (rule bit_word_eqI; auto simp: bit_take_bit_iff bit_drop_bit_eq bit_or_iff bit_shifted dest: b)+
  then show ?thesis
    by (simp add: write_uint32_def byte_at_def and_255 char_of_byte_val del: drop_bit_0)
qed

lemma read_uint32_inj:
  assumes "length b = 4" and "length c = 4" and "read_uint32 b = Some (w, r)" and "read_uint32 c = Some (w, r')"
  shows "b = c"
proof -
  have "write_uint32 w = x" if x: "length x = 4" "read_uint32 x = Some (w, q)" for x q
  proof -
    obtain b0 b1 b2 b3 where bytes: "x = [b0, b1, b2, b3]"
      using x(1) by (auto simp: eval_nat_numeral length_Suc_conv)
    from x(2) have w: "push_bit 24 (byte_val b0) OR push_bit 16 (byte_val b1)
        OR push_bit 8 (byte_val b2) OR byte_val b3 = w"
      by (simp only: bytes read_uint32_def list.case option.inject prod.inject)
    show ?thesis using write_read_uint32 [of b0 b1 b2 b3] unfolding w bytes .
  qed
  then show ?thesis using assms by metis
qed

lemma dump_file_length: "9 + 4 + 4 \<le> length (dump_file now db)"
  by (simp add: dump_file_def Let_def dump_data_def len_simps)

text \<open>A file is accepted only if its last four bytes are the checksum of the rest.\<close>

lemma load_checks_crc:
  assumes "fs path = Some (data @ crc)" and "length crc = 4"
    and "read_uint32 crc \<noteq> Some (compute_crc32 data (length data), [])"
  shows "load True now' path db0 fs = (False, db0)"
proof -
  obtain w where "read_uint32 crc = Some (w, [])"
    using assms(2) by (auto simp: read_uint32_def eval_nat_numeral length_Suc_conv)
  then show ?thesis
    using assms by (auto simp: load_def Let_def compute_crc32_prefix)
qed

lemma load_rejects_change:
  assumes dump: "dump_file now db = p @ c # s" and "d \<noteq> c" and fs: "fs path = Some (p @ d # s)"
  shows "load True now' path db0 fs = (False, db0)"
proof -
  let ?data = "dump_data now (get_snapshot db)"
  let ?crc = "write_uint32 (compute_crc32 ?data (length ?data))"
  have dec: "read_uint32 ?crc = Some (compute_crc32 ?data (length ?data), [])"
    using u32.dec_enc [of "compute_crc32 ?data (length ?data)" "[]"] by simp
  have eq: "?data @ ?crc = p @ c # s" using dump by (simp add: dump_file_def Let_def)
  show ?thesis
  proof (cases "length p < length ?data")
    case True
    then obtain us where us: "?data = p @ us" "c # s = us @ ?crc"
      using eq by (auto simp: append_eq_append_conv2 append_eq_Cons_conv Cons_eq_append_conv)
    then obtain s1 where s1: "?data = p @ c # s1" "s = s1 @ ?crc"
      using True by (cases us) auto
    have "fs path = Some ((p @ d # s1) @ ?crc)" using fs s1 by simp
    moreover have "read_uint32 ?crc \<noteq> Some (compute_crc32 (p @ d # s1) (length (p @ d # s1)), [])"
      using crc_detects_byte [of c d p s1] dec s1(1) assms(2) by auto
    ultimately show ?thesis
      by (rule load_checks_crc [OF _ length_u32])
  next
    case False
    then obtain us where us: "p = ?data @ us" "?crc = us @ c # s"
      using eq by (auto simp: append_eq_append_conv2)
    have "length (us @ d # s) = 4" "length (us @ c # s) = 4" "us @ d # s \<noteq> us @ c # s"
      using us(2) length_u32 [of "compute_crc32 ?data (length ?data)"] assms(2) by auto
    then have "read_uint32 (us @ d # s) \<noteq> Some (compute_crc32 ?data (length ?data), [])"
      using dec us(2) read_uint32_inj by metis
    then show ?thesis
      using fs us(1) \<open>length (us @ d # s) = 4\<close> by (intro load_checks_crc) simp_all
  qed
qed

lemma um_wf_load_entry:
  assumes "load_entry now snap s = Some (snap', s')"
    and "um_wf (snap_store snap)" and "um_wf (snap_list_store snap)" and "um_wf (snap_expiry snap)"
  shows "um_wf (snap_store snap') \<and> um_wf (snap_list_store snap') \<and> um_wf (snap_expiry snap')"
  using assms
  by (auto simp: load_entry_def put_deadline_def split: list.splits option.splits if_splits)

lemma um_wf_load_entries:
  "load_entries now n snap s = Some snap' \<Longrightarrow>
   um_wf (snap_store snap) \<Longrightarrow> um_wf (snap_list_store snap) \<Longrightarrow> um_wf (snap_expiry snap) \<Longrightarrow>
   um_wf (snap_store snap') \<and> um_wf (snap_list_store snap') \<and> um_wf (snap_expiry snap')"
proof (induction n arbitrary: snap s)
  case (Suc n)
  then obtain s1 r where step: "load_entry now snap s = Some (s1, r)" "load_entries now n s1 r = Some snap'"
    by (auto split: option.splits)
  show ?case
    using Suc.IH [OF step(2)] um_wf_load_entry [OF step(1) Suc.prems(2-4)] by blast
qed simp

text \<open>The checksum by evaluation, one bit at a time.\<close>

lemma crc_bit_numeral:
  "crc_bit (numeral w) =
     (if numeral w AND (1 :: 32 word) = 0 then numeral w div 2 else (numeral w div 2) XOR 0xEDB88320)"
  by (simp add: crc_bit_def crc_poly_def drop_bit_eq_div)

lemma crc_byte_steps:
  "crc_byte crc c = crc_bit (crc_bit (crc_bit (crc_bit (crc_bit (crc_bit (crc_bit (crc_bit (crc XOR byte_word c))))))))"
  by (simp add: crc_byte_bitwise eval_nat_numeral)

lemma crc32_check: "compute_crc32 ''123456789'' 9 = 0xCBF43926"
  by (simp add: compute_crc32_eq crc_byte_steps crc_bit_numeral byte_word_def)

section \<open>Properties\<close>

text \<open>
  C14. A dump written by \<open>save\<close> is read back by \<open>load\<close>: exactly the entries live at the time of the
  save come back, with their values, without a deadline if they had none and otherwise with their
  remaining time in whole milliseconds, counted from the load. The database read back is
  well-formed. Every length and count is assumed to fit the 32 bits it is stored in, and every
  remaining time the 64 bits.
\<close>

theorem save_load_roundtrip:
  assumes "db_wf db" and "entries_fit now (get_snapshot db)"
    and "fs' = snd (save all_ok now path db fs)"
  shows "fst (save all_ok now path db fs) \<and> fst (load True now' path db0 fs') \<and>
    db_wf (snd (load True now' path db0 fs')) \<and>
    entry_of (snd (load True now' path db0 fs')) key = Option.bind (view now db key) (reloaded now now')"
proof -
  have "fs' path = Some (dump_file now db)" by (simp add: assms(3) save_all_ok)
  then show ?thesis
    using load_dump_file [OF assms(1,2)] restored_entry [OF assms(1)] restored_wf [OF assms(1)]
    by (simp add: save_all_ok)
qed

theorem save_load_roundtrip_witness:
  "entry_of (snd (load True 90 ''d'' new_database
     (snd (save all_ok 50 ''d'' (db_set ''k'' ''v'' new_database) (\<lambda>_. None))))) ''k'' =
   Some (VString ''v'', None)"
proof -
  let ?db = "db_set ''k'' ''v'' new_database"
  have "entries_fit 50 (get_snapshot ?db)"
    by (simp add: entries_fit_def live_entries_def db_set_def new_database_def snap_expired_def
        fits32_def um_put_def ttl_fits_def)
  then show ?thesis
    using save_load_roundtrip [OF db_wf_set [OF db_wf_new] _ refl, of 50 "''k''" "''v''" "''d''"
        "\<lambda>_. None" 90 new_database "''k''"]
    by (simp add: view_set reloaded_def)
qed

text \<open>
  C15. A dump in which any single byte was changed, in the data or in the checksum, is rejected and
  the database is left as it was.
\<close>

theorem load_rejects_corrupt_byte:
  assumes "dump_file now db = p @ c # s" and "d \<noteq> c" and "fs path = Some (p @ d # s)"
  shows "load True now' path db0 fs = (False, db0)"
  by (rule load_rejects_change [where fs = fs and path = path, OF assms])

theorem load_rejects_corrupt_byte_witness:
  "load True 9 ''d'' new_database (\<lambda>_. Some (CHR ''X'' # tl (dump_file 0 new_database))) =
     (False, new_database)"
proof -
  have "dump_file 0 new_database = [] @ CHR ''M'' # tl (dump_file 0 new_database)"
    by (simp add: dump_file_def Let_def dump_data_def MAGIC_def)
  from load_rejects_corrupt_byte [OF this, of "CHR ''X''"] show ?thesis by simp
qed

text \<open>
  C34. The table-driven checksum, computed in chunks, is the bitwise reflected CRC32 with polynomial
  \<open>0xEDB88320\<close> of the first \<open>n\<close> bytes of the file, and it has the check value that the catalogues give for CRC-32.
\<close>

theorem compute_crc32_bitwise:
  "compute_crc32 bytes n = NOT (foldl (\<lambda>crc b.
     ((\<lambda>c. if odd c then drop_bit 1 c XOR 0xEDB88320 else drop_bit 1 c) ^^ 8) (crc XOR byte_word b)) 0xFFFFFFFF (take n bytes))
   \<and> compute_crc32 ''123456789'' 9 = 0xCBF43926"
proof -
  have "x XOR 0xFFFFFFFF = NOT x" for x :: "32 word"
  proof -
    have "(0xFFFFFFFF :: 32 word) = -1" by simp
    then show ?thesis by (simp only: bit.xor_one_right)
  qed
  moreover have "crc_bit = (\<lambda>c. if odd c then drop_bit 1 c XOR 0xEDB88320 else drop_bit 1 c)"
    by (simp add: fun_eq_iff crc_bit_def crc_poly_def and_one_eq odd_iff_mod_2_eq_one)
  then have "crc_byte = (\<lambda>crc b. ((\<lambda>c. if odd c then drop_bit 1 c XOR 0xEDB88320 else drop_bit 1 c) ^^ 8)
      (crc XOR byte_word b))"
    using crc_byte_bitwise by (simp only:) blast
  ultimately show ?thesis using crc32_check by (simp add: compute_crc32_eq)
qed

text \<open>
  A \<open>load\<close> either fails and leaves the database alone, or succeeds and replaces its three maps at
  once by maps with distinct keys.
\<close>

lemma load_all_or_nothing:
  "load crc_open now path db fs = (False, db) \<or>
   (\<exists>snap. load crc_open now path db fs = (True, load_snapshot snap db) \<and>
      um_wf (snap_store snap) \<and> um_wf (snap_list_store snap) \<and> um_wf (snap_expiry snap))"
  using um_wf_load_entries [where snap = empty_snapshot]
  by (auto simp: load_def Let_def empty_snapshot_def split: option.split)

text \<open>
  C17. What \<open>save\<close> does to the files for every outcome of its system calls: it returns true exactly
  if every checked call succeeds; it touches only the dump and the temporary file; the temporary file is gone
  after a success, and after a failure as well unless its removal failed, in which case it stays; the dump is the
  new one after a success with the checksum written, whether or not the old one could be removed. On a
  failure the dump is what it was, unless the rename failed after the old dump was removed: then there is none.
\<close>

theorem save_outcomes:
  assumes run: "save io now path db fs = (ok, fs')"
  shows "(ok \<longleftrightarrow> open_ok io \<and> write_ok io \<and> reopen_ok io \<and> append_ok io \<and> rename_ok io) \<and>
     (\<forall>p. p \<noteq> path \<longrightarrow> p \<noteq> path @ ''.tmp'' \<longrightarrow> fs' p = fs p) \<and>
     (if \<not> open_ok io then fs' (path @ ''.tmp'') = fs (path @ ''.tmp'')
      else fs' (path @ ''.tmp'') = None \<longleftrightarrow> ok \<or> remove_tmp_ok io) \<and>
     (ok \<and> crc_open_ok io \<and> 4 \<le> crc_written io \<longrightarrow> fs' path = Some (dump_file now db)) \<and>
     (\<not> ok \<longrightarrow>
        fs' path = (if open_ok io \<and> write_ok io \<and> reopen_ok io \<and> append_ok io \<and> remove_old_ok io then None else fs path))"
  using run by (auto simp: save_def Let_def dump_file_def length_u32 split: if_splits)

theorem save_outcomes_witness:
  "\<exists>fs'. save (all_ok\<lparr>rename_ok := False, remove_tmp_ok := False\<rparr>) 0 ''d'' new_database (\<lambda>p. Some ''old'') = (False, fs')
     \<and> fs' ''d'' = None \<and> fs' ''d.tmp'' \<noteq> None \<and> fs' ''e'' = Some ''old''"
proof -
  obtain ok fs' where run: "save (all_ok\<lparr>rename_ok := False, remove_tmp_ok := False\<rparr>) 0 ''d'' new_database
      (\<lambda>p. Some ''old'') = (ok, fs')"
    by force
  show ?thesis
    using run save_outcomes [OF run] by (auto simp: all_ok_def)
qed

text \<open>
  C16. A crash at any point of a \<open>save\<close> whose calls all succeed, in the middle of a write included: the
  file of the dump is the old one or the complete new one, or it is missing and the temporary file
  is the complete new dump; no other file is touched. A run to the end is \<open>save\<close>.
\<close>

theorem save_crash_points:
  assumes cut: "save_ops now path db = before @ left" and state: "foldl file_effect fs before = fs'"
  shows "(fs' path = fs path \<or> fs' path = Some (dump_file now db) \<or>
      fs' path = None \<and> fs' (path @ ''.tmp'') = Some (dump_file now db)) \<and>
     (\<forall>p. p \<noteq> path \<longrightarrow> p \<noteq> path @ ''.tmp'' \<longrightarrow> fs' p = fs p) \<and>
     (left = [] \<longrightarrow> save all_ok now path db fs = (True, fs'))"
proof -
  let ?puts = "Truncate (path @ ''.tmp'') # map (Put (path @ ''.tmp'')) (dump_file now db)"
  have ops: "before @ left = ?puts @ [Remove path, Rename (path @ ''.tmp'') path]"
    using cut by (simp add: save_ops_dump)
  consider (puts) n where "before = take n ?puts" "left \<noteq> []" | (removed) "before = ?puts @ [Remove path]" "left \<noteq> []"
    | (all) "before = ?puts @ [Remove path, Rename (path @ ''.tmp'') path]" "left = []"
    using split_before_two [OF ops] by blast
  then show ?thesis
  proof cases
    case puts
    then show ?thesis
      using state by (cases n) (auto simp: take_map foldl_puts)
  next
    case removed
    then show ?thesis
      using state by (auto simp: foldl_puts)
  next
    case all
    then show ?thesis
      unfolding state [symmetric] by (auto simp: foldl_puts save_all_ok fun_eq_iff)
  qed
qed

theorem save_crash_points_witness:
  "let ops = take (length (save_ops 0 ''d'' new_database) - 1) (save_ops 0 ''d'' new_database);
       fs' = foldl file_effect (\<lambda>p. Some ''old'') ops
   in fs' ''d'' = None \<and> fs' ''d.tmp'' = Some (dump_file 0 new_database) \<and> fs' ''e'' = Some ''old''"
proof -
  let ?ops = "save_ops 0 ''d'' new_database"
  have cut: "?ops = take (length ?ops - 1) ?ops @ drop (length ?ops - 1) ?ops" by simp
  have "foldl file_effect (\<lambda>p. Some ''old'') (take (length ?ops - 1) ?ops) ''d'' = None"
    by (simp add: save_ops_dump foldl_puts)
  moreover have "dump_file 0 new_database \<noteq> ''old''"
    by (simp add: dump_file_def dump_data_def Let_def MAGIC_def)
  ultimately show ?thesis
    using save_crash_points [OF cut refl, of "\<lambda>p. Some ''old''"] by (simp add: Let_def)
qed

end
