(* ===== verification/Commands.thy ===== *)
theory Commands
  imports Keyspace PubSub Persistence
begin

text \<open>
  The command handler of \<open>include/commands/command_handler.h\<close> and
  \<open>src/commands/command_handler.cpp\<close>: one function per handler, the routing of a command to its
  handler, and the transaction state (\<open>MULTI\<close>, \<open>EXEC\<close>, \<open>DISCARD\<close>, \<open>WATCH\<close>). Replies are the textual
  replies of the code, which the server passes to the serializer.
\<close>

section \<open>What a handler acts on\<close>

text \<open>The objects the handler holds references to, the file system and the network.\<close>

record 'w env =
  env_db :: database
  env_ps :: PubSubManager
  env_fs :: files
  env_net :: 'w

text \<open>
  The operating system: writing to and closing a socket, the clock readings and the outcomes of the
  file operations of a \<open>SAVE\<close>, the latter two by the path of call sites and loop iterations, see \<^const>\<open>sub_clock\<close>,
  and the conversions between addresses and texts, \<open>inet_pton\<close> and \<open>inet_ntop\<close>.
\<close>

record 'w os =
  os_write :: "'w socket_write"
  os_close :: "socket_t \<Rightarrow> 'w \<Rightarrow> 'w"
  os_clock :: clock
  os_save :: "nat list \<Rightarrow> save_io"
  os_pton :: "string \<Rightarrow> 32 word option"
  os_ntop :: "32 word \<Rightarrow> string"

definition sub_os :: "'w os \<Rightarrow> nat \<Rightarrow> 'w os" where
  "sub_os os i = os\<lparr>os_clock := sub_clock (os_clock os) i, os_save := (\<lambda>p. os_save os (i # p))\<rparr>"

text \<open>What \<open>INFO\<close> asks the server for.\<close>

record server_info =
  info_start_time :: time
  info_client_count :: nat

record WatchedKeySnapshot =
  wks_key :: string
  wks_existed :: bool
  wks_string_value :: "string option"
  wks_list_size :: int

record CommandHandler =
  client_fd :: socket_t
  server_ref :: "server_info option"
  in_multi :: bool
  tx_queue :: "Command list"
  watched_keys :: "string list"
  watch_dirty :: bool
  watch_snapshots :: "WatchedKeySnapshot list"

definition new_handler :: "socket_t \<Rightarrow> CommandHandler" where
  "new_handler fd = \<lparr>client_fd = fd, server_ref = None, in_multi = False, tx_queue = [],
     watched_keys = [], watch_dirty = False, watch_snapshots = []\<rparr>"

definition set_server :: "server_info \<Rightarrow> CommandHandler \<Rightarrow> CommandHandler" where
  "set_server info h = h\<lparr>server_ref := Some info\<rparr>"

definition in_subscription_mode :: "CommandHandler \<Rightarrow> 'w env \<Rightarrow> bool" where
  "in_subscription_mode h e = is_subscribed (client_fd h) (env_ps e)"

definition in_transaction :: "CommandHandler \<Rightarrow> bool" where
  "in_transaction h = in_multi h"

section \<open>Texts\<close>

definition WRONGTYPE_ERR :: string where
  "WRONGTYPE_ERR = ''WRONGTYPE Operation against a key holding the wrong kind of value''"

definition wrong_args :: "string \<Rightarrow> string" where
  "wrong_args name = ''ERR wrong number of arguments for '' @ [SQ] @ name @ [SQ] @ '' command''"

definition not_integer :: string where
  "not_integer = ''ERR value is not an integer or out of range''"

definition integer_text :: "int \<Rightarrow> string" where
  "integer_text i = ''(integer) '' @ show_int i"

definition quoted :: "string \<Rightarrow> string" where
  "quoted s = DQ # s @ [DQ]"

definition nil_or_quoted :: "string option \<Rightarrow> string" where
  "nil_or_quoted val = (case val of None \<Rightarrow> ''(nil)'' | Some v \<Rightarrow> quoted v)"

text \<open>Lines with a newline between them, and none after the last.\<close>

fun join_lines :: "string list \<Rightarrow> string" where
  "join_lines [] = []"
| "join_lines [l] = l"
| "join_lines (l # l' # ls) = l @ LF # join_lines (l' # ls)"

definition numbered :: "string list \<Rightarrow> string" where
  "numbered xs = join_lines (map (\<lambda>(i, x). show_nat (i + 1) @ '') '' @ x) (enumerate 0 xs))"

section \<open>String and key commands\<close>

definition handle_ping :: "string list \<Rightarrow> string" where
  "handle_ping args = (if args = [] then ''PONG'' else args ! 0)"

definition handle_set :: "clock \<Rightarrow> string list \<Rightarrow> database \<Rightarrow> string \<times> database" where
  "handle_set c args db =
     (if length args < 2 then (wrong_args ''SET'', db)
      else let db1 = db_set (args ! 0) (args ! 1) db
           in if length args \<ge> 4 \<and> upper (args ! 2) = ''EX'' then
                (case stoi (args ! 3) of
                   None \<Rightarrow> (not_integer, db1)
                 | Some seconds \<Rightarrow>
                     (if seconds \<le> 0 then
                        (''ERR invalid expire time in '' @ [SQ] @ ''SET'' @ [SQ] @ '' command'', db1)
                      else (''OK'', snd (db_expire c (args ! 0) seconds db1))))
              else (''OK'', db1))"

definition handle_get :: "clock \<Rightarrow> string list \<Rightarrow> database \<Rightarrow> string \<times> database" where
  "handle_get c args db =
     (if length args \<noteq> 1 then (wrong_args ''GET'', db)
      else map_prod nil_or_quoted id (db_get (c []) (args ! 0) db))"

definition handle_del :: "string list \<Rightarrow> database \<Rightarrow> string \<times> database" where
  "handle_del args db =
     (if args = [] then (wrong_args ''DEL'', db) else map_prod integer_text id (db_del args db))"

definition handle_exists :: "clock \<Rightarrow> string list \<Rightarrow> database \<Rightarrow> string \<times> database" where
  "handle_exists c args db =
     (if args = [] then (wrong_args ''EXISTS'', db) else map_prod integer_text id (db_exists c args db))"

definition list_reply :: "string list \<Rightarrow> string" where
  "list_reply xs = (if xs = [] then ''(empty list)'' else numbered (map quoted xs))"

definition handle_keys :: "clock \<Rightarrow> database \<Rightarrow> string \<times> database" where
  "handle_keys c db = map_prod list_reply id (db_keys c db)"

definition handle_dbsize :: "clock \<Rightarrow> database \<Rightarrow> string \<times> database" where
  "handle_dbsize c db = map_prod (\<lambda>n. ''(integer) '' @ show_nat n) id (db_dbsize c db)"

definition handle_flushdb :: "database \<Rightarrow> string \<times> database" where
  "handle_flushdb db = (''OK'', db_flushdb db)"

definition handle_expire :: "clock \<Rightarrow> string list \<Rightarrow> database \<Rightarrow> string \<times> database" where
  "handle_expire c args db =
     (if length args \<noteq> 2 then (wrong_args ''EXPIRE'', db)
      else case stoi (args ! 1) of
        None \<Rightarrow> (not_integer, db)
      | Some seconds \<Rightarrow>
          (if seconds \<le> 0 then
             (''ERR invalid expire time in '' @ [SQ] @ ''EXPIRE'' @ [SQ] @ '' command'', db)
           else map_prod (\<lambda>r. ''(integer) '' @ (if r then ''1'' else ''0'')) id
             (db_expire c (args ! 0) seconds db)))"

definition handle_ttl :: "clock \<Rightarrow> string list \<Rightarrow> database \<Rightarrow> string \<times> database" where
  "handle_ttl c args db =
     (if length args \<noteq> 1 then (wrong_args ''TTL'', db)
      else map_prod integer_text id (db_ttl c (args ! 0) db))"

definition handle_persist :: "clock \<Rightarrow> string list \<Rightarrow> database \<Rightarrow> string \<times> database" where
  "handle_persist c args db =
     (if length args \<noteq> 1 then (wrong_args ''PERSIST'', db)
      else map_prod (\<lambda>r. ''(integer) '' @ (if r then ''1'' else ''0'')) id
        (db_persist (c []) (args ! 0) db))"

definition handle_save :: "'w os \<Rightarrow> 'w env \<Rightarrow> string \<times> 'w env" where
  "handle_save os e =
     (let (ok, fs) = save (os_save os []) (os_clock os []) ''dump.mrdb'' (env_db e) (env_fs e)
      in (if ok then ''OK'' else ''ERR failed to save database'', e\<lparr>env_fs := fs\<rparr>))"

section \<open>List commands\<close>

definition push_reply :: "int \<Rightarrow> string" where
  "push_reply result = (if result = -1 then WRONGTYPE_ERR else integer_text result)"

definition handle_lpush :: "clock \<Rightarrow> string list \<Rightarrow> database \<Rightarrow> string \<times> database" where
  "handle_lpush c args db =
     (if length args < 2 then (wrong_args ''LPUSH'', db)
      else map_prod push_reply id (db_lpush (c []) (args ! 0) (drop 1 args) db))"

definition handle_rpush :: "clock \<Rightarrow> string list \<Rightarrow> database \<Rightarrow> string \<times> database" where
  "handle_rpush c args db =
     (if length args < 2 then (wrong_args ''RPUSH'', db)
      else map_prod push_reply id (db_rpush (c []) (args ! 0) (drop 1 args) db))"

definition handle_lpop :: "clock \<Rightarrow> string list \<Rightarrow> database \<Rightarrow> string \<times> database" where
  "handle_lpop c args db =
     (if length args \<noteq> 1 then (wrong_args ''LPOP'', db)
      else map_prod nil_or_quoted id (db_lpop (c []) (args ! 0) db))"

definition handle_rpop :: "clock \<Rightarrow> string list \<Rightarrow> database \<Rightarrow> string \<times> database" where
  "handle_rpop c args db =
     (if length args \<noteq> 1 then (wrong_args ''RPOP'', db)
      else map_prod nil_or_quoted id (db_rpop (c []) (args ! 0) db))"

definition handle_lrange :: "clock \<Rightarrow> string list \<Rightarrow> database \<Rightarrow> string \<times> database" where
  "handle_lrange c args db =
     (if length args \<noteq> 3 then (wrong_args ''LRANGE'', db)
      else case (stoi (args ! 1), stoi (args ! 2)) of
        (Some start, Some stop) \<Rightarrow>
          map_prod list_reply id (db_lrange (c []) (args ! 0) start stop db)
      | _ \<Rightarrow> (not_integer, db))"

definition handle_llen :: "clock \<Rightarrow> string list \<Rightarrow> database \<Rightarrow> string \<times> database" where
  "handle_llen c args db =
     (if length args \<noteq> 1 then (wrong_args ''LLEN'', db)
      else map_prod push_reply id (db_llen (c []) (args ! 0) db))"

definition handle_lindex :: "clock \<Rightarrow> string list \<Rightarrow> database \<Rightarrow> string \<times> database" where
  "handle_lindex c args db =
     (if length args \<noteq> 2 then (wrong_args ''LINDEX'', db)
      else case stoi (args ! 1) of
        None \<Rightarrow> (not_integer, db)
      | Some index \<Rightarrow> map_prod nil_or_quoted id (db_lindex (c []) (args ! 0) index db))"

section \<open>Publish and subscribe\<close>

definition sub_line :: "string \<Rightarrow> string \<times> int \<Rightarrow> string" where
  "sub_line word r = word @ '' '' @ fst r @ '' '' @ show_int (snd r)"

definition handle_subscribe :: "socket_t \<Rightarrow> string list \<Rightarrow> PubSubManager \<Rightarrow> string \<times> PubSubManager" where
  "handle_subscribe fd args ps =
     (if args = [] then (wrong_args ''SUBSCRIBE'', ps)
      else map_prod (\<lambda>rs. join_lines (map (sub_line ''subscribe'') rs)) id (subscribe fd args ps))"

definition handle_unsubscribe :: "socket_t \<Rightarrow> string list \<Rightarrow> PubSubManager \<Rightarrow> string \<times> PubSubManager" where
  "handle_unsubscribe fd args ps =
     map_prod (\<lambda>rs. join_lines (map (sub_line ''unsubscribe'') rs)) id (unsubscribe fd args ps)"

definition handle_publish :: "'w os \<Rightarrow> string list \<Rightarrow> 'w env \<Rightarrow> string \<times> 'w env" where
  "handle_publish os args e =
     (if length args \<noteq> 2 then (wrong_args ''PUBLISH'', e)
      else let (receivers, ps, w) = publish (os_write os) (args ! 0) (args ! 1) (env_ps e) (env_net e)
           in (integer_text receivers, e\<lparr>env_ps := ps, env_net := w\<rparr>))"

section \<open>Configuration and information\<close>

definition handle_config :: "string list \<Rightarrow> string" where
  "handle_config args =
     (if args = [] then wrong_args ''CONFIG''
      else let subcmd = upper (args ! 0)
           in if subcmd = ''GET'' then
                (if length args \<noteq> 2 then wrong_args ''CONFIG GET''
                 else let param = args ! 1
                      in if param \<in> set [''save'', ''port'', ''bind'', ''requirepass'', ''loglevel'', ''maxmemory'']
                         then ''1) '' @ [DQ] @ param @ [DQ] @ [LF] @ ''2) '' @ [DQ, DQ]
                         else ''(empty list)'')
              else if subcmd = ''SET'' then
                (if length args \<noteq> 3 then wrong_args ''CONFIG SET'' else ''OK'')
              else ''ERR Unknown subcommand '' @ [SQ] @ subcmd @ [SQ])"

definition info_server :: "time \<Rightarrow> server_info option \<Rightarrow> string" where
  "info_server now server =
     (case server of
        None \<Rightarrow> []
      | Some info \<Rightarrow>
          (let uptime = (now - info_start_time info) sdiv ns_per_sec
           in ''uptime_in_seconds:'' @ show_int uptime @ [LF] @
              ''uptime_in_days:'' @ show_int (uptime sdiv 86400) @ [LF] @
              [LF] @ ''# Clients'' @ [LF] @
              ''connected_clients:'' @ show_nat (info_client_count info) @ [LF]))"

definition handle_info :: "clock \<Rightarrow> server_info option \<Rightarrow> database \<Rightarrow> string \<times> database" where
  "handle_info c server db =
     (let (n, db1) = db_dbsize (sub_clock c 1) db
      in (''# Server'' @ [LF] @ ''myredis_version:1.0.0'' @ [LF] @ ''tcp_port:6399'' @ [LF] @
          info_server (c [0]) server @
          [LF] @ ''# Keyspace'' @ [LF] @ ''db0:keys='' @ show_nat n @ [LF], db1))"

section \<open>Routing\<close>

definition on_db :: "(database \<Rightarrow> string \<times> database) \<Rightarrow> 'w env \<Rightarrow> string \<times> 'w env" where
  "on_db f e = (let (r, db) = f (env_db e) in (r, e\<lparr>env_db := db\<rparr>))"

definition on_ps :: "(PubSubManager \<Rightarrow> string \<times> PubSubManager) \<Rightarrow> 'w env \<Rightarrow> string \<times> 'w env" where
  "on_ps f e = (let (r, ps) = f (env_ps e) in (r, e\<lparr>env_ps := ps\<rparr>))"

definition execute_single :: "'w os \<Rightarrow> CommandHandler \<Rightarrow> Command \<Rightarrow> 'w env \<Rightarrow> string \<times> 'w env" where
  "execute_single os h cmd e =
     (let name = cmd_name cmd; args = cmd_args cmd; c = os_clock os
      in if name = ''PING'' then (handle_ping args, e)
         else if name = ''SET'' then on_db (handle_set c args) e
         else if name = ''GET'' then on_db (handle_get c args) e
         else if name = ''DEL'' then on_db (handle_del args) e
         else if name = ''EXISTS'' then on_db (handle_exists c args) e
         else if name = ''KEYS'' then on_db (handle_keys c) e
         else if name = ''DBSIZE'' then on_db (handle_dbsize c) e
         else if name = ''FLUSHDB'' then on_db handle_flushdb e
         else if name = ''EXPIRE'' then on_db (handle_expire c args) e
         else if name = ''TTL'' then on_db (handle_ttl c args) e
         else if name = ''PERSIST'' then on_db (handle_persist c args) e
         else if name = ''SAVE'' then handle_save os e
         else if name = ''LPUSH'' then on_db (handle_lpush c args) e
         else if name = ''RPUSH'' then on_db (handle_rpush c args) e
         else if name = ''LPOP'' then on_db (handle_lpop c args) e
         else if name = ''RPOP'' then on_db (handle_rpop c args) e
         else if name = ''LRANGE'' then on_db (handle_lrange c args) e
         else if name = ''LLEN'' then on_db (handle_llen c args) e
         else if name = ''LINDEX'' then on_db (handle_lindex c args) e
         else if name = ''SUBSCRIBE'' then on_ps (handle_subscribe (client_fd h) args) e
         else if name = ''UNSUBSCRIBE'' then on_ps (handle_unsubscribe (client_fd h) args) e
         else if name = ''PUBLISH'' then handle_publish os args e
         else if name = ''CONFIG'' then (handle_config args, e)
         else if name = ''INFO'' then on_db (handle_info c (server_ref h)) e
         else (''ERR unknown command '' @ [SQ] @ name @ [SQ], e))"

section \<open>Transactions\<close>

definition handle_multi :: "CommandHandler \<Rightarrow> string \<times> CommandHandler" where
  "handle_multi h =
     (if in_multi h then (''ERR MULTI calls can not be nested'', h)
      else (''OK'', h\<lparr>in_multi := True, tx_queue := []\<rparr>))"

definition handle_discard :: "CommandHandler \<Rightarrow> string \<times> CommandHandler" where
  "handle_discard h =
     (if \<not> in_multi h then (''ERR DISCARD without MULTI'', h)
      else (''OK'', h\<lparr>in_multi := False, tx_queue := []\<rparr>))"

text \<open>
  \<open>WATCH\<close> takes one snapshot per key; readings \<open>c [i, 0]\<close> and \<open>c [i, 1]\<close> belong to the two database
  calls for the \<open>i\<close>-th key.
\<close>

definition watch_one :: "clock \<Rightarrow> string \<Rightarrow> database \<Rightarrow> WatchedKeySnapshot \<times> database" where
  "watch_one c key db =
     (case db_get (c [0]) key db of
        (Some val, db1) \<Rightarrow>
          (\<lparr>wks_key = key, wks_existed = True, wks_string_value = Some val, wks_list_size = -1\<rparr>, db1)
      | (None, db1) \<Rightarrow>
          (let (llen, db2) = db_llen (c [1]) key db1
           in if llen \<ge> 0 then
                (\<lparr>wks_key = key, wks_existed = True, wks_string_value = None, wks_list_size = llen\<rparr>, db2)
              else
                (\<lparr>wks_key = key, wks_existed = False, wks_string_value = None, wks_list_size = -1\<rparr>, db2)))"

fun watch_loop :: "clock \<Rightarrow> nat \<Rightarrow> string list \<Rightarrow> CommandHandler \<Rightarrow> database
    \<Rightarrow> CommandHandler \<times> database" where
  "watch_loop c i [] h db = (h, db)"
| "watch_loop c i (key # keys) h db =
     (let (snap, db1) = watch_one (sub_clock c i) key db
      in watch_loop c (Suc i) keys
           (h\<lparr>watched_keys := watched_keys h @ [key],
              watch_snapshots := watch_snapshots h @ [snap]\<rparr>) db1)"

definition handle_watch :: "clock \<Rightarrow> string list \<Rightarrow> CommandHandler \<Rightarrow> database
    \<Rightarrow> string \<times> CommandHandler \<times> database" where
  "handle_watch c args h db =
     (if args = [] then (wrong_args ''WATCH'', h, db)
      else if in_multi h then (''ERR WATCH inside MULTI is not allowed'', h, db)
      else (''OK'', watch_loop c 0 args h db))"

text \<open>One round of the loop: is the key behind the snapshot modified?\<close>

definition snap_modified :: "clock \<Rightarrow> WatchedKeySnapshot \<Rightarrow> database \<Rightarrow> bool \<times> database" where
  "snap_modified c snap db =
     (let (val, db1) = db_get (c [0]) (wks_key snap) db
      in if wks_existed snap then
           (case wks_string_value snap of
              Some old \<Rightarrow> (val = None \<or> val \<noteq> Some old, db1)
            | None \<Rightarrow>
                (if wks_list_size snap \<ge> 0 then
                   let (llen, db2) = db_llen (c [1]) (wks_key snap) db1
                   in (llen \<noteq> wks_list_size snap, db2)
                 else (False, db1)))
         else if val \<noteq> None then (True, db1)
         else let (llen, db2) = db_llen (c [1]) (wks_key snap) db1 in (llen \<ge> 0, db2))"

fun watched_keys_modified :: "clock \<Rightarrow> nat \<Rightarrow> WatchedKeySnapshot list \<Rightarrow> database \<Rightarrow> bool \<times> database" where
  "watched_keys_modified c i [] db = (False, db)"
| "watched_keys_modified c i (snap # snaps) db =
     (let (modified, db1) = snap_modified (sub_clock c i) snap db
      in if modified then (True, db1) else watched_keys_modified c (Suc i) snaps db1)"

text \<open>The loop of \<open>EXEC\<close> over the queue.\<close>

fun exec_queue :: "'w os \<Rightarrow> nat \<Rightarrow> CommandHandler \<Rightarrow> Command list \<Rightarrow> 'w env \<Rightarrow> string list \<times> 'w env" where
  "exec_queue os i h [] e = ([], e)"
| "exec_queue os i h (cmd # cmds) e =
     (let (result, e1) = execute_single (sub_os os i) h cmd e;
          (results, e2) = exec_queue os (Suc i) h cmds e1
      in (result # results, e2))"

definition end_transaction :: "CommandHandler \<Rightarrow> CommandHandler" where
  "end_transaction h = h\<lparr>in_multi := False, tx_queue := [], watched_keys := [], watch_snapshots := [],
     watch_dirty := False\<rparr>"

definition handle_exec :: "'w os \<Rightarrow> CommandHandler \<Rightarrow> 'w env \<Rightarrow> string \<times> CommandHandler \<times> 'w env" where
  "handle_exec os h e =
     (if \<not> in_multi h then (''ERR EXEC without MULTI'', h, e)
      else let (modified, db1) =
             (if watched_keys h \<noteq> []
              then watched_keys_modified (sub_clock (os_clock os) 0) 0 (watch_snapshots h) (env_db e)
              else (False, env_db e));
               e1 = e\<lparr>env_db := db1\<rparr>
           in if modified then (''(nil)'', end_transaction h, e1)
              else let (results, e2) = exec_queue (sub_os os 1) 0 h (tx_queue h) e1
                   in (if tx_queue h = [] then ''(empty list)'' else numbered results,
                       end_transaction h, e2))"

definition execute :: "'w os \<Rightarrow> Command \<Rightarrow> CommandHandler \<Rightarrow> 'w env \<Rightarrow> string \<times> CommandHandler \<times> 'w env" where
  "execute os cmd h e =
     (if in_subscription_mode h e
         \<and> cmd_name cmd \<noteq> ''SUBSCRIBE'' \<and> cmd_name cmd \<noteq> ''UNSUBSCRIBE'' \<and> cmd_name cmd \<noteq> ''PING'' then
        (''ERR Can'' @ [SQ] @ ''t execute '' @ [SQ] @ cmd_name cmd @ [SQ] @
         '': only (P)SUBSCRIBE / (P)UNSUBSCRIBE / PING / QUIT are allowed in this context'', h, e)
      else if cmd_name cmd = ''MULTI'' then (let (r, h1) = handle_multi h in (r, h1, e))
      else if cmd_name cmd = ''EXEC'' then handle_exec os h e
      else if cmd_name cmd = ''DISCARD'' then (let (r, h1) = handle_discard h in (r, h1, e))
      else if cmd_name cmd = ''WATCH'' then
        (let (r, h1, db1) = handle_watch (os_clock os) (cmd_args cmd) h (env_db e)
         in (r, h1, e\<lparr>env_db := db1\<rparr>))
      else if in_multi h then (''QUEUED'', h\<lparr>tx_queue := tx_queue h @ [cmd]\<rparr>, e)
      else let (r, e1) = execute_single os h cmd e in (r, h, e1))"

section \<open>Invariants\<close>

definition env_inv :: "'w env \<Rightarrow> bool" where
  "env_inv e \<longleftrightarrow> db_inv (env_db e) \<and> pubsub_wf (env_ps e)"

lemma snd_map_prod [simp]: "snd (map_prod f id p) = snd p"
  by (cases p) simp

lemma handlers_inv:
  assumes "db_inv db"
  shows "db_inv (snd (handle_set c args db))" "db_inv (snd (handle_get c args db))"
    "db_inv (snd (handle_del args db))" "db_inv (snd (handle_exists c args db))"
    "db_inv (snd (handle_keys c db))" "db_inv (snd (handle_dbsize c db))"
    "db_inv (snd (handle_flushdb db))" "db_inv (snd (handle_expire c args db))"
    "db_inv (snd (handle_ttl c args db))" "db_inv (snd (handle_persist c args db))"
    "db_inv (snd (handle_lpush c args db))" "db_inv (snd (handle_rpush c args db))"
    "db_inv (snd (handle_lpop c args db))" "db_inv (snd (handle_rpop c args db))"
    "db_inv (snd (handle_lrange c args db))" "db_inv (snd (handle_llen c args db))"
    "db_inv (snd (handle_lindex c args db))" "db_inv (snd (handle_info c info db))"
  using assms
  by (auto simp: handle_set_def handle_get_def handle_del_def handle_exists_def handle_keys_def
      handle_dbsize_def handle_flushdb_def handle_expire_def handle_ttl_def handle_persist_def
      handle_lpush_def handle_rpush_def handle_lpop_def handle_rpop_def handle_lrange_def
      handle_llen_def handle_lindex_def handle_info_def Let_def split_beta
      intro!: wf_intros split: option.split)

lemma on_db_inv: "env_inv e \<Longrightarrow> (\<And>db. db_inv db \<Longrightarrow> db_inv (snd (f db))) \<Longrightarrow> env_inv (snd (on_db f e))"
  by (simp add: env_inv_def on_db_def split_beta)

lemma on_ps_inv: "env_inv e \<Longrightarrow> (\<And>ps. pubsub_wf ps \<Longrightarrow> pubsub_wf (snd (f ps))) \<Longrightarrow> env_inv (snd (on_ps f e))"
  by (simp add: env_inv_def on_ps_def split_beta)

lemma if_snd: "P (snd x) \<Longrightarrow> P (snd y) \<Longrightarrow> P (snd (if b then x else y))"
  by simp

lemma pubsub_handlers_wf:
  assumes "pubsub_wf ps"
  shows "pubsub_wf (snd (handle_subscribe fd args ps))" "pubsub_wf (snd (handle_unsubscribe fd args ps))"
  using assms by (auto simp: handle_subscribe_def handle_unsubscribe_def intro: wf_intros)

lemma handle_save_inv: "env_inv e \<Longrightarrow> env_inv (snd (handle_save os e))"
  by (simp add: handle_save_def env_inv_def split_beta)

lemma handle_publish_inv: "env_inv e \<Longrightarrow> env_inv (snd (handle_publish os args e))"
  by (auto simp: handle_publish_def env_inv_def split_beta intro: wf_intros)

lemma const_inv: "env_inv e \<Longrightarrow> env_inv (snd (r, e))"
  by simp

lemma execute_single_inv: "env_inv e \<Longrightarrow> env_inv (snd (execute_single os h cmd e))"
  unfolding execute_single_def Let_def
  by (intro if_snd [where P = env_inv] on_db_inv on_ps_inv handlers_inv pubsub_handlers_wf
      handle_save_inv handle_publish_inv const_inv)

lemma exec_queue_inv: "env_inv e \<Longrightarrow> env_inv (snd (exec_queue os i h cmds e))"
  by (induction cmds arbitrary: i e) (simp_all add: split_beta Let_def execute_single_inv)

lemma watch_one_inv: "db_inv db \<Longrightarrow> db_inv (snd (watch_one c key db))"
  by (auto simp: watch_one_def split_beta Let_def intro!: wf_intros split: option.split)

lemma watch_loop_inv: "db_inv db \<Longrightarrow> db_inv (snd (watch_loop c i keys h db))"
  by (induction keys arbitrary: i h db) (simp_all add: split_beta watch_one_inv)

lemma snap_modified_inv: "db_inv db \<Longrightarrow> db_inv (snd (snap_modified c snap db))"
  by (auto simp: snap_modified_def split_beta Let_def intro!: wf_intros split: option.split)

lemma watched_keys_modified_inv: "db_inv db \<Longrightarrow> db_inv (snd (watched_keys_modified c i snaps db))"
  by (induction snaps arbitrary: i db) (simp_all add: split_beta Let_def snap_modified_inv)

lemma handle_exec_inv: "env_inv e \<Longrightarrow> env_inv (snd (snd (handle_exec os h e)))"
proof -
  assume inv: "env_inv e"
  have db: "env_inv (e\<lparr>env_db := snd (watched_keys_modified c 0 snaps (env_db e))\<rparr>)" for c snaps
    using inv watched_keys_modified_inv by (simp add: env_inv_def)
  then show ?thesis
    using inv by (simp add: handle_exec_def Let_def split_beta exec_queue_inv)
qed

lemma execute_inv: "env_inv e \<Longrightarrow> env_inv (snd (snd (execute os cmd h e)))"
proof -
  assume inv: "env_inv e"
  have "env_inv (e\<lparr>env_db := snd (snd (handle_watch c args h (env_db e)))\<rparr>)" for c args
    using inv watch_loop_inv by (simp add: env_inv_def handle_watch_def)
  then show ?thesis
    using inv execute_single_inv [OF inv] handle_exec_inv [OF inv]
    by (simp add: execute_def split_beta Let_def)
qed

section \<open>Replies on the wire\<close>

lemma starts_with_hd: "starts_with (x # p) s \<Longrightarrow> s \<noteq> [] \<and> hd s = x"
  by (cases s) (simp_all add: starts_with_def)

lemma serialize_quoted: "serialize_response (quoted s) = bulk_string s"
proof -
  have "is_quoted (quoted s)" "unquote (quoted s) = s"
    by (simp_all add: is_quoted_def unquote_def quoted_def substr_def)
  moreover have "integer_reply (quoted s) = None"
    by (simp add: integer_reply_def quoted_def starts_with_def)
  ultimately show ?thesis
    by (subst serialize_response.simps) (simp add: quoted_def starts_with_def)
qed

lemma serialize_nil: "serialize_response ''(nil)'' = null_bulk_string"
  by (subst serialize_response.simps) simp

lemma serialize_nil_or_quoted:
  "serialize_response (nil_or_quoted val) = (case val of None \<Rightarrow> null_bulk_string | Some v \<Rightarrow> bulk_string v)"
  by (simp add: nil_or_quoted_def serialize_quoted serialize_nil split: option.split)

lemma serialize_OK: "serialize_response ''OK'' = simple_string ''OK''"
  by (subst serialize_response.simps) simp

lemma serialize_error: "serialize_response (''ERR'' @ s) = resp_error (''ERR'' @ s)"
  by (subst serialize_response.simps) (simp add: starts_with_def)

lemma serialize_integer:
  assumes "int64_range i"
  shows "serialize_response (integer_text i) = resp_integer i"
proof -
  have "stoll (show_int i) = Some i"
    using assms parse_decimal_show [of "- 9223372036854775808" i 9223372036854775807 "[]"]
    by (simp add: stoll_def int64_range_def)
  moreover have "show_int i \<noteq> []" by (simp add: show_int_def)
  ultimately have "integer_reply (integer_text i) = Some i"
    by (simp add: integer_reply_def integer_text_def starts_with_def)
  then show ?thesis
    by (subst serialize_response.simps) (simp add: integer_text_def starts_with_def)
qed

text \<open>The element of an array reply that a line stands for.\<close>

definition array_element :: "string \<Rightarrow> string" where
  "array_element line =
     (case find_pair CHR '')'' CHR '' '' line of
        Some paren \<Rightarrow>
          (let content = drop (paren + 2) line
           in if is_quoted content then bulk_string (unquote content) else serialize_response content)
      | None \<Rightarrow> bulk_string line)"

lemma serialize_array_reply:
  assumes "is_array_reply s"
  shows "serialize_response s = resp_array (map array_element (getlines s))"
proof -
  obtain c t where s: "s = c # t" "c \<in> set ''123456789''"
    using assms by (cases s) (auto simp: is_array_reply_def)
  have c: "c \<noteq> CHR ''O''" "c \<noteq> CHR ''P''" "c \<noteq> CHR ''Q''" "c \<noteq> CHR ''(''" "c \<noteq> CHR ''E''"
    "c \<noteq> CHR ''W''" "c \<noteq> CHR ''N''" "c \<noteq> DQ"
    using s(2) by auto
  have "integer_reply s = None" "\<not> is_quoted s"
    using c by (simp_all add: s(1) integer_reply_def starts_with_def is_quoted_def)
  then show ?thesis
    using assms c unfolding array_element_def
    by (subst serialize_response.simps) (simp add: s(1) starts_with_def)
qed

lemma getlines_join:
  "\<forall>l \<in> set ls. l \<noteq> [] \<and> LF \<notin> set l \<Longrightarrow> getlines (join_lines ls) = ls"
  by (induction ls rule: join_lines.induct) (auto simp: getlines_single getlines_append)

lemma numbered_lines:
  "\<forall>x \<in> set xs. LF \<notin> set x \<Longrightarrow>
   getlines (numbered xs) = map (\<lambda>(i, x). show_nat (i + 1) @ '') '' @ x) (enumerate 0 xs)"
  unfolding numbered_def by (intro getlines_join) (auto simp: in_set_enumerate_eq)

lemma array_element_numbered:
  "array_element (show_nat i @ '') '' @ x) =
     (if is_quoted x then bulk_string (unquote x) else serialize_response x)"
proof -
  have "CHR '')'' \<notin> set (show_nat i)"
    using show_nat_digits [of "CHR '')''" i] by (auto simp: is_digit_def)
  then show ?thesis
    using find_pair_at [of "CHR '')''" "show_nat i" "CHR '' ''" x] by (simp add: array_element_def)
qed

lemma is_array_numbered:
  assumes "xs \<noteq> []" and "hd xs \<noteq> []"
  shows "is_array_reply (numbered xs)"
proof -
  obtain x xs' where xs: "xs = x # xs'" using assms(1) by (cases xs) auto
  have one: "show_nat (Suc 0) = ''1''" by code_simp
  obtain t where "numbered xs = ''1) '' @ x @ t"
    by (cases "enumerate (Suc 0) xs'") (auto simp: xs numbered_def one)
  then show ?thesis by (simp add: is_array_reply_def)
qed

lemma serialize_numbered:
  assumes "xs \<noteq> []" and "\<forall>x \<in> set xs. x \<noteq> [] \<and> LF \<notin> set x"
  shows "serialize_response (numbered xs) =
    resp_array (map (\<lambda>x. if is_quoted x then bulk_string (unquote x) else serialize_response x) xs)"
proof -
  have "is_array_reply (numbered xs)" using assms by (intro is_array_numbered) auto
  then have "serialize_response (numbered xs) = resp_array (map array_element (getlines (numbered xs)))"
    by (rule serialize_array_reply)
  also have "getlines (numbered xs) = map (\<lambda>(i, x). show_nat (i + 1) @ '') '' @ x) (enumerate 0 xs)"
    using assms(2) by (intro numbered_lines) auto
  also have "map array_element \<dots> =
      map ((\<lambda>x. if is_quoted x then bulk_string (unquote x) else serialize_response x) \<circ> snd) (enumerate 0 xs)"
    using array_element_numbered by (auto simp del: append.simps)
  finally show ?thesis by (simp add: map_map [symmetric] del: map_map)
qed

lemma serialize_list_reply:
  assumes "\<forall>x \<in> set xs. LF \<notin> set x"
  shows "serialize_response (list_reply xs) = resp_array (map bulk_string xs)"
proof (cases "xs = []")
  case True
  have "show_nat 0 = ''0''" by code_simp
  with True show ?thesis
    by (subst serialize_response.simps) (simp add: list_reply_def empty_array_def resp_array_def)
next
  case False
  have q: "is_quoted (quoted x)" "unquote (quoted x) = x" for x
    by (simp_all add: is_quoted_def unquote_def quoted_def substr_def)
  have "serialize_response (numbered (map quoted xs)) = resp_array (map (\<lambda>x. if is_quoted x
      then bulk_string (unquote x) else serialize_response x) (map quoted xs))"
    using assms False by (intro serialize_numbered) (auto simp: quoted_def)
  with False q show ?thesis by (simp add: list_reply_def comp_def)
qed

section \<open>Sequences of commands on one handler\<close>

fun executes :: "('w os \<times> Command) list \<Rightarrow> CommandHandler \<Rightarrow> 'w env
    \<Rightarrow> string list \<times> CommandHandler \<times> 'w env" where
  "executes [] h e = ([], h, e)"
| "executes ((os, cmd) # cmds) h e =
     (let (r, h1, e1) = execute os cmd h e; (rs, h2, e2) = executes cmds h1 e1 in (r # rs, h2, e2))"

definition tx_command :: "Command \<Rightarrow> bool" where
  "tx_command cmd \<longleftrightarrow> cmd_name cmd \<in> set [''MULTI'', ''EXEC'', ''DISCARD'', ''WATCH'']"

lemma execute_queued:
  "in_multi h \<Longrightarrow> \<not> in_subscription_mode h e \<Longrightarrow> \<not> tx_command cmd \<Longrightarrow>
   execute os cmd h e = (''QUEUED'', h\<lparr>tx_queue := tx_queue h @ [cmd]\<rparr>, e)"
  by (simp add: execute_def tx_command_def)

lemma executes_append:
  "executes (xs @ ys) h e =
     (let (rs, h1, e1) = executes xs h e; (rs', h2, e2) = executes ys h1 e1 in (rs @ rs', h2, e2))"
proof (induction xs arbitrary: h e)
  case (Cons x xs)
  then show ?case by (cases x) (simp add: split_beta Let_def)
qed simp

lemma executes_queued:
  "in_multi h \<Longrightarrow> \<not> in_subscription_mode h e \<Longrightarrow> list_all (\<lambda>c. \<not> tx_command (snd c)) cmds \<Longrightarrow>
   executes cmds h e =
     (replicate (length cmds) ''QUEUED'', h\<lparr>tx_queue := tx_queue h @ map snd cmds\<rparr>, e)"
proof (induction cmds arbitrary: h)
  case (Cons c cmds)
  obtain os cmd where c: "c = (os, cmd)" by force
  let ?h = "h\<lparr>tx_queue := tx_queue h @ [cmd]\<rparr>"
  have step: "execute os cmd h e = (''QUEUED'', ?h, e)"
    using Cons.prems c by (intro execute_queued) auto
  have "in_multi ?h" "\<not> in_subscription_mode ?h e"
    using Cons.prems by (simp_all add: in_subscription_mode_def)
  then show ?case using Cons.IH [of ?h] Cons.prems(3) step c by simp
qed simp

lemma on_db_ps [simp]: "env_ps (snd (on_db f e)) = env_ps e"
  by (simp add: on_db_def split_beta)

text \<open>Outside of a transaction, and without new subscriptions, a queue runs as the commands do.\<close>

definition plain_effect :: "Command \<Rightarrow> bool" where
  "plain_effect cmd \<longleftrightarrow> \<not> tx_command cmd \<and> cmd_name cmd \<noteq> ''SUBSCRIBE''"

lemma execute_direct:
  "\<not> in_multi h \<Longrightarrow> \<not> in_subscription_mode h e \<Longrightarrow> \<not> tx_command cmd \<Longrightarrow>
   execute os cmd h e = (let (r, e1) = execute_single os h cmd e in (r, h, e1))"
  by (simp add: execute_def tx_command_def)

lemma execute_single_handler:
  "client_fd h' = client_fd h \<Longrightarrow> server_ref h' = server_ref h \<Longrightarrow>
   execute_single os h' cmd e = execute_single os h cmd e"
  by (simp only: execute_single_def)

lemma exec_queue_handler:
  "client_fd h' = client_fd h \<Longrightarrow> server_ref h' = server_ref h \<Longrightarrow>
   exec_queue os i h' cmds e = exec_queue os i h cmds e"
  by (induction cmds arbitrary: i e) (simp_all add: execute_single_handler [of h' h])

lemma publish_not_subscribed:
  assumes "\<not> is_subscribed s ps"
  shows "\<not> is_subscribed s (fst (snd (publish sw ch msg ps w)))"
proof -
  have "set (channels_of (fst (snd (publish sw ch msg ps w))) s) \<subseteq> set (channels_of ps s)"
    using ps_frame_publish [of "s + 1" ps sw ch msg w] by (simp add: ps_frame_def)
  then show ?thesis using assms by (simp add: is_subscribed_iff)
qed

lemma unsubscribe_not_subscribed: "\<not> is_subscribed s ps \<Longrightarrow> \<not> is_subscribed s (snd (unsubscribe s chs ps))"
proof -
  have "channels_of ps s = [] \<Longrightarrow> channels_of (snd (unsubscribe_loop s chs ps)) s = []" for chs ps
  proof (induction chs arbitrary: ps)
    case (Cons ch chs)
    then show ?case using Cons.IH [of "drop_channel s ch (leave_channel s ch ps)"] by (simp add: split_beta Let_def)
  qed simp
  then show "\<not> is_subscribed s ps \<Longrightarrow> \<not> is_subscribed s (snd (unsubscribe s chs ps))"
    by (simp add: is_subscribed_iff unsubscribe_def Let_def split_beta)
qed

lemma execute_single_mode:
  assumes "plain_effect cmd" and "\<not> in_subscription_mode h e"
  shows "\<not> in_subscription_mode h (snd (execute_single os h cmd e))"
proof -
  have "\<not> in_subscription_mode h (snd (handle_save os e))"
    using assms(2) by (simp add: handle_save_def in_subscription_mode_def split_beta)
  moreover have "\<not> in_subscription_mode h (snd (handle_publish os args e))" for args
    using assms(2) by (simp add: handle_publish_def in_subscription_mode_def split_beta publish_not_subscribed)
  moreover have "\<not> in_subscription_mode h (snd (on_db f e))" for f
    using assms(2) by (simp add: in_subscription_mode_def)
  moreover have "\<not> in_subscription_mode h (snd (on_ps (handle_unsubscribe (client_fd h) args) e))" for args
    using assms(2) unsubscribe_not_subscribed
    by (simp add: on_ps_def handle_unsubscribe_def in_subscription_mode_def split_beta)
  ultimately show ?thesis
    using assms(1,2) unfolding execute_single_def Let_def plain_effect_def by simp
qed

lemma executes_direct:
  assumes "list_all plain_effect cmds" and "\<not> in_multi h" and "\<not> in_subscription_mode h e"
  shows "executes (map (\<lambda>(i, cmd). (sub_os os i, cmd)) (enumerate i cmds)) h e =
    (let (rs, e') = exec_queue os i h cmds e in (rs, h, e'))"
  using assms(1,3)
proof (induction cmds arbitrary: i e)
  case (Cons cmd cmds)
  obtain r e1 where run: "execute_single (sub_os os i) h cmd e = (r, e1)" by force
  have "\<not> in_subscription_mode h e1"
    using execute_single_mode [of cmd h e "sub_os os i"] Cons.prems run by simp
  moreover have "execute (sub_os os i) cmd h e = (r, h, e1)"
    using Cons.prems run by (simp add: execute_direct [OF assms(2)] plain_effect_def)
  ultimately show ?case using Cons.IH [of e1 "Suc i"] Cons.prems run by (simp add: split_beta Let_def)
qed simp

abbreviation plain_command :: "string \<Rightarrow> Command" where
  "plain_command name \<equiv> \<lparr>cmd_name = name, cmd_args = []\<rparr>"

lemma execute_multi:
  "\<not> in_multi h \<Longrightarrow> \<not> in_subscription_mode h e \<Longrightarrow>
   execute os (plain_command ''MULTI'') h e = (''OK'', h\<lparr>in_multi := True, tx_queue := []\<rparr>, e)"
  by (simp add: execute_def handle_multi_def)

lemma execute_exec:
  assumes "in_multi h" and "watched_keys h = []" and "\<not> in_subscription_mode h e"
  shows "execute os (plain_command ''EXEC'') h e =
    (let (rs, e1) = exec_queue (sub_os os 1) 0 h (tx_queue h) e
     in (if tx_queue h = [] then ''(empty list)'' else numbered rs, end_transaction h, e1))"
  using assms by (simp add: execute_def handle_exec_def split_beta Let_def)

section \<open>Watched keys\<close>

lemma watch_one_other:
  assumes "db_wf db" and "as_string (view (c [0]) db key) = None" and "c [0] \<le> c [1]"
    and "int (length (as_list (view (c [1]) db key))) \<le> int_max"
  shows "fst (watch_one c key db) = \<lparr>wks_key = key, wks_existed = True, wks_string_value = None,
    wks_list_size = int (length (as_list (view (c [1]) db key)))\<rparr>"
proof -
  obtain db1 where get: "db_get (c [0]) key db = (None, db1)"
    using db_get_result [of db "c [0]" key] assms(1,2) by (metis prod.collapse)
  have wf1: "db_wf db1" using db_wf_get [OF assms(1), of "c [0]" key] get by simp
  have same: "view (c [1]) db1 = view (c [1]) db" using view_get [OF assms(1,3), of key] get by simp
  have "view (c [1]) db key = Option.bind (view (c [0]) db key) (at_time (c [1]))"
    using assms(3) by (rule view_later)
  then have "as_string (view (c [1]) db key) = None"
    using assms(2) by (auto simp: as_string_def at_time_def split: option.splits bind_splits redis_value.splits)
  then have "fst (db_llen (c [1]) key db1) = int (length (as_list (view (c [1]) db key)))"
    using db_llen_result [OF wf1] same assms(4) by (simp add: llen_spec_def is_string_def)
  then show ?thesis
    using get by (simp add: watch_one_def split_beta Let_def)
qed

text \<open>Several watched keys at once, all of them strings.\<close>

definition string_snap :: "string \<Rightarrow> string \<Rightarrow> WatchedKeySnapshot" where
  "string_snap key v = \<lparr>wks_key = key, wks_existed = True, wks_string_value = Some v, wks_list_size = -1\<rparr>"

lemma still_sub_clock [simp]: "sub_clock (\<lambda>_. t) i = (\<lambda>_. t)"
  by (simp add: sub_clock_def)

lemma watch_one_string_get:
  "db_wf db \<Longrightarrow> as_string (view t db key) = Some v \<Longrightarrow>
   watch_one (\<lambda>_. t) key db = (string_snap key v, snd (db_get t key db))"
  using db_get_result [of db t key] by (auto simp: watch_one_def string_snap_def split: prod.split option.split)

lemma watch_loop_strings:
  assumes "db_wf db" and "list_all (\<lambda>key. as_string (view t db key) \<noteq> None) keys"
  shows "fst (watch_loop (\<lambda>_. t) i keys h db) = h\<lparr>watched_keys := watched_keys h @ keys, watch_snapshots :=
    watch_snapshots h @ map (\<lambda>key. string_snap key (the (as_string (view t db key)))) keys\<rparr>"
  using assms
proof (induction keys arbitrary: i h db)
  case (Cons key keys)
  then obtain v where "as_string (view t db key) = Some v" by auto
  then show ?case
    using Cons by (simp add: watch_one_string_get db_wf_get view_get)
qed simp

lemma watched_keys_modified_strings:
  assumes "db_wf db" and "watched_keys_modified (\<lambda>_. t) i (map (\<lambda>key. string_snap key (v key)) keys) db = (m, db')"
  shows "m \<longleftrightarrow> (\<exists>key \<in> set keys. as_string (view t db key) \<noteq> Some (v key))" and "view t db' = view t db"
proof -
  have "(m \<longleftrightarrow> (\<exists>key \<in> set keys. as_string (view t db key) \<noteq> Some (v key))) \<and> view t db' = view t db"
    using assms
  proof (induction keys arbitrary: i db)
    case (Cons key keys)
    have snap: "snap_modified (\<lambda>_. t) (string_snap key (v key)) db =
        (as_string (view t db key) \<noteq> Some (v key), snd (db_get t key db))"
      using db_get_result [OF Cons.prems(1), of t key]
      by (auto simp: snap_modified_def string_snap_def split_beta Let_def)
    then show ?case
      using Cons.prems Cons.IH [OF db_wf_get [OF Cons.prems(1), of t key]]
        view_get [OF Cons.prems(1) order_refl, of t key]
      by (cases "as_string (view t db key) = Some (v key)") simp_all
  qed simp
  then show "m \<longleftrightarrow> (\<exists>key \<in> set keys. as_string (view t db key) \<noteq> Some (v key))" "view t db' = view t db"
    by blast+
qed

lemma snap_modified_size:
  assumes "db_wf db" and "0 \<le> n" and "c [0] \<le> c [1]"
  shows "fst (snap_modified c \<lparr>wks_key = key, wks_existed = True, wks_string_value = None,
     wks_list_size = n\<rparr> db) \<longleftrightarrow> llen_spec (view (c [1]) db key) \<noteq> n"
  using assms db_llen_result [OF db_wf_get [OF assms(1)]] view_get [OF assms(1,3)]
  by (auto simp: snap_modified_def split_beta Let_def)

section \<open>Properties\<close>

definition start_env :: "(socket_t \<Rightarrow> string) env" where
  "start_env = \<lparr>env_db = new_database, env_ps = new_pubsub, env_fs = (\<lambda>_. None), env_net = (\<lambda>_. [])\<rparr>"

definition still_os :: "time \<Rightarrow> (socket_t \<Rightarrow> string) os" where
  "still_os now = \<lparr>os_write = log_write, os_close = (\<lambda>_ w. w), os_clock = (\<lambda>_. now), os_save = (\<lambda>_. all_ok),
     os_pton = (\<lambda>s. if s = ''127.0.0.1'' then Some 0x7F000001 else None), os_ntop = (\<lambda>_. ''127.0.0.1'')\<rparr>"

text \<open>
  A value stored with \<open>SET\<close> comes back from \<open>GET\<close> on the wire as the same bytes, whatever they
  are: the bulk string of exactly the value, quotes, line ends and null bytes included.
\<close>

lemma set_get_wire:
  assumes "db_inv db"
  shows "serialize_response (fst (handle_set c [key, val] db)) = simple_string ''OK'' \<and>
    serialize_response (fst (handle_get c' [key] (snd (handle_set c [key, val] db)))) = bulk_string val"
proof -
  have "snd (handle_set c [key, val] db) = db_set key val db" by (simp add: handle_set_def)
  moreover have "fst (handle_get c' [key] (db_set key val db)) = quoted val"
    using dbk.get_after_set [OF assms, of "c' []" key val] by (simp add: handle_get_def nil_or_quoted_def)
  ultimately show ?thesis by (simp add: serialize_quoted serialize_OK handle_set_def)
qed

lemma set_get_wire_witness:
  "serialize_response (fst (handle_get (\<lambda>_. 0) [''k'']
     (snd (handle_set (\<lambda>_. 0) [''k'', [DQ, CR, LF, CHR 0x00]] new_database)))) = bulk_string [DQ, CR, LF, CHR 0x00]"
  using set_get_wire [OF db_inv_new, of "\<lambda>_. 0" "''k''" "[DQ, CR, LF, CHR 0x00]" "\<lambda>_. 0"] by simp

text \<open>
  The reply to \<open>LRANGE\<close> on the wire is the RESP array of the selected elements, with negative
  indices counted from the end, as long as no element holds a line feed.
\<close>

lemma lrange_wire:
  assumes "db_inv db" and "int (length (as_list (view (c []) db key))) \<le> int_max"
    and "\<forall>x \<in> set (as_list (view (c []) db key)). LF \<notin> set x"
    and "int_min \<le> a \<and> a \<le> int_max" and "int_min \<le> b \<and> b \<le> int_max"
  shows "serialize_response (fst (handle_lrange c [key, show_int a, show_int b] db)) =
    resp_array (map bulk_string (lrange_spec a b (as_list (view (c []) db key))))"
proof -
  have "fst (handle_lrange c [key, show_int a, show_int b] db) =
      list_reply (lrange_spec a b (as_list (view (c []) db key)))"
    using assms db_lrange_result [of db "c []" key a b] by (simp add: handle_lrange_def db_inv_def)
  moreover have "\<forall>x \<in> set (lrange_spec a b (as_list (view (c []) db key))). LF \<notin> set x"
    using assms(3) by (auto simp: lrange_spec_def Let_def dest: in_set_takeD in_set_dropD)
  ultimately show ?thesis by (simp add: serialize_list_reply)
qed

lemma lrange_wire_witness:
  "let db = snd (db_rpush 0 ''l'' [''a'', ''b'', ''c''] new_database)
   in serialize_response (fst (handle_lrange (\<lambda>_. 0) [''l'', show_int (-2), show_int (-1)] db)) =
      resp_array (map bulk_string [''b'', ''c''])"
proof -
  let ?db = "snd (db_rpush 0 ''l'' [''a'', ''b'', ''c''] new_database)"
  have "as_list (view 0 ?db ''l'') = [''a'', ''b'', ''c'']"
    by (simp add: dbk.live_rpush [OF db_inv_new] spec_defs at_time_def)
  then show ?thesis
    using lrange_wire [OF db_inv_rpush [OF db_inv_new], of "[''a'', ''b'', ''c'']" "\<lambda>_. 0" 0 "''l''" "''l''" "-2" "-1"]
    by (simp add: int_max_def int_min_def lrange_spec_def)
qed

text \<open>
  A line feed inside an element breaks the array: the reply to \<open>LRANGE\<close> of one element has two.
\<close>

lemma lrange_wire_breaks:
  "serialize_response (list_reply [[CHR ''a'', LF, CHR ''b'']]) =
     resp_array [bulk_string [DQ, CHR ''a''], bulk_string [CHR ''b'', DQ]]"
  by code_simp

text \<open>
  What \<open>SUBSCRIBE\<close> in a queue does: the command after it runs, although the client is then subscribed and the same
  command sent on its own would be refused.
\<close>

lemma queue_ignores_subscription:
  "let sub = \<lparr>cmd_name = ''SUBSCRIBE'', cmd_args = [''ch'']\<rparr>; put = \<lparr>cmd_name = ''SET'', cmd_args = [''k'', ''v'']\<rparr>;
       h = (new_handler 4)\<lparr>in_multi := True, tx_queue := [sub, put]\<rparr>;
       (r, h1, e1) = execute (still_os 0) (plain_command ''EXEC'') h start_env
   in env_db e1 = db_set ''k'' ''v'' new_database \<and> starts_with ''ERR'' (fst (execute (still_os 0) put h1 e1))"
  by code_simp

text \<open>
  C27. On one handler that watches no key, \<open>MULTI\<close>, commands and \<open>EXEC\<close> form a transaction: nothing happens while
  the commands are queued, and \<open>EXEC\<close> has the effects and, numbered, the replies of the commands executed one
  after the other at that point, or the reply \<open>(empty list)\<close> if there are none; the handler is then outside of a
  transaction. The commands are any but the transaction commands, which are not queued, and \<open>SUBSCRIBE\<close>, whose effect
  on the commands after it the queue misses (\<open>queue_ignores_subscription\<close>).
\<close>

theorem transaction_runs_queue:
  assumes "\<not> in_multi h" and "watched_keys h = []" and "\<not> in_subscription_mode h e"
    and "list_all (\<lambda>c. plain_effect (snd c)) cmds"
    and "executes (map (\<lambda>(i, cmd). (sub_os (sub_os os2 1) i, cmd)) (enumerate 0 (map snd cmds))) h e = (rs, h', e')"
  shows "executes ((os1, plain_command ''MULTI'') # cmds @ [(os2, plain_command ''EXEC'')]) h e =
    (''OK'' # replicate (length cmds) ''QUEUED'' @ [if cmds = [] then ''(empty list)'' else numbered rs],
     h\<lparr>in_multi := False, tx_queue := [], watched_keys := [], watch_snapshots := [], watch_dirty := False\<rparr>, e')"
proof -
  let ?h1 = "h\<lparr>in_multi := True, tx_queue := []\<rparr>"
  let ?h2 = "h\<lparr>in_multi := True, tx_queue := map snd cmds\<rparr>"
  have plain: "list_all plain_effect (map snd cmds)" "list_all (\<lambda>c. \<not> tx_command (snd c)) cmds"
    using assms(4) by (auto simp: list_all_iff plain_effect_def)
  have queue: "exec_queue (sub_os os2 1) 0 ?h2 (map snd cmds) e = (rs, e')"
    using executes_direct [OF plain(1) assms(1,3), of "sub_os os2 1" 0] assms(5)
      exec_queue_handler [of ?h2 h "sub_os os2 1" 0 "map snd cmds" e]
    by (cases "exec_queue (sub_os os2 1) 0 h (map snd cmds) e") simp
  have "executes cmds ?h1 e = (replicate (length cmds) ''QUEUED'', ?h2, e)"
    using assms(3) plain(2) executes_queued [of ?h1 e cmds] by (simp add: in_subscription_mode_def)
  moreover have "execute os2 (plain_command ''EXEC'') ?h2 e =
      (if cmds = [] then ''(empty list)'' else numbered rs, end_transaction ?h2, e')"
    using assms(2,3) queue execute_exec [of ?h2 e os2] by (simp add: in_subscription_mode_def)
  ultimately show ?thesis
    using execute_multi [OF assms(1,3)] by (simp add: executes_append end_transaction_def)
qed

theorem transaction_runs_queue_witness:
  "fst (executes [(still_os 0, plain_command ''MULTI''),
      (still_os 0, \<lparr>cmd_name = ''SET'', cmd_args = [''k'', ''v'']\<rparr>), (still_os 0, plain_command ''EXEC'')]
      (new_handler 4) start_env) = [''OK'', ''QUEUED'', numbered [''OK'']]"
proof -
  let ?cmds = "[(still_os 0, \<lparr>cmd_name = ''SET'', cmd_args = [''k'', ''v'']\<rparr>)]"
  have mode: "\<not> in_subscription_mode (new_handler 4) start_env"
    by (simp add: new_handler_def in_subscription_mode_def is_subscribed_def start_env_def new_pubsub_def)
  then have run: "executes (map (\<lambda>(i, cmd). (sub_os (sub_os (still_os 0) 1) i, cmd)) (enumerate 0 (map snd ?cmds)))
      (new_handler 4) start_env =
      ([''OK''], new_handler 4, start_env\<lparr>env_db := db_set ''k'' ''v'' new_database\<rparr>)"
    by (simp add: execute_def execute_single_def on_db_def handle_set_def start_env_def new_handler_def)
  show ?thesis
    using transaction_runs_queue [OF _ _ mode _ run, of "still_os 0"]
    by (simp add: new_handler_def tx_command_def plain_effect_def)
qed

text \<open>
  C28. Watched strings guard a transaction: when \<open>WATCH\<close> was given keys that hold strings, \<open>EXEC\<close> executes
  the queue if every one of them still holds a live string equal to the one at the time of \<open>WATCH\<close>; otherwise it
  replies nil, executes nothing, and leaves every live entry, the subscriptions, the files and the network as
  they were.
\<close>

theorem watched_strings_guard_exec:
  assumes "\<not> in_multi h" and "watched_keys h = []" and "watch_snapshots h = []" and "\<not> in_subscription_mode h e"
    and "db_wf (env_db e)" and "os_clock os1 = (\<lambda>_. t)" and "keys \<noteq> []"
    and "list_all (\<lambda>key. as_string (view t (env_db e) key) \<noteq> None) keys"
    and "execute os1 \<lparr>cmd_name = ''WATCH'', cmd_args = keys\<rparr> h e = (r1, h1, e1)"
    and "\<not> in_subscription_mode h e2" and "db_wf (env_db e2)" and "os_clock os2 = (\<lambda>_. t')" and "cmds \<noteq> []"
    and "execute os2 (plain_command ''EXEC'') (h1\<lparr>in_multi := True, tx_queue := cmds\<rparr>) e2 = (r2, h2, e3)"
  shows "if list_all (\<lambda>key. as_string (view t' (env_db e2) key) = as_string (view t (env_db e) key)) keys
    then \<exists>db rs. view t' db = view t' (env_db e2) \<and> r2 = numbered rs \<and>
      exec_queue (sub_os os2 1) 0 h cmds (e2\<lparr>env_db := db\<rparr>) = (rs, e3)
    else r2 = ''(nil)'' \<and> view t' (env_db e3) = view t' (env_db e2) \<and> e3 = e2\<lparr>env_db := env_db e3\<rparr>"
proof -
  let ?snaps = "map (\<lambda>key. string_snap key (the (as_string (view t (env_db e) key)))) keys"
  let ?h1 = "h\<lparr>watched_keys := keys, watch_snapshots := ?snaps\<rparr>"
  let ?h = "?h1\<lparr>in_multi := True, tx_queue := cmds\<rparr>"
  have h1: "h1 = ?h1"
    using assms(1-4,6-9) watch_loop_strings [OF assms(5,8)] by (auto simp: execute_def handle_watch_def split_beta Let_def)
  obtain m db where check: "watched_keys_modified (\<lambda>_. t') 0 ?snaps (env_db e2) = (m, db)" by force
  note guard = watched_keys_modified_strings [OF assms(11) check]
  have eq: "as_string (view t' (env_db e2) key) = Some (the (as_string (view t (env_db e) key))) \<longleftrightarrow>
      as_string (view t' (env_db e2) key) = as_string (view t (env_db e) key)" if "key \<in> set keys" for key
    using that assms(8) by (auto simp: list_all_iff)
  have m: "m \<longleftrightarrow> \<not> list_all (\<lambda>key. as_string (view t' (env_db e2) key) = as_string (view t (env_db e) key)) keys"
    using guard(1) eq by (auto simp: list_all_iff)
  have "execute os2 (plain_command ''EXEC'') ?h e2 =
      (if m then (''(nil)'', end_transaction ?h, e2\<lparr>env_db := db\<rparr>)
       else let (rs, e') = exec_queue (sub_os os2 1) 0 ?h cmds (e2\<lparr>env_db := db\<rparr>)
            in (numbered rs, end_transaction ?h, e'))"
    using assms(7,10,12,13) check by (simp add: execute_def handle_exec_def in_subscription_mode_def)
  then have "if m then r2 = ''(nil)'' \<and> e3 = e2\<lparr>env_db := db\<rparr>
      else (\<exists>rs. r2 = numbered rs \<and> exec_queue (sub_os os2 1) 0 h cmds (e2\<lparr>env_db := db\<rparr>) = (rs, e3))"
    using assms(14) exec_queue_handler [of ?h h "sub_os os2 1" 0 cmds "e2\<lparr>env_db := db\<rparr>"]
    unfolding h1 by (auto simp: split_beta Let_def prod_eq_iff split: if_splits)
  then show ?thesis using m guard(2) by (auto split: if_splits)
qed

theorem watched_strings_guard_exec_witness:
  "let e = start_env\<lparr>env_db := db_set ''k'' ''v'' new_database\<rparr>; e2 = start_env\<lparr>env_db := db_set ''k'' ''w'' new_database\<rparr>;
       (r1, h1, e1) = execute (still_os 0) \<lparr>cmd_name = ''WATCH'', cmd_args = [''k'']\<rparr> (new_handler 4) e
   in fst (execute (still_os 1) (plain_command ''EXEC'')
        (h1\<lparr>in_multi := True, tx_queue := [plain_command ''FLUSHDB'']\<rparr>) e2) = ''(nil)''"
proof -
  let ?e = "start_env\<lparr>env_db := db_set ''k'' ''v'' new_database\<rparr>" and ?e2 = "start_env\<lparr>env_db := db_set ''k'' ''w'' new_database\<rparr>"
  obtain r1 h1 e1 where watch: "execute (still_os 0) \<lparr>cmd_name = ''WATCH'', cmd_args = [''k'']\<rparr> (new_handler 4) ?e = (r1, h1, e1)"
    by (metis prod_cases3)
  obtain r2 h2 e3 where exec: "execute (still_os 1) (plain_command ''EXEC'')
      (h1\<lparr>in_multi := True, tx_queue := [plain_command ''FLUSHDB'']\<rparr>) ?e2 = (r2, h2, e3)"
    by (metis prod_cases3)
  have mode: "\<not> in_subscription_mode (new_handler 4) ?e" "\<not> in_subscription_mode (new_handler 4) ?e2"
    by (simp_all add: new_handler_def in_subscription_mode_def is_subscribed_def start_env_def new_pubsub_def)
  have "r2 = ''(nil)''"
    using watched_strings_guard_exec [OF _ _ _ mode(1) _ _ _ _ watch mode(2) _ _ _ exec, of 0 1]
    by (simp add: new_handler_def still_os_def db_wf_set db_wf_new view_set as_string_def)
  then show ?thesis by (simp add: Let_def watch exec)
qed

text \<open>
  A watched list is only checked by its length: replaced by any other list of the same length, it
  counts as unmodified.
\<close>

lemma watch_misses_same_length:
  assumes "db_wf db" and "view (c [0]) db key = Some (VList l, None)" and "c [0] \<le> c [1]"
    and "db_wf db'" and "view (c' [1]) db' key = Some (VList l', d)" and "c' [0] \<le> c' [1]"
    and "length l' = length l" and "int (length l) \<le> int_max"
  shows "\<not> fst (snap_modified c' (fst (watch_one c key db)) db')"
proof -
  have later: "view (c [1]) db key = Some (VList l, None)"
    using assms(2,3) by (rule dbk.live_no_deadline)
  then have "fst (watch_one c key db) = \<lparr>wks_key = key, wks_existed = True, wks_string_value = None,
      wks_list_size = int (length l)\<rparr>"
    using watch_one_other [of db c key] assms(1,2,3,8) by (simp add: as_string_def as_list_def)
  then show ?thesis
    using snap_modified_size [OF assms(4) _ assms(6), of "int (length l)" key] assms(5,7,8)
    by (simp add: llen_spec_def is_string_def as_string_def as_list_def)
qed

lemma watch_misses_same_length_witness:
  "\<not> fst (snap_modified (\<lambda>_. 1) (fst (watch_one (\<lambda>_. 0) ''l'' (snd (db_rpush 0 ''l'' [''a''] new_database))))
     (snd (db_rpush 0 ''l'' [''b''] new_database)))"
proof -
  have "view t (snd (db_rpush 0 ''l'' [x] new_database)) ''l'' = Some (VList [x], None)" if "0 \<le> t" for t x
    using that by (simp add: dbk.live_rpush [OF db_inv_new] spec_defs at_time_def)
  then show ?thesis
    using watch_misses_same_length [OF db_wf_rpush [OF db_wf_new] _ _ db_wf_rpush [OF db_wf_new],
        of "\<lambda>_. 0" 0 "''l''" "[''a'']" "''l''" "[''a'']" "\<lambda>_. 1" 0 "''l''" "[''b'']" "[''b'']" None]
    by (simp add: int_max_def)
qed

text \<open>
  C40. Commands on a key that holds the other type. On a string, the pushes and \<open>LLEN\<close> reply \<open>WRONGTYPE\<close>, but
  \<open>LPOP\<close>, \<open>RPOP\<close> and \<open>LINDEX\<close> reply with a null and \<open>LRANGE\<close> with an empty list, as if the key did not exist (unless an index
  is not a number); on a list, \<open>GET\<close> replies with a null. None of them changes the database.
\<close>

theorem wrong_type_replies_nil:
  assumes "db_wf db"
  shows "(case view (c []) db key of
      Some (VList l, d) \<Rightarrow> handle_get c [key] db = (''(nil)'', db)
    | Some (VString v, d) \<Rightarrow>
        handle_lpush c (key # x # xs) db = (WRONGTYPE_ERR, db) \<and> handle_rpush c (key # x # xs) db = (WRONGTYPE_ERR, db) \<and>
        handle_llen c [key] db = (WRONGTYPE_ERR, db) \<and>
        handle_lpop c [key] db = (''(nil)'', db) \<and> handle_rpop c [key] db = (''(nil)'', db) \<and>
        handle_lindex c [key, i] db = (if stoi i = None then not_integer else ''(nil)'', db) \<and>
        handle_lrange c [key, i, j] db = (if stoi i = None \<or> stoi j = None then not_integer else ''(empty list)'', db)
    | None \<Rightarrow> True)"
  using assms
proof (cases rule: key_cases [where key = key and now = "c []"])
  case (str v)
  then show ?thesis
    by (auto simp: handle_lpush_def handle_rpush_def handle_llen_def handle_lpop_def handle_rpop_def handle_lindex_def
        handle_lrange_def db_lpush_def db_rpush_def db_llen_def db_lpop_def db_rpop_def db_lindex_def db_lrange_def
        um_count_def push_reply_def nil_or_quoted_def list_reply_def split: option.split)
next
  case (lst l)
  then show ?thesis by (simp add: handle_get_def db_get_def nil_or_quoted_def)
qed simp_all

theorem wrong_type_replies_nil_witness:
  "handle_get (\<lambda>_. 0) [''l''] (snd (db_rpush 0 ''l'' [''a''] new_database)) =
     (''(nil)'', snd (db_rpush 0 ''l'' [''a''] new_database)) \<and>
   handle_rpush (\<lambda>_. 0) [''s'', ''a''] (db_set ''s'' ''v'' new_database) =
     (WRONGTYPE_ERR, db_set ''s'' ''v'' new_database)"
proof -
  have "view 0 (snd (db_rpush 0 ''l'' [''a''] new_database)) ''l'' = Some (VList [''a''], None)"
    by (simp add: dbk.live_rpush [OF db_inv_new] spec_defs at_time_def)
  moreover have "view 0 (db_set ''s'' ''v'' new_database) ''s'' = Some (VString ''v'', None)"
    by (simp add: view_set)
  ultimately show ?thesis
    using wrong_type_replies_nil [OF db_wf_rpush [OF db_wf_new, of 0 "''l''" "[''a'']"], where c = "\<lambda>_. 0" and key = "''l''"]
      wrong_type_replies_nil [OF db_wf_set [OF db_wf_new, of "''s''" "''v''"], where c = "\<lambda>_. 0" and key = "''s''"
        and x = "''a''" and xs = "[]"]
    by simp
qed

text \<open>
  \<open>SET key value EX seconds\<close> with an invalid time replies with an error but has already stored
  the value and removed the old deadline.
\<close>

lemma set_ex_invalid_stores:
  assumes "upper opt = ''EX''" and "stoi secs = None \<or> (\<exists>n \<le> 0. stoi secs = Some n)"
  shows "snd (handle_set c [key, val, opt, secs] db) = db_set key val db \<and>
    serialize_response (fst (handle_set c [key, val, opt, secs] db)) =
      resp_error (fst (handle_set c [key, val, opt, secs] db))"
  using assms serialize_error by (auto simp: handle_set_def not_integer_def)

lemma set_ex_invalid_stores_witness:
  "snd (handle_set (\<lambda>_. 0) [''k'', ''v'', ''ex'', ''soon''] new_database) = db_set ''k'' ''v'' new_database"
proof -
  have "upper ''ex'' = ''EX''" "stoi ''soon'' = None" by code_simp+
  then show ?thesis using set_ex_invalid_stores by simp
qed

end
