(* ===== verification/Server.thy ===== *)
theory Server
  imports Commands "HOL-Library.Sublist"
begin

text \<open>
  The server of \<open>include/networking/server.h\<close> and \<open>src/networking/server.cpp\<close>: the state of a client,
  the loop that takes commands off a client's read buffer, the authentication check, and the event
  loop as a step relation together with the rounds of the expiry thread and the shutdown signal.
\<close>

section \<open>State\<close>

record ClientState =
  read_buffer :: string
  addr :: string
  authenticated :: bool

definition new_client :: "string \<Rightarrow> ClientState" where
  "new_client a = \<lparr>read_buffer = [], addr = a, authenticated = False\<rparr>"

text \<open>
  The database, the pub/sub manager, the files and the network are the environment of the command
  handler.
\<close>

record 'w server =
  srv_host :: string
  srv_port :: int
  listen_fd :: socket_t
  srv_env :: "'w env"
  running :: bool
  password :: string
  start_time :: time
  clients :: "(socket_t, ClientState) umap"

definition new_server :: "string \<Rightarrow> int \<Rightarrow> 'w env \<Rightarrow> 'w server" where
  "new_server host port e =
     \<lparr>srv_host = host, srv_port = port, listen_fd = INVALID_SOCKET_VAL, srv_env = e, running = False,
      password = [], start_time = 0, clients = []\<rparr>"

definition set_password :: "string \<Rightarrow> 'w server \<Rightarrow> 'w server" where
  "set_password pw srv = srv\<lparr>password := pw\<rparr>"

definition get_password :: "'w server \<Rightarrow> string" where
  "get_password srv = password srv"

definition client_count :: "'w server \<Rightarrow> nat" where
  "client_count srv = length (clients srv)"

section \<open>Commands of one client\<close>

definition send :: "'w os \<Rightarrow> socket_t \<Rightarrow> string \<Rightarrow> 'w env \<Rightarrow> bool \<times> 'w env" where
  "send os fd data e =
     (let (ok, w) = send_response (os_write os) fd data (env_net e) in (ok, e\<lparr>env_net := w\<rparr>))"

text \<open>The authentication check and the execution on a handler of its own.\<close>

definition answer :: "'w os \<Rightarrow> server_info \<Rightarrow> string \<Rightarrow> socket_t \<Rightarrow> Command \<Rightarrow> ClientState \<Rightarrow> 'w env
    \<Rightarrow> string \<times> ClientState \<times> 'w env" where
  "answer os info pw fd cmd st e =
     (if pw \<noteq> [] \<and> \<not> authenticated st then
        (if cmd_name cmd = ''AUTH'' then
           (if length (cmd_args cmd) \<noteq> 1 then (wrong_args ''AUTH'', st, e)
            else if cmd_args cmd ! 0 = pw then (''OK'', st\<lparr>authenticated := True\<rparr>, e)
            else (''ERR invalid password'', st, e))
         else (''NOAUTH Authentication required.'', st, e))
      else let (response, h, e1) = execute os cmd (set_server info (new_handler fd)) e
           in (response, st, e1))"

lemma answer_buffer [simp]: "read_buffer (fst (snd (answer os info pw fd cmd st e))) = read_buffer st"
  by (simp add: answer_def split_beta Let_def)

definition MAX_BUFFER :: nat where
  "MAX_BUFFER = 64 * 1024 * 1024"

text \<open>
  The loop over the read buffer. The result is \<^term>\<open>False\<close> when the client is to be disconnected.
  The \<open>i\<close>-th command runs with \<^term>\<open>sub_os os i\<close>.
\<close>

function process_buffer :: "'w os \<Rightarrow> nat \<Rightarrow> server_info \<Rightarrow> string \<Rightarrow> socket_t \<Rightarrow> ClientState \<Rightarrow> 'w env
    \<Rightarrow> bool \<times> ClientState \<times> 'w env" where
  "process_buffer os i info pw fd st e =
     (if read_buffer st = [] then (True, st, e)
      else let parse = parse_command (read_buffer st);
               st1 = st\<lparr>read_buffer := drop (rp_consumed parse) (read_buffer st)\<rparr>
        in if rp_protocol_error parse then
             (False, st, snd (send os fd (resp_error ''ERR Protocol error'') e))
           else if rp_need_more parse then
             (if rp_consumed parse > 0 then process_buffer os i info pw fd st1 e else (True, st, e))
           else if \<not> rp_ok parse then (True, st, e)
           else if length (read_buffer st1) > MAX_BUFFER then (False, st1, e)
           else if cmd_name (rp_command parse) = ''QUIT'' then
             (False, st1, snd (send os fd (simple_string ''OK'') e))
           else case answer (sub_os os i) info pw fd (rp_command parse) st1 e of
             (response, st2, e1) \<Rightarrow>
               (case send os fd (serialize_response response) e1 of
                  (ok, e2) \<Rightarrow>
                    (if ok then process_buffer os (Suc i) info pw fd st2 e2 else (False, st2, e2))))"
  by pat_completeness auto
termination
proof (relation "measure (\<lambda>(os, i, info, pw, fd, st, e). length (read_buffer st))", goal_cases)
  case 1
  then show ?case by simp
next
  case (2 os i info pw fd st e parse st1)
  then show ?case by simp
next
  case (3 os i info pw fd st e parse st1 response p st2 e1 ok e2)
  have "rp_ok parse" using 3 by simp
  then have "0 < rp_consumed parse" using 3(2) parse_command_progress by blast
  moreover have "answer (sub_os os i) info pw fd (rp_command parse) st1 e = (response, st2, e1)"
    using 3 by simp
  then have "read_buffer st2 = read_buffer st1"
    using answer_buffer [of "sub_os os i" info pw fd "rp_command parse" st1 e] by (metis fst_conv snd_conv)
  ultimately show ?case using 3(1,3) by simp
qed

declare process_buffer.simps [simp del]

text \<open>One round of the loop for a complete command.\<close>

lemma process_buffer_command:
  assumes "read_buffer st \<noteq> []" and "p = parse_command (read_buffer st)" and "rp_ok p"
    and "st1 = st\<lparr>read_buffer := drop (rp_consumed p) (read_buffer st)\<rparr>"
    and "answer (sub_os os i) info pw fd (rp_command p) st1 e = (response, st2, e1)"
    and "send os fd (serialize_response response) e1 = (sent, e2)"
  shows "process_buffer os i info pw fd st e =
    (if length (read_buffer st1) > MAX_BUFFER then (False, st1, e)
     else if cmd_name (rp_command p) = ''QUIT'' then (False, st1, snd (send os fd (simple_string ''OK'') e))
     else if sent then process_buffer os (Suc i) info pw fd st2 e2
     else (False, st2, e2))"
proof -
  have "\<not> rp_protocol_error p" "\<not> rp_need_more p"
    using parse_command_one_flag [of "read_buffer st"] assms(2,3) by (auto simp: one_flag_def)
  then show ?thesis
    using assms by (subst process_buffer.simps) simp
qed

text \<open>
  What the socket has for a read: bytes that have arrived (\<open>socket_read\<close> returns at most \<open>sizeof(buf)\<close> of them, the
  rest stays for later reads), nothing yet (\<open>EAGAIN\<close>), or the end of the stream or an error.
\<close>

datatype read_result = ReadBytes string | WouldBlock | Closed

definition READ_SIZE :: nat where
  "READ_SIZE = 4096"

text \<open>The part of \<open>process_client\<close> after the read.\<close>

definition process_bytes :: "'w os \<Rightarrow> string \<Rightarrow> socket_t \<Rightarrow> 'w server \<Rightarrow> bool \<times> 'w server" where
  "process_bytes os bytes fd srv =
     (let st = (case um_find (clients srv) fd of None \<Rightarrow> new_client [] | Some st \<Rightarrow> st);
          st0 = st\<lparr>read_buffer := read_buffer st @ bytes\<rparr>;
          srv0 = srv\<lparr>clients := um_put fd st0 (clients srv)\<rparr>;
          info = \<lparr>info_start_time = start_time srv0, info_client_count = client_count srv0\<rparr>;
          (ok, st1, e1) = process_buffer os 0 info (password srv0) fd st0 (srv_env srv0)
      in (ok, srv0\<lparr>clients := um_put fd st1 (clients srv0), srv_env := e1\<rparr>))"

definition process_client :: "'w os \<Rightarrow> read_result \<Rightarrow> socket_t \<Rightarrow> 'w server \<Rightarrow> bool \<times> 'w server" where
  "process_client os rd fd srv =
     (case rd of
        Closed \<Rightarrow> (False, srv)
      | WouldBlock \<Rightarrow> (True, srv)
      | ReadBytes arrived \<Rightarrow>
          (let bytes = take READ_SIZE arrived
           in if bytes = [] then (False, srv) else process_bytes os bytes fd srv))"

lemma process_client_read:
  "bytes \<noteq> [] \<Longrightarrow> length bytes \<le> READ_SIZE \<Longrightarrow>
   process_client os (ReadBytes bytes) fd srv = process_bytes os bytes fd srv"
  by (simp add: process_client_def)

section \<open>Connections\<close>

text \<open>A peer on the local machine, for examples.\<close>

definition local_peer :: sockaddr_in where
  "local_peer = \<lparr>sin_port = htons 50000, sin_addr = 0x7F000001\<rparr>"

text \<open>\<open>fd\<close> and \<open>peer\<close> are what \<open>accept\<close> returns.\<close>

definition peer_name :: "'w os \<Rightarrow> sockaddr_in \<Rightarrow> string" where
  "peer_name os peer = os_ntop os (sin_addr peer) @ '':'' @ show_nat (unat (ntohs (sin_port peer)))"

definition accept_client :: "'w os \<Rightarrow> socket_t \<Rightarrow> sockaddr_in \<Rightarrow> 'w server \<Rightarrow> 'w server" where
  "accept_client os fd peer srv =
     (if \<not> is_valid fd then srv
      else srv\<lparr>clients := um_put fd (new_client (peer_name os peer)) (clients srv)\<rparr>)"

definition disconnect_client :: "'w os \<Rightarrow> socket_t \<Rightarrow> 'w server \<Rightarrow> 'w server" where
  "disconnect_client os fd srv =
     (let e = srv_env srv;
          e1 = e\<lparr>env_ps := client_disconnected fd (env_ps e), env_net := os_close os fd (env_net e)\<rparr>
      in srv\<lparr>srv_env := e1, clients := um_erase fd (clients srv)\<rparr>)"

definition server_stop :: "'w os \<Rightarrow> 'w server \<Rightarrow> 'w server" where
  "server_stop os srv =
     (let srv1 = srv\<lparr>running := False\<rparr>
      in if is_valid (listen_fd srv1)
         then srv1\<lparr>listen_fd := INVALID_SOCKET_VAL,
                srv_env := (srv_env srv1)\<lparr>env_net := os_close os (listen_fd srv1) (env_net (srv_env srv1))\<rparr>\<rparr>
         else srv1)"

text \<open>The destructor.\<close>

definition server_destroy :: "'w os \<Rightarrow> 'w server \<Rightarrow> 'w server" where
  "server_destroy os srv =
     (let srv1 = server_stop os srv;
          w1 = fold (os_close os) (um_keys (clients srv1)) (env_net (srv_env srv1));
          w2 = (if is_valid (listen_fd srv1) then os_close os (listen_fd srv1) w1 else w1)
      in srv1\<lparr>srv_env := (srv_env srv1)\<lparr>env_net := w2\<rparr>\<rparr>)"

text \<open>
  The address to listen on. The structure is zero-initialized, and the result of \<open>inet_pton\<close> is not checked.
\<close>

definition listen_address :: "'w os \<Rightarrow> 'w server \<Rightarrow> sockaddr_in" where
  "listen_address os srv =
     \<lparr>sin_port = htons (word_of_int (srv_port srv)),
      sin_addr = (if srv_host srv = ''0.0.0.0'' \<or> srv_host srv = [] then INADDR_ANY
                  else case os_pton os (c_str (srv_host srv)) of Some a \<Rightarrow> a | None \<Rightarrow> 0)\<rparr>"

text \<open>
  The set-up part of \<open>start\<close>: \<open>fd\<close> is the socket that \<open>socket\<close> returns, \<open>bind_ok\<close> the outcome of \<open>bind\<close> for an
  address, then the outcome of \<open>listen\<close>. Both calls fail on an invalid descriptor. The signal handler may run in
  between and call \<open>stop\<close>: \<open>sig\<close> says at which points. The result is whether the event loop is entered.
\<close>

datatype setup_point = BeforeSocket | AfterSocket | AfterBind | AfterListen

definition start_setup :: "'w os \<Rightarrow> (setup_point \<Rightarrow> bool) \<Rightarrow> socket_t \<Rightarrow> (sockaddr_in \<Rightarrow> bool) \<Rightarrow> bool \<Rightarrow> time \<Rightarrow> 'w server
    \<Rightarrow> bool \<times> 'w server" where
  "start_setup os sig fd bind_ok listen_ok now srv0 =
     (let at = (\<lambda>point srv. if sig point then server_stop os srv else srv);
          close = (\<lambda>srv. srv\<lparr>srv_env := (srv_env srv)\<lparr>env_net := os_close os (listen_fd srv) (env_net (srv_env srv))\<rparr>,
                     listen_fd := INVALID_SOCKET_VAL\<rparr>);
          srv1 = (at BeforeSocket srv0)\<lparr>listen_fd := fd\<rparr>
      in if \<not> is_valid (listen_fd srv1) then (False, srv1)
         else let srv2 = at AfterSocket srv1
           in if \<not> (is_valid (listen_fd srv2) \<and> bind_ok (listen_address os srv2)) then (False, close srv2)
              else let srv3 = at AfterBind srv2
                in if \<not> (is_valid (listen_fd srv3) \<and> listen_ok) then (False, close srv3)
                   else (True, (at AfterListen srv3)\<lparr>running := True, start_time := now\<rparr>))"

text \<open>The set-up without a signal.\<close>

definition start_listening :: "'w os \<Rightarrow> socket_t \<Rightarrow> (sockaddr_in \<Rightarrow> bool) \<Rightarrow> bool \<Rightarrow> time \<Rightarrow> 'w server
    \<Rightarrow> bool \<times> 'w server" where
  "start_listening os fd bind_ok listen_ok now srv = start_setup os (\<lambda>_. False) fd bind_ok listen_ok now srv"

lemma start_listening_eq:
  "start_listening os fd bind_ok listen_ok now srv =
     (let srv1 = srv\<lparr>listen_fd := fd\<rparr>;
          closed = srv1\<lparr>srv_env := (srv_env srv1)\<lparr>env_net := os_close os fd (env_net (srv_env srv1))\<rparr>,
                        listen_fd := INVALID_SOCKET_VAL\<rparr>
      in if \<not> is_valid fd then (False, srv1)
         else if \<not> bind_ok (listen_address os srv1) then (False, closed)
         else if \<not> listen_ok then (False, closed)
         else (True, srv1\<lparr>running := True, start_time := now\<rparr>))"
  by (simp add: start_listening_def start_setup_def Let_def)

text \<open>
  \<open>set_nonblocking\<close>, given the flag \<open>O_NONBLOCK\<close> of the platform and what the two calls of \<open>fcntl\<close> return: the
  flags, or \<open>-1\<close>, and the outcome of setting flags. \<open>start\<close> and \<open>accept_client\<close> do not look at the result.
\<close>

definition set_nonblocking :: "int \<Rightarrow> int \<Rightarrow> (int \<Rightarrow> int) \<Rightarrow> bool" where
  "set_nonblocking nonblock flags setfl =
     (if flags = -1 then False else setfl (flags OR nonblock) \<noteq> -1)"

section \<open>The event loop\<close>

text \<open>
  The descriptors given to \<open>select\<close>, and the highest of them.
\<close>

definition select_fds :: "'w server \<Rightarrow> socket_t list" where
  "select_fds srv = listen_fd srv # um_keys (clients srv)"

definition max_fd :: "'w server \<Rightarrow> socket_t" where
  "max_fd srv = foldl (\<lambda>m fd. if fd > m then fd else m) (listen_fd srv) (um_keys (clients srv))"

text \<open>
  What \<open>select\<close> reports: an error, a timeout, or readiness. In the last case the first argument is
  the socket and address that \<open>accept\<close> returns if the listening socket is ready, and the second the
  outcome of the read on each client socket that is ready.
\<close>

datatype select_result =
    SelectError
  | SelectTimeout
  | Ready "(socket_t \<times> sockaddr_in) option" "socket_t \<Rightarrow> read_result option"

text \<open>Every ready client in turn; the sockets to disconnect are collected.\<close>

fun serve_ready :: "'w os \<Rightarrow> (socket_t \<Rightarrow> read_result option) \<Rightarrow> nat \<Rightarrow> socket_t list \<Rightarrow> 'w server
    \<Rightarrow> socket_t list \<times> 'w server" where
  "serve_ready os rd i [] srv = ([], srv)"
| "serve_ready os rd i (fd # fds) srv =
     (case rd fd of
        None \<Rightarrow> serve_ready os rd (Suc i) fds srv
      | Some r \<Rightarrow>
          (let (keep, srv1) = process_client (sub_os os i) r fd srv;
               (to_disconnect, srv2) = serve_ready os rd (Suc i) fds srv1
           in (if keep then to_disconnect else fd # to_disconnect, srv2)))"

text \<open>One round of the loop: whether the loop goes on, and the state.\<close>

definition loop_round :: "'w os \<Rightarrow> select_result \<Rightarrow> 'w server \<Rightarrow> bool \<times> 'w server" where
  "loop_round os ev srv =
     (case ev of
        SelectError \<Rightarrow> (False, srv)
      | SelectTimeout \<Rightarrow> (True, srv)
      | Ready accepted rd \<Rightarrow>
          (let read_fds = select_fds srv;
               srv1 = (case accepted of None \<Rightarrow> srv | Some (fd, peer) \<Rightarrow> accept_client os fd peer srv);
               (to_disconnect, srv2) =
                 serve_ready os (\<lambda>fd. if fd \<in> set read_fds then rd fd else None) 0 (um_keys (clients srv1)) srv1
           in (True, fold (disconnect_client os) to_disconnect srv2)))"

text \<open>
  The steps of the running program, on a state that also says whether the event loop is still being
  executed: a round of the loop, leaving the loop, a round of the expiry thread, the shutdown signal.
\<close>

inductive srv_step :: "bool \<times> 'w server \<Rightarrow> bool \<times> 'w server \<Rightarrow> bool" where
  round: "running srv \<Longrightarrow> srv_step (True, srv) (loop_round os ev srv)"
| leave: "\<not> running srv \<Longrightarrow> srv_step (True, srv) (False, srv)"
| expire: "srv_step (go, srv) (go, srv\<lparr>srv_env := (srv_env srv)\<lparr>env_db := snd (expiry_loop now (env_db (srv_env srv)))\<rparr>\<rparr>)"
| signal: "srv_step (go, srv) (go, server_stop os srv)"

inductive reachable :: "bool \<times> 'w server \<Rightarrow> bool \<times> 'w server \<Rightarrow> bool" for s0 where
  start: "reachable s0 s0"
| step: "reachable s0 s \<Longrightarrow> srv_step s s' \<Longrightarrow> reachable s0 s'"

inductive_cases srv_stepE: "srv_step s s'"

text \<open>
  The same as a function of what happens: the loop of \<open>start\<close> with the rounds of the expiry thread and the
  signals that come between its rounds. The result says whether the loop is still being executed.
\<close>

datatype 'w event = Round "'w os" select_result | Purge time | Signal "'w os"

fun event_loop :: "'w event list \<Rightarrow> bool \<times> 'w server \<Rightarrow> bool \<times> 'w server" where
  "event_loop [] s = s"
| "event_loop (Round os ev # evs) (go, srv) =
     event_loop evs (if \<not> go then (go, srv) else if running srv then loop_round os ev srv else (False, srv))"
| "event_loop (Purge now # evs) (go, srv) =
     event_loop evs (go, srv\<lparr>srv_env := (srv_env srv)\<lparr>env_db := snd (expiry_loop now (env_db (srv_env srv)))\<rparr>\<rparr>)"
| "event_loop (Signal os # evs) (go, srv) = event_loop evs (go, server_stop os srv)"

section \<open>Invariants\<close>

lemma send_env [simp]:
  "env_db (snd (send os fd data e)) = env_db e" "env_ps (snd (send os fd data e)) = env_ps e"
  "env_fs (snd (send os fd data e)) = env_fs e"
  by (simp_all add: send_def split_beta)

lemma send_inv [simp]: "env_inv (snd (send os fd data e)) = env_inv e"
  by (simp add: env_inv_def)

lemma answer_inv: "env_inv e \<Longrightarrow> env_inv (snd (snd (answer os info pw fd cmd st e)))"
  by (simp add: answer_def split_beta Let_def execute_inv)

text \<open>
  Whatever relates the states before and after each single effect of the loop, and is reflexive and
  transitive, relates the states before and after the loop. The commands answered are those parsed off
  the front of what is left of the buffer.
\<close>

lemma process_buffer_steps:
  assumes self: "\<And>x. R x x" and trans: "\<And>x y z. R x y \<Longrightarrow> R y z \<Longrightarrow> R x z"
    and buf: "\<And>st e b. R (st, e) (st\<lparr>read_buffer := b\<rparr>, e)"
    and send: "\<And>st e data. R (st, e) (st, snd (send os fd data e))"
    and ans: "\<And>i st e b. suffix b buffer \<Longrightarrow> rp_ok (parse_command b) \<Longrightarrow>
      R (st, e) (snd (answer (sub_os os i) info pw fd (rp_command (parse_command b)) st e))"
    and "suffix (read_buffer st) buffer"
  shows "R (st, e) (snd (process_buffer os i info pw fd st e))"
  using send ans assms(6)
proof (induction os i info pw fd st e rule: process_buffer.induct)
  case (1 os i info pw fd st e)
  let ?p = "parse_command (read_buffer st)"
  let ?st = "st\<lparr>read_buffer := drop (rp_consumed ?p) (read_buffer st)\<rparr>"
  obtain r st2 e1 where ans: "answer (sub_os os i) info pw fd (rp_command ?p) ?st e = (r, st2, e1)"
    by (metis prod.collapse)
  obtain ok e2 where snt: "send os fd (serialize_response r) e1 = (ok, e2)" by force
  have left: "suffix (read_buffer ?st) buffer"
    using "1.prems"(3) suffix_drop suffix_order.trans by fastforce
  have left2: "suffix (read_buffer st2) buffer"
    using left answer_buffer [of "sub_os os i" info pw fd "rp_command ?p" ?st e] ans by simp
  have served: "R (st, e) (st2, e2)" if "rp_ok ?p"
    using buf [of st e] "1.prems"(2) [OF "1.prems"(3) that, of ?st e i]
      "1.prems"(1) [of st2 e1 "serialize_response r"] ans snt trans by (metis snd_conv)
  have sent: "R (st, e) (?st, snd (send os fd d e))" for d
    using buf [of st e] "1.prems"(1) [of ?st e d] trans by blast
  consider "read_buffer st = [] \<or> rp_protocol_error ?p \<or> \<not> rp_ok ?p \<and> \<not> (rp_need_more ?p \<and> rp_consumed ?p > 0)"
    | "read_buffer st \<noteq> []" "\<not> rp_protocol_error ?p" "rp_need_more ?p" "rp_consumed ?p > 0"
    | "read_buffer st \<noteq> []" "\<not> rp_protocol_error ?p" "\<not> rp_need_more ?p" "rp_ok ?p"
    using parse_command_one_flag [of "read_buffer st"] by (auto simp: one_flag_def)
  then show ?case
  proof cases
    case 1
    then show ?thesis
      using self "1.prems"(1) by (auto simp: process_buffer.simps [of os i info pw fd st e] Let_def)
  next
    case 2
    then have "R (?st, e) (snd (process_buffer os i info pw fd ?st e))"
      using "1.IH"(1) [OF _ refl refl] "1.prems"(1,2) left by simp
    then show ?thesis
      using 2 buf [of st e] trans
      by (simp add: process_buffer.simps [of os i info pw fd st e] Let_def) blast
  next
    case 3
    have IH: "R (st2, e2) (snd (process_buffer os (Suc i) info pw fd st2 e2))"
      if "ok" "\<not> length (read_buffer ?st) > MAX_BUFFER" "cmd_name (rp_command ?p) \<noteq> ''QUIT''"
      using "1.IH"(2) [OF 3(1) refl refl 3(2,3) _ that(2,3) ans [symmetric] refl snt [symmetric] that(1)] 3(4)
        "1.prems"(1,2) left2 by simp
    show ?thesis
      using 3 buf [of st e] sent served IH trans ans snt
      by (simp add: process_buffer.simps [of os i info pw fd st e] Let_def)
  qed
qed

lemma process_buffer_rel:
  assumes "\<And>x. R x x" and "\<And>x y z. R x y \<Longrightarrow> R y z \<Longrightarrow> R x z"
    and "\<And>st e b. R (st, e) (st\<lparr>read_buffer := b\<rparr>, e)"
    and "\<And>st e data. R (st, e) (st, snd (send os fd data e))"
    and "\<And>i st e cmd. R (st, e) (snd (answer (sub_os os i) info pw fd cmd st e))"
  shows "R (st, e) (snd (process_buffer os i info pw fd st e))"
  using assms(5) by (intro process_buffer_steps [OF assms(1-4), where buffer = "read_buffer st"]) auto

lemma process_buffer_inv:
  "env_inv e \<Longrightarrow> env_inv (snd (snd (process_buffer os i info pw fd st e)))"
  using process_buffer_rel [where R = "\<lambda>x y. env_inv (snd x) \<longrightarrow> env_inv (snd y)" and e = e]
  by (simp add: answer_inv)

subsection \<open>Subscriptions of other clients\<close>

lemma execute_single_frame: "ps_frame (client_fd h) (env_ps e) (env_ps (snd (execute_single os h cmd e)))"
proof -
  have "ps_frame (client_fd h) (env_ps e) (env_ps (snd (handle_save os e)))"
    by (simp add: handle_save_def split_beta)
  moreover have "ps_frame (client_fd h) (env_ps e) (env_ps (snd (handle_publish os args e)))" for args
    by (simp add: handle_publish_def split_beta ps_frame_publish)
  moreover have "ps_frame (client_fd h) (env_ps e) (env_ps (snd (on_ps (handle_subscribe (client_fd h) args) e)))" for args
    using ps_frame_subscribe by (simp add: on_ps_def handle_subscribe_def split_beta)
  moreover have "ps_frame (client_fd h) (env_ps e) (env_ps (snd (on_ps (handle_unsubscribe (client_fd h) args) e)))" for args
    using ps_frame_unsubscribe by (simp add: on_ps_def handle_unsubscribe_def split_beta)
  ultimately show ?thesis
    unfolding execute_single_def Let_def
    by (intro if_snd [where P = "\<lambda>e'. ps_frame (client_fd h) (env_ps e) (env_ps e')"]) simp_all
qed

lemma exec_queue_frame: "ps_frame (client_fd h) (env_ps e) (env_ps (snd (exec_queue os i h cmds e)))"
proof (induction cmds arbitrary: i e)
  case (Cons cmd cmds)
  then show ?case
    using ps_frame_trans [OF execute_single_frame [of h e "sub_os os i" cmd]]
    by (simp add: split_beta Let_def)
qed simp

lemma execute_frame: "ps_frame (client_fd h) (env_ps e) (env_ps (snd (snd (execute os cmd h e))))"
proof -
  have "ps_frame (client_fd h) (env_ps e) (env_ps (snd (exec_queue os i h cmds (e\<lparr>env_db := db\<rparr>))))" for os i cmds db
    using exec_queue_frame [of h "e\<lparr>env_db := db\<rparr>" os i cmds] by simp
  then have "ps_frame (client_fd h) (env_ps e) (env_ps (snd (snd (handle_exec os h e))))"
    by (simp add: handle_exec_def Let_def split_beta)
  then show ?thesis
    using execute_single_frame [of h e os cmd] by (simp add: execute_def split_beta Let_def)
qed

lemma process_buffer_frame:
  "ps_frame fd (env_ps e) (env_ps (snd (snd (process_buffer os i info pw fd st e))))"
proof -
  have "ps_frame fd (env_ps e) (env_ps (snd (snd (answer os info pw fd cmd st e))))" for os cmd st and e :: "'a env"
    using execute_frame [of "set_server info (new_handler fd)" e os cmd]
    by (simp add: answer_def split_beta Let_def set_server_def new_handler_def)
  then show ?thesis
    using process_buffer_rel [where R = "\<lambda>x y. ps_frame fd (env_ps (snd x)) (env_ps (snd y))" and e = e]
      ps_frame_trans by fastforce
qed

subsection \<open>Sockets of other clients\<close>

text \<open>Nothing is written to a client that is subscribed to nothing, and it stays so.\<close>

definition quiet :: "('w \<Rightarrow> socket_t \<Rightarrow> string) \<Rightarrow> socket_t \<Rightarrow> 'w env \<Rightarrow> 'w env \<Rightarrow> bool" where
  "quiet out c e e' \<longleftrightarrow> (env_inv e \<and> channels_of (env_ps e) c = [] \<longrightarrow>
     env_inv e' \<and> channels_of (env_ps e') c = [] \<and> out (env_net e') c = out (env_net e) c)"

lemma quiet_trans: "quiet out c e e1 \<Longrightarrow> quiet out c e1 e2 \<Longrightarrow> quiet out c e e2"
  by (simp add: quiet_def)

lemma quietI:
  assumes "env_inv e \<Longrightarrow> env_inv e'" and "ps_frame s (env_ps e) (env_ps e')" and "c \<noteq> s"
    and "env_inv e \<Longrightarrow> channels_of (env_ps e) c = [] \<Longrightarrow> out (env_net e') c = out (env_net e) c"
  shows "quiet out c e e'"
  using assms unfolding quiet_def ps_frame_def by (metis list.set(1) set_empty subset_empty)

lemma send_quiet:
  assumes "lawful_write (os_write os) out" and "c \<noteq> s"
  shows "quiet out c e (snd (send os s data e))"
proof (rule quietI [OF _ _ assms(2)])
  show "out (env_net (snd (send os s data e))) c = out (env_net e) c"
    using write_loop_sends [OF assms(1), of s data "env_net e"] assms(2)
    by (auto simp: send_def send_response_def resp_write_exact_def split: prod.split)
qed simp_all

lemma publish_quiet:
  assumes "lawful_write (os_write os) out" and "env_inv e" and "channels_of (env_ps e) c = []"
  shows "out (env_net (snd (handle_publish os args e))) c = out (env_net e) c"
proof -
  have wf: "pubsub_wf (env_ps e)" using assms(2) by (simp add: env_inv_def)
  then have "c \<notin> set (subscribers (env_ps e) ch)" for ch
    using assms(3) by (simp add: pubsub_wf_def indices_agree_def)
  then show ?thesis
    using publish_spec [OF wf assms(1)] by (auto simp: handle_publish_def split: prod.split)
qed

lemma execute_single_quiet:
  assumes "lawful_write (os_write os) out" and "c \<noteq> client_fd h"
  shows "quiet out c e (snd (execute_single os h cmd e))"
proof (rule quietI [OF execute_single_inv execute_single_frame assms(2)])
  assume e: "env_inv e" "channels_of (env_ps e) c = []"
  show "out (env_net (snd (execute_single os h cmd e))) c = out (env_net e) c"
    unfolding execute_single_def Let_def
    by (intro if_snd [where P = "\<lambda>e'. out (env_net e') c = out (env_net e) c"] publish_quiet [OF assms(1) e])
      (simp_all add: on_db_def on_ps_def handle_save_def split_beta)
qed

lemma exec_queue_quiet:
  assumes "lawful_write (os_write os) out" and "c \<noteq> client_fd h"
  shows "quiet out c e (snd (exec_queue os i h cmds e))"
proof (induction cmds arbitrary: i e)
  case (Cons cmd cmds)
  have "lawful_write (os_write (sub_os os i)) out" using assms(1) by (simp add: sub_os_def)
  then show ?case
    using quiet_trans [OF execute_single_quiet [OF _ assms(2)] Cons] by (simp add: split_beta Let_def)
qed (simp add: quiet_def)

lemma execute_quiet:
  assumes "lawful_write (os_write os) out" and "c \<noteq> client_fd h"
  shows "quiet out c e (snd (snd (execute os cmd h e)))"
proof (rule quietI [OF execute_inv execute_frame assms(2)])
  assume e: "env_inv e" "channels_of (env_ps e) c = []"
  have "lawful_write (os_write (sub_os os 1)) out" using assms(1) by (simp add: sub_os_def)
  note queue = exec_queue_quiet [OF this assms(2)]
  have "env_inv (e\<lparr>env_db := snd (watched_keys_modified c' i snaps (env_db e))\<rparr>)" for c' i snaps
    using e(1) by (simp add: env_inv_def watched_keys_modified_inv)
  then have "out (env_net (snd (snd (handle_exec os h e)))) c = out (env_net e) c"
    using e queue [of "e\<lparr>env_db := snd (watched_keys_modified c' i snaps (env_db e))\<rparr>" for c' i snaps]
      queue [of "e\<lparr>env_db := env_db e\<rparr>"]
    by (auto simp: handle_exec_def Let_def split_beta quiet_def)
  moreover have "out (env_net (snd (execute_single os h cmd e))) c = out (env_net e) c"
    using execute_single_quiet [OF assms] e by (simp add: quiet_def)
  ultimately show "out (env_net (snd (snd (execute os cmd h e)))) c = out (env_net e) c"
    by (simp add: execute_def split_beta Let_def)
qed

lemma process_buffer_quiet:
  assumes "lawful_write (os_write os) out" and "c \<noteq> fd"
  shows "quiet out c e (snd (snd (process_buffer os i info pw fd st e)))"
proof -
  have "quiet out c e (snd (snd (answer (sub_os os i) info pw fd cmd st e)))" for i cmd st e
    using execute_quiet [of "sub_os os i" out c "set_server info (new_handler fd)"] assms
    by (simp add: answer_def split_beta Let_def set_server_def new_handler_def sub_os_def) (simp add: quiet_def)
  then show ?thesis
    using process_buffer_rel [where R = "\<lambda>x y. quiet out c (snd x) (snd y)" and e = e and os = os and fd = fd]
      send_quiet [OF assms] quiet_trans by (simp add: quiet_def)
qed

subsection \<open>The server invariant\<close>

definition srv_inv :: "'w server \<Rightarrow> bool" where
  "srv_inv srv \<longleftrightarrow> env_inv (srv_env srv) \<and> um_wf (clients srv) \<and>
     (\<forall>fd. channels_of (env_ps (srv_env srv)) fd \<noteq> [] \<longrightarrow> um_find (clients srv) fd \<noteq> None)"

lemma process_bytes_inv: "srv_inv srv \<Longrightarrow> srv_inv (snd (process_bytes os bytes fd srv))"
proof -
  assume inv: "srv_inv srv"
  let ?st = "case um_find (clients srv) fd of None \<Rightarrow> new_client [] | Some st \<Rightarrow> st"
  let ?st0 = "?st\<lparr>read_buffer := read_buffer ?st @ bytes\<rparr>"
  let ?srv0 = "srv\<lparr>clients := um_put fd ?st0 (clients srv)\<rparr>"
  let ?run = "process_buffer os 0 \<lparr>info_start_time = start_time srv, info_client_count = client_count ?srv0\<rparr>
    (password srv) fd ?st0 (srv_env srv)"
  have srv': "snd (process_bytes os bytes fd srv) =
      ?srv0\<lparr>clients := um_put fd (fst (snd ?run)) (clients ?srv0), srv_env := snd (snd ?run)\<rparr>"
    by (simp add: process_bytes_def Let_def split_beta)
  have "env_inv (snd (snd ?run))"
    using inv by (intro process_buffer_inv) (simp add: srv_inv_def)
  moreover have "um_find (clients srv) fd' \<noteq> None"
    if "fd' \<noteq> fd" "channels_of (env_ps (snd (snd ?run))) fd' \<noteq> []" for fd'
  proof -
    have "set (channels_of (env_ps (snd (snd ?run))) fd') \<subseteq> set (channels_of (env_ps (srv_env srv)) fd')"
      using process_buffer_frame that(1) unfolding ps_frame_def by blast
    then have "channels_of (env_ps (srv_env srv)) fd' \<noteq> []" using that(2) by auto
    then show ?thesis using inv by (simp add: srv_inv_def)
  qed
  moreover have "um_wf (clients srv)" using inv by (simp add: srv_inv_def)
  ultimately show ?thesis
    unfolding srv' by (auto simp: srv_inv_def)
qed

lemma process_client_inv: "srv_inv srv \<Longrightarrow> srv_inv (snd (process_client os r fd srv))"
  by (cases r) (simp_all add: process_client_def process_bytes_inv Let_def)

lemma serve_ready_inv: "srv_inv srv \<Longrightarrow> srv_inv (snd (serve_ready os rd i fds srv))"
proof (induction fds arbitrary: i srv)
  case (Cons fd fds)
  then show ?case
    using process_client_inv [of srv] by (simp add: split_beta Let_def split: option.split)
qed simp

lemma accept_client_inv: "srv_inv srv \<Longrightarrow> srv_inv (accept_client os fd peer srv)"
  by (simp add: accept_client_def srv_inv_def)

lemma disconnect_client_inv: "srv_inv srv \<Longrightarrow> srv_inv (disconnect_client os fd srv)"
  using client_disconnected_subs(2) [of "env_ps (srv_env srv)" fd]
  by (auto simp: disconnect_client_def Let_def srv_inv_def env_inv_def client_disconnected_wf)

lemma fold_disconnect_inv: "srv_inv srv \<Longrightarrow> srv_inv (fold (disconnect_client os) fds srv)"
  by (induction fds arbitrary: srv) (simp_all add: disconnect_client_inv)

lemma loop_round_inv: "srv_inv srv \<Longrightarrow> srv_inv (snd (loop_round os ev srv))"
  by (auto simp: loop_round_def Let_def split_beta accept_client_inv
      intro!: fold_disconnect_inv serve_ready_inv split: select_result.split option.split)

lemma server_stop_inv: "srv_inv srv \<Longrightarrow> srv_inv (server_stop os srv)"
  by (simp add: server_stop_def Let_def srv_inv_def env_inv_def)

lemma srv_step_inv: "srv_step s s' \<Longrightarrow> srv_inv (snd s) \<Longrightarrow> srv_inv (snd s')"
proof (induction rule: srv_step.induct)
  case (expire go srv now)
  then show ?case by (auto simp: srv_inv_def env_inv_def)
qed (simp_all add: loop_round_inv server_stop_inv)

lemma reachable_inv: "reachable s0 s \<Longrightarrow> srv_inv (snd s0) \<Longrightarrow> srv_inv (snd s)"
  by (induction rule: reachable.induct) (auto dest: srv_step_inv)

text \<open>The function and the relation have the same states.\<close>

lemma reachable_trans: "reachable s t \<Longrightarrow> reachable r s \<Longrightarrow> reachable r t"
  by (induction rule: reachable.induct) (auto intro: reachable.step)

lemma reachable_first: "srv_step s t \<Longrightarrow> reachable t u \<Longrightarrow> reachable s u"
  using reachable_trans reachable.step [OF reachable.start] by blast

lemma event_loop_reachable: "reachable s (event_loop evs s)"
proof (induction evs s rule: event_loop.induct)
  case (2 os ev evs go srv)
  then show ?case
    by (auto intro: reachable_first srv_step.round srv_step.leave)
next
  case (3 now evs go srv)
  then show ?case by (auto intro: reachable_first srv_step.expire)
next
  case (4 os evs go srv)
  then show ?case by (auto intro: reachable_first srv_step.signal)
qed (simp add: reachable.start)

lemma event_loop_append: "event_loop (xs @ ys) s = event_loop ys (event_loop xs s)"
  by (induction xs s rule: event_loop.induct) simp_all

lemma reachable_event_loop: "reachable s t \<Longrightarrow> \<exists>evs. t = event_loop evs s"
proof (induction rule: reachable.induct)
  case start
  have "s = event_loop [] s" by simp
  then show ?case by blast
next
  case (step t u)
  then obtain evs where t: "t = event_loop evs s" by blast
  from step(2) have "\<exists>ev. u = event_loop [ev] t"
  proof cases
    case (round srv os ev)
    then have "u = event_loop [Round os ev] t" by simp
    then show ?thesis by blast
  next
    case (leave srv)
    then have "u = event_loop [Round os ev] t" for os ev by simp
    then show ?thesis by blast
  next
    case (expire go srv now)
    then have "u = event_loop [Purge now] t" by simp
    then show ?thesis by blast
  next
    case (signal go srv os)
    then have "u = event_loop [Signal os] t" by simp
    then show ?thesis by blast
  qed
  then show ?case using t event_loop_append by metis
qed

lemma new_server_inv: "env_inv e \<Longrightarrow> channels_of (env_ps e) = (\<lambda>_. []) \<Longrightarrow> srv_inv (new_server host port e)"
  by (simp add: srv_inv_def new_server_def)

lemma start_listening_inv: "srv_inv srv \<Longrightarrow> srv_inv (snd (start_listening os fd b l now srv))"
  by (simp add: start_listening_eq Let_def srv_inv_def env_inv_def)

section \<open>Authentication\<close>

lemma answer_unauthenticated:
  assumes "pw \<noteq> []" and "\<not> authenticated (fst (snd (answer os info pw fd cmd st e)))"
  shows "snd (snd (answer os info pw fd cmd st e)) = e" and "\<not> authenticated st"
  using assms by (auto simp: answer_def split_beta Let_def split: if_splits)

definition same_data :: "'w env \<Rightarrow> 'w env \<Rightarrow> bool" where
  "same_data e e' \<longleftrightarrow> env_db e' = env_db e \<and> env_ps e' = env_ps e \<and> env_fs e' = env_fs e"

lemma process_buffer_unauthenticated:
  assumes "pw \<noteq> []"
    and "\<not> authenticated (fst (snd (process_buffer os i info pw fd st e)))"
  shows "same_data e (snd (snd (process_buffer os i info pw fd st e)))"
proof -
  let ?R = "\<lambda>x y. \<not> authenticated (fst y) \<longrightarrow> \<not> authenticated (fst x) \<and> same_data (snd x) (snd y)"
  have "?R (st, e) (snd (process_buffer os i info pw fd st e))"
  proof (rule process_buffer_rel [where R = ?R])
    show "\<And>i st e cmd. ?R (st, e) (snd (answer (sub_os os i) info pw fd cmd st e))"
      by (auto simp: same_data_def answer_unauthenticated [OF assms(1)])
  qed (auto simp: same_data_def)
  with assms(2) show ?thesis by simp
qed

lemma answer_authenticates:
  assumes "pw \<noteq> []" and "authenticated (fst (snd (answer os info pw fd cmd st e)))"
  shows "authenticated st \<or> cmd_name cmd = ''AUTH'' \<and> cmd_args cmd = [pw]"
  using assms
  by (cases "cmd_args cmd") (auto simp: answer_def split_beta Let_def split: if_splits)

text \<open>The reads of a client, in terms of the command loop.\<close>

definition client_of :: "socket_t \<Rightarrow> 'w server \<Rightarrow> ClientState" where
  "client_of fd srv = (case um_find (clients srv) fd of None \<Rightarrow> new_client [] | Some st \<Rightarrow> st)"

lemma process_bytes_loop:
  assumes "process_bytes os bytes fd srv = (keep, srv')"
  obtains info st' e' where
    "process_buffer os 0 info (password srv) fd
       ((client_of fd srv)\<lparr>read_buffer := read_buffer (client_of fd srv) @ bytes\<rparr>) (srv_env srv) = (keep, st', e')"
    and "\<And>c. um_find (clients srv') c = (if c = fd then Some st' else um_find (clients srv) c)"
    and "client_of fd srv' = st'" and "srv_env srv' = e'" and "password srv' = password srv"
  using assms by (auto simp: process_bytes_def client_of_def Let_def split_beta prod_eq_iff)

text \<open>A read ends the connection, or its bytes go through the loop.\<close>

lemma process_client_cases:
  assumes "process_client os (ReadBytes arrived) fd srv = (keep, srv')"
  obtains "srv' = srv" "take READ_SIZE arrived = []" "\<not> keep"
  | "process_bytes os (take READ_SIZE arrived) fd srv = (keep, srv')" "take READ_SIZE arrived \<noteq> []"
  using assms by (cases "take READ_SIZE arrived = []") (simp_all add: process_client_def)

section \<open>Pipelining\<close>

text \<open>Answering a list of commands directly.\<close>

fun serve_all :: "'w os \<Rightarrow> nat \<Rightarrow> server_info \<Rightarrow> string \<Rightarrow> socket_t \<Rightarrow> Command list \<Rightarrow> ClientState \<Rightarrow> 'w env
    \<Rightarrow> bool \<times> ClientState \<times> 'w env" where
  "serve_all os i info pw fd [] st e = (True, st, e)"
| "serve_all os i info pw fd (cmd # cmds) st e =
     (if cmd_name cmd = ''QUIT'' then (False, st, snd (send os fd (simple_string ''OK'') e))
      else case answer (sub_os os i) info pw fd cmd st e of
        (response, st2, e1) \<Rightarrow>
          (case send os fd (serialize_response response) e1 of
             (ok, e2) \<Rightarrow> if ok then serve_all os (Suc i) info pw fd cmds st2 e2 else (False, st2, e2)))"

definition wire_words :: "string list \<Rightarrow> bool" where
  "wire_words ws \<longleftrightarrow> ws \<noteq> [] \<and> int (length ws) \<le> int_max \<and> (\<forall>w \<in> set ws. int (length w) \<le> int_max)"

abbreviation wire :: "string list \<Rightarrow> string" where
  "wire ws \<equiv> resp_array (map bulk_string ws)"

lemma wire_nonempty: "resp_array xs \<noteq> []"
  by (simp add: resp_array_def)

lemma parse_wire:
  "wire_words ws \<Longrightarrow> parse_command (wire ws @ rest) =
     rp_result True False False (make_command ws) (length (wire ws))"
  using parse_resp_array_enc [of ws rest]
  by (simp add: wire_words_def parse_command_def resp_array_def)

lemma answer_ignores_buffer:
  "answer os info pw fd cmd (st\<lparr>read_buffer := b\<rparr>) e =
     (case answer os info pw fd cmd st e of (r, st', e') \<Rightarrow> (r, st'\<lparr>read_buffer := b\<rparr>, e'))"
  by (auto simp: answer_def split_beta Let_def)

definition incomplete :: "string \<Rightarrow> bool" where
  "incomplete b \<longleftrightarrow> b = [] \<or> rp_need_more (parse_command b) \<and> rp_consumed (parse_command b) = 0"

text \<open>Parsing commands off the buffer and answering them is answering the list of commands.\<close>

lemma process_pipeline:
  assumes "list_all wire_words wss" and "incomplete rest"
    and "length (concat (map wire wss) @ rest) \<le> MAX_BUFFER"
    and "serve_all os i info pw fd (map make_command wss) st e = (ok, st', e')"
  shows "\<exists>b. process_buffer os i info pw fd (st\<lparr>read_buffer := concat (map wire wss) @ rest\<rparr>) e =
    (ok, st'\<lparr>read_buffer := b\<rparr>, e') \<and> (ok \<longrightarrow> b = rest)"
  using assms(1,3,4)
proof (induction wss arbitrary: i st e)
  case Nil
  have "\<not> rp_protocol_error (parse_command rest)" if "rp_need_more (parse_command rest)"
    using that parse_command_one_flag [of rest] by (auto simp: one_flag_def)
  then show ?case
    using Nil assms(2) by (subst process_buffer.simps) (auto simp: incomplete_def Let_def)
next
  case (Cons ws wss)
  let ?tail = "concat (map wire wss) @ rest"
  have parse: "parse_command (wire ws @ ?tail) = rp_result True False False (make_command ws) (length (wire ws))"
    using Cons.prems(1) by (intro parse_wire) simp
  have small: "\<not> MAX_BUFFER < length ?tail" using Cons.prems(2) by simp
  obtain r st2 e1 where ans: "answer (sub_os os i) info pw fd (make_command ws) st e = (r, st2, e1)"
    by (metis prod.collapse)
  obtain snt e2 where send: "send os fd (serialize_response r) e1 = (snt, e2)" by force
  have step: "process_buffer os i info pw fd (st\<lparr>read_buffer := wire ws @ ?tail\<rparr>) e =
      (if cmd_name (make_command ws) = ''QUIT''
       then (False, st\<lparr>read_buffer := ?tail\<rparr>, snd (send os fd (simple_string ''OK'') e))
       else if snt then process_buffer os (Suc i) info pw fd (st2\<lparr>read_buffer := ?tail\<rparr>) e2
       else (False, st2\<lparr>read_buffer := ?tail\<rparr>, e2))"
    using process_buffer_command [of "st\<lparr>read_buffer := wire ws @ ?tail\<rparr>", OF _ refl _ refl,
        of os i info pw fd e r "st2\<lparr>read_buffer := ?tail\<rparr>" e1 snt e2] small
    by (simp add: parse ans send answer_ignores_buffer wire_nonempty)
  show ?case
    using Cons.IH [of "Suc i" st2 e2] Cons.prems ans send step
    by (auto split: if_splits)
qed

text \<open>The same for the bytes read from the socket of a client whose buffer is empty.\<close>

lemma process_bytes_wire:
  assumes "process_bytes os (concat (map wire wss)) fd srv = (keep, srv')"
    and "list_all wire_words wss" and "read_buffer (client_of fd srv) = []"
    and "length (concat (map wire wss)) \<le> MAX_BUFFER"
  obtains info st b where
    "serve_all os 0 info (password srv) fd (map make_command wss) (client_of fd srv) (srv_env srv) =
       (keep, st, srv_env srv')"
    and "client_of fd srv' = st\<lparr>read_buffer := b\<rparr>"
proof -
  obtain info st1 e1 where run: "process_buffer os 0 info (password srv) fd
      ((client_of fd srv)\<lparr>read_buffer := concat (map wire wss) @ []\<rparr>) (srv_env srv) = (keep, st1, e1)"
    and srv': "client_of fd srv' = st1" "srv_env srv' = e1"
    using process_bytes_loop [OF assms(1)] assms(3) by (metis append_Nil append_Nil2)
  obtain ok st e where all: "serve_all os 0 info (password srv) fd (map make_command wss) (client_of fd srv)
      (srv_env srv) = (ok, st, e)" by (metis prod_cases3)
  have "\<exists>b. (keep, st1, e1) = (ok, st\<lparr>read_buffer := b\<rparr>, e)"
    using process_pipeline [OF assms(2) _ _ all, of "[]"] assms(4) unfolding run by (auto simp: incomplete_def)
  then show ?thesis using that all srv' by auto
qed

text \<open>A proper prefix of a command on the wire is incomplete.\<close>

lemma prefix_incomplete:
  assumes "wire_words ws" and "wire ws = p @ q" and "q \<noteq> []"
  shows "incomplete p"
proof (cases "p = []")
  case False
  then have star: "p ! 0 = CHR ''*''"
    using assms(2) by (cases p) (auto simp: resp_array_def)
  then have arr: "parse_command p = parse_resp_array p" "parse_command (p @ q) = parse_resp_array (p @ q)"
    using False by (simp_all add: parse_command_def nth_append)
  have full: "rp_consumed (parse_resp_array (p @ q)) = length (p @ q)"
    using parse_wire [OF assms(1), of "[]"] assms(2) arr(2) by simp
  have "\<not> rp_need_more (parse_resp_array (p @ q))"
    using parse_wire [OF assms(1), of "[]"] assms(2) arr(2) by simp
  then have "array_verdict p = None"
    using ap.prefix_waits [of p q "parse_resp_array (p @ q)"] full assms(3) by (simp add: array_verdict_def)
  then have "rp_need_more (parse_resp_array p)" by (simp add: array_verdict_def Let_def split: if_splits)
  moreover from this have "rp_consumed (parse_resp_array p) = 0"
    by (auto simp: parse_resp_array_def split: option.splits if_splits sum.splits resp_fail.splits)
  ultimately show ?thesis by (simp add: incomplete_def arr)
qed (simp add: incomplete_def)

text \<open>The loop ends only when nothing complete is left, and it only takes bytes off the front.\<close>

lemma process_buffer_drains:
  "process_buffer os i info pw fd st e = (True, st', e') \<Longrightarrow>
   incomplete (read_buffer st') \<and> suffix (read_buffer st') (read_buffer st)"
proof (induction os i info pw fd st e rule: process_buffer.induct)
  case (1 os i info pw fd st e)
  let ?parse = "parse_command (read_buffer st)"
  let ?st1 = "st\<lparr>read_buffer := drop (rp_consumed ?parse) (read_buffer st)\<rparr>"
  show ?case
  proof (cases "read_buffer st = [] \<or> rp_protocol_error ?parse")
    case True
    then show ?thesis
      using "1.prems" by (subst (asm) process_buffer.simps) (auto simp: Let_def incomplete_def split: if_splits)
  next
    case nonempty: False
    show ?thesis
    proof (cases "rp_need_more ?parse")
      case True
      then show ?thesis
        using nonempty "1.prems" "1.IH"(1) [OF _ refl refl]
        by (subst (asm) process_buffer.simps)
          (auto simp: Let_def incomplete_def suffix_drop intro: suffix_order.trans split: if_splits)
    next
      case False
      then have ok: "rp_ok ?parse"
        using nonempty parse_command_one_flag [of "read_buffer st"] by (auto simp: one_flag_def)
      obtain response st2 e1 where answer:
        "answer (sub_os os i) info pw fd (rp_command ?parse) ?st1 e = (response, st2, e1)"
        by (metis prod_cases3)
      obtain sent e2 where sent: "send os fd (serialize_response response) e1 = (sent, e2)" by force
      have buffer: "read_buffer st2 = read_buffer ?st1"
        using answer_buffer [of "sub_os os i" info pw fd "rp_command ?parse" ?st1 e] answer by simp
      have guards: "\<not> length (read_buffer ?st1) > MAX_BUFFER" "cmd_name (rp_command ?parse) \<noteq> ''QUIT''" sent
        and loop: "process_buffer os (Suc i) info pw fd st2 e2 = (True, st', e')"
        using "1.prems" process_buffer_command [OF _ refl ok refl answer sent] nonempty by (simp_all split: if_splits)
      have "incomplete (read_buffer st') \<and> suffix (read_buffer st') (read_buffer st2)"
        using "1.IH"(2) [OF _ refl refl _ False _ guards(1,2) answer [symmetric] refl sent [symmetric] guards(3) loop]
          nonempty ok by simp
      then show ?thesis by (auto simp: buffer suffix_drop intro: suffix_order.trans)
    qed
  qed
qed

lemma incomplete_waits:
  assumes "incomplete p"
  shows "process_buffer os i info pw fd (st\<lparr>read_buffer := p\<rparr>) e = (True, st\<lparr>read_buffer := p\<rparr>, e)"
proof -
  have "\<not> rp_protocol_error (parse_command p)" if "rp_need_more (parse_command p)"
    using that parse_command_one_flag [of p] by (auto simp: one_flag_def)
  then show ?thesis
    using assms by (subst process_buffer.simps) (auto simp: incomplete_def Let_def)
qed

text \<open>An inline command without a line feed.\<close>

lemma no_line_parse:
  assumes "p \<noteq> []" and "p ! 0 \<noteq> CHR ''*''" and "LF \<notin> set p"
  shows "parse_command p = (if length p > max_inline then protocol_error else need_more)"
proof -
  have "find_char LF p = None" using assms(3) by (simp add: find_char_None)
  moreover have "find_crlf p 0 = None"
  proof (rule ccontr)
    assume "find_crlf p 0 \<noteq> None"
    then obtain eol where "find_crlf p 0 = Some eol" by blast
    from find_crlf_Some(2,4) [OF this] assms(3) show False by (metis nth_mem)
  qed
  ultimately show ?thesis using assms(1,2) by (simp add: parse_command_def parse_inline_def)
qed

lemma no_line_incomplete:
  "p = [] \<or> p ! 0 \<noteq> CHR ''*'' \<Longrightarrow> LF \<notin> set p \<Longrightarrow> length p \<le> max_inline \<Longrightarrow> incomplete p"
  by (cases "p = []") (auto simp: incomplete_def no_line_parse)

lemma process_bytes_others:
  assumes "lawful_write (os_write os) out" and "srv_inv srv" and "c \<noteq> fd"
    and "process_bytes os bytes fd srv = (keep, srv')"
  shows "um_find (clients srv') c = um_find (clients srv) c \<and> password srv' = password srv \<and>
    set (channels_of (env_ps (srv_env srv')) c) \<subseteq> set (channels_of (env_ps (srv_env srv)) c) \<and>
    (channels_of (env_ps (srv_env srv)) c = [] \<longrightarrow>
       out (env_net (srv_env srv')) c = out (env_net (srv_env srv)) c)"
proof -
  obtain info st e where run: "process_buffer os 0 info (password srv) fd
      ((client_of fd srv)\<lparr>read_buffer := read_buffer (client_of fd srv) @ bytes\<rparr>) (srv_env srv) = (keep, st, e)"
    and srv': "um_find (clients srv') c = um_find (clients srv) c" "srv_env srv' = e" "password srv' = password srv"
    using process_bytes_loop [OF assms(4)] assms(3) by metis
  have "ps_frame fd (env_ps (srv_env srv)) (env_ps e)" "quiet out c (srv_env srv) e"
    using process_buffer_frame process_buffer_quiet [OF assms(1,3)] run by (metis snd_conv)+
  then show ?thesis
    using srv' assms(2,3) by (simp add: quiet_def ps_frame_def srv_inv_def)
qed

lemma process_client_others:
  assumes "lawful_write (os_write os) out" and "srv_inv srv" and "c \<noteq> fd"
    and "process_client os rd fd srv = (keep, srv')"
  shows "um_find (clients srv') c = um_find (clients srv) c \<and> password srv' = password srv \<and>
    set (channels_of (env_ps (srv_env srv')) c) \<subseteq> set (channels_of (env_ps (srv_env srv)) c) \<and>
    (channels_of (env_ps (srv_env srv)) c = [] \<longrightarrow>
       out (env_net (srv_env srv')) c = out (env_net (srv_env srv)) c)"
  using process_bytes_others [OF assms(1-3)] assms(4)
  by (cases rd) (auto simp: process_client_def Let_def split: if_splits)

section \<open>Properties\<close>

text \<open>
  In every state the running server can reach, by rounds of the event loop with any input on any
  sockets, rounds of the expiry thread and signals, the database and the pub/sub manager satisfy
  their invariants, and every subscriber of every channel is a connected client.
\<close>

lemma server_invariant:
  assumes "db_inv (env_db e)" and "env_ps e = new_pubsub"
    and "reachable (start_listening os fd bind_ok listen_ok now (set_password pw (new_server host port e))) (go, srv)"
  shows "db_inv (env_db (srv_env srv)) \<and> pubsub_wf (env_ps (srv_env srv)) \<and>
    (\<forall>ch fd. fd \<in> set (subscribers (env_ps (srv_env srv)) ch) \<longrightarrow> um_find (clients srv) fd \<noteq> None)"
proof -
  have "srv_inv (set_password pw (new_server host port e))"
    using assms(1,2) pubsub_wf_new
    by (simp add: srv_inv_def set_password_def new_server_def env_inv_def)
  then have inv: "srv_inv srv"
    using reachable_inv [OF assms(3)] by (simp add: start_listening_inv)
  then have agree: "fd \<in> set (subscribers (env_ps (srv_env srv)) ch) \<longleftrightarrow>
      ch \<in> set (channels_of (env_ps (srv_env srv)) fd)" for fd ch
    by (simp add: srv_inv_def env_inv_def pubsub_wf_def indices_agree_def)
  have "um_find (clients srv) fd \<noteq> None" if "ch \<in> set (channels_of (env_ps (srv_env srv)) fd)" for fd ch
    using inv that unfolding srv_inv_def by (metis list.set(1) empty_iff)
  then show ?thesis using inv agree by (auto simp: srv_inv_def env_inv_def)
qed

text \<open>
  C29. The command loop ends whatever the bytes are, and it never stops early: if the client stays
  connected, what is left in its buffer is a suffix of what was there and holds no complete command.
\<close>

theorem command_loop_drains:
  assumes "process_buffer os i info pw fd st e = (True, st', e')"
  shows "suffix (read_buffer st') (read_buffer st) \<and>
    (if read_buffer st' = [] then True
     else rp_need_more (parse_command (read_buffer st')) \<and> rp_consumed (parse_command (read_buffer st')) = 0)"
  using process_buffer_drains [OF assms] by (auto simp: incomplete_def)

theorem command_loop_drains_witness:
  "suffix (read_buffer (fst (snd (process_buffer (still_os 0) 0 \<lparr>info_start_time = 0, info_client_count = 1\<rparr> [] 7
     \<lparr>read_buffer = ''*1'', addr = [], authenticated = False\<rparr> start_env)))) ''*1''"
proof -
  let ?st = "\<lparr>read_buffer = ''*1'', addr = [], authenticated = False\<rparr>"
  have "rp_need_more (parse_command ''*1'') \<and> rp_consumed (parse_command ''*1'') = 0 \<and>
    \<not> rp_protocol_error (parse_command ''*1'')" by code_simp
  then have "process_buffer (still_os 0) 0 \<lparr>info_start_time = 0, info_client_count = 1\<rparr> [] 7 ?st start_env =
      (True, ?st, start_env)"
    by (subst process_buffer.simps) (simp add: Let_def)
  from command_loop_drains [OF this] this show ?thesis by simp
qed

text \<open>
  C11. Parsing commands off the read buffer and serving them is serving the commands one by one: for
  any sequence of RESP commands followed by an incomplete one, the loop gives the replies and the
  effects of the commands in order and leaves the incomplete command in the buffer.
\<close>

theorem pipeline_served_in_order:
  assumes "list_all wire_words wss" and "incomplete rest"
    and "length (concat (map wire wss) @ rest) \<le> MAX_BUFFER"
    and "serve_all os i info pw fd (map make_command wss) st e = (ok, st', e')"
  shows "\<exists>b. process_buffer os i info pw fd (st\<lparr>read_buffer := concat (map wire wss) @ rest\<rparr>) e =
    (ok, st'\<lparr>read_buffer := b\<rparr>, e') \<and> (ok \<longrightarrow> b = rest)"
  by (rule process_pipeline [OF assms])

theorem pipeline_served_in_order_witness:
  "\<exists>b. process_buffer (still_os 0) 0 \<lparr>info_start_time = 0, info_client_count = 1\<rparr> [] 7
     (new_client []\<lparr>read_buffer := concat (map wire [[''quit''], [''get'', ''k'']]) @ []\<rparr>) start_env =
   (False, new_client []\<lparr>read_buffer := b\<rparr>, snd (send (still_os 0) 7 (simple_string ''OK'') start_env))"
proof -
  have up: "upper ''quit'' = ''QUIT''" by code_simp
  have "length (concat (map wire [[''quit''], [''get'', ''k'']]) @ []) = 34" by code_simp
  then have len: "length (concat (map wire [[''quit''], [''get'', ''k'']]) @ []) \<le> MAX_BUFFER"
    by (simp add: MAX_BUFFER_def)
  have "serve_all (still_os 0) 0 \<lparr>info_start_time = 0, info_client_count = 1\<rparr> [] 7
      (map make_command [[''quit''], [''get'', ''k'']]) (new_client []) start_env =
      (False, new_client [], snd (send (still_os 0) 7 (simple_string ''OK'') start_env))"
    by (simp add: make_command_def up)
  from pipeline_served_in_order [OF _ _ len this] show ?thesis
    by (auto simp: wire_words_def int_max_def incomplete_def)
qed

text \<open>
  C32. A command that has only partly arrived has no effect. Wherever a RESP command is cut, and as long as an
  inline command has no line feed and at most 64 KiB, the bytes wait in the buffer and nothing else changes; an inline
  command that is longer without a line feed is a protocol error, and the client is disconnected.
\<close>

theorem partial_command_waits:
  assumes "(\<exists>ws q. wire_words ws \<and> wire ws = p @ q \<and> q \<noteq> []) \<or> p \<noteq> [] \<and> p ! 0 \<noteq> CHR ''*'' \<and> LF \<notin> set p"
  shows "process_buffer os i info pw fd (st\<lparr>read_buffer := p\<rparr>) e =
    (if p \<noteq> [] \<and> p ! 0 \<noteq> CHR ''*'' \<and> length p > 64 * 1024
     then (False, st\<lparr>read_buffer := p\<rparr>, snd (send os fd (resp_error ''ERR Protocol error'') e))
     else (True, st\<lparr>read_buffer := p\<rparr>, e))"
proof (cases "p \<noteq> [] \<and> p ! 0 \<noteq> CHR ''*'' \<and> LF \<notin> set p")
  case True
  then show ?thesis
    using no_line_parse [of p] by (subst process_buffer.simps) (simp add: max_inline_def Let_def)
next
  case False
  then obtain ws q where ws: "wire_words ws" "wire ws = p @ q" "q \<noteq> []" using assms by blast
  then have "p = [] \<or> p ! 0 = CHR ''*''" by (cases p) (auto simp: resp_array_def)
  then show ?thesis using incomplete_waits [OF prefix_incomplete [OF ws]] by auto
qed

theorem partial_command_waits_witness:
  "process_buffer (still_os 0) 0 \<lparr>info_start_time = 0, info_client_count = 1\<rparr> [] 7
     (new_client []\<lparr>read_buffer := ''*1''\<rparr>) start_env =
   (True, new_client []\<lparr>read_buffer := ''*1''\<rparr>, start_env) \<and>
   process_buffer (still_os 0) 0 \<lparr>info_start_time = 0, info_client_count = 1\<rparr> [] 7
     (new_client []\<lparr>read_buffer := ''FLUSHDB''\<rparr>) start_env =
   (True, new_client []\<lparr>read_buffer := ''FLUSHDB''\<rparr>, start_env)"
proof -
  have "wire [''PING''] = ''*1'' @ crlf @ bulk_string ''PING''" by code_simp
  moreover have "wire_words [''PING'']" by (simp add: wire_words_def int_max_def)
  ultimately have "\<exists>ws q. wire_words ws \<and> wire ws = ''*1'' @ q \<and> q \<noteq> []" by (metis Nil_is_append_conv list.discI)
  then show ?thesis
    using partial_command_waits [of "''*1''" "still_os 0" 0 "\<lparr>info_start_time = 0, info_client_count = 1\<rparr>" "[]" 7
        "new_client []" start_env]
      partial_command_waits [of "''FLUSHDB''" "still_os 0" 0 "\<lparr>info_start_time = 0, info_client_count = 1\<rparr>" "[]" 7
        "new_client []" start_env] by simp
qed

text \<open>
  C18. With a password set, nothing a client sends before it is authenticated changes the database, the
  subscriptions or the files, whatever the bytes are.
\<close>

theorem unauthenticated_no_effect:
  assumes "password srv \<noteq> []" and "process_client os (ReadBytes bytes) fd srv = (keep, srv')"
    and "um_find (clients srv') fd = Some st'" and "\<not> authenticated st'"
  shows "env_db (srv_env srv') = env_db (srv_env srv) \<and> env_ps (srv_env srv') = env_ps (srv_env srv) \<and>
    env_fs (srv_env srv') = env_fs (srv_env srv)"
  using assms(2)
proof (cases rule: process_client_cases)
  case 2
  let ?st0 = "(client_of fd srv)\<lparr>read_buffer := read_buffer (client_of fd srv) @ take READ_SIZE bytes\<rparr>"
  obtain info st e where run: "process_buffer os 0 info (password srv) fd ?st0 (srv_env srv) = (keep, st, e)"
    and srv': "um_find (clients srv') fd = Some st" "srv_env srv' = e"
    using process_bytes_loop [OF 2(1)] by metis
  then have "same_data (srv_env srv) e"
    using process_buffer_unauthenticated [OF assms(1), of os 0 info fd ?st0 "srv_env srv"] assms(3,4) by simp
  then show ?thesis by (simp add: srv' same_data_def)
qed simp

theorem unauthenticated_no_effect_witness:
  "let srv = (new_server [] 6399 (start_env\<lparr>env_db := db_set ''k'' ''v'' new_database\<rparr>))
         \<lparr>password := ''pw'', clients := [(7, new_client [])]\<rparr>
   in env_db (srv_env (snd (process_client (still_os 0) (ReadBytes (wire [''FLUSHDB''])) 7 srv))) =
      db_set ''k'' ''v'' new_database"
proof -
  let ?e = "start_env\<lparr>env_db := db_set ''k'' ''v'' new_database\<rparr>"
  let ?srv = "(new_server [] 6399 ?e)\<lparr>password := ''pw'', clients := [(7, new_client [])]\<rparr>"
  let ?info = "\<lparr>info_start_time = 0, info_client_count = Suc 0\<rparr>"
  let ?r = "process_client (still_os 0) (ReadBytes (wire [''FLUSHDB''])) 7 ?srv"
  have up: "upper ''FLUSHDB'' = ''FLUSHDB''" by code_simp
  obtain ok st' e' where all: "serve_all (still_os 0) 0 ?info ''pw'' 7 (map make_command [[''FLUSHDB'']])
      (new_client []) ?e = (ok, st', e')" by (metis prod.collapse)
  then have st': "st' = new_client []"
    by (auto simp: make_command_def up answer_def new_client_def split: prod.splits if_splits)
  have len: "length (wire [''FLUSHDB'']) = 17" by code_simp
  then obtain b where "process_buffer (still_os 0) 0 ?info ''pw'' 7
      (new_client []\<lparr>read_buffer := concat (map wire [[''FLUSHDB'']]) @ []\<rparr>) ?e = (ok, st'\<lparr>read_buffer := b\<rparr>, e')"
    using process_pipeline [OF _ _ _ all, of "[]"]
    by (auto simp: wire_words_def int_max_def incomplete_def MAX_BUFFER_def)
  then have "?r = (ok, ?srv\<lparr>clients := [(7, new_client []\<lparr>read_buffer := b\<rparr>)], srv_env := e'\<rparr>)"
    using st' len wire_nonempty
    by (simp add: process_client_read READ_SIZE_def process_bytes_def new_server_def um_find_def um_put_def Let_def new_client_def client_count_def)
  then show ?thesis
    using unauthenticated_no_effect [of ?srv "still_os 0" "wire [''FLUSHDB'']" 7 "fst ?r" "snd ?r"
        "new_client []\<lparr>read_buffer := b\<rparr>"]
    by (simp add: new_client_def new_server_def um_find_def)
qed

text \<open>
  C19. The only way in is the password: with a password set, a client that becomes authenticated has sent,
  in the bytes the command loop worked through, an \<open>AUTH\<close> command with exactly the password.
\<close>

theorem authentication_needs_password:
  assumes "password srv \<noteq> []" and "process_client os (ReadBytes bytes) fd srv = (keep, srv')"
    and "\<not> authenticated (client_of fd srv)" and "authenticated (client_of fd srv')"
  shows "\<exists>b. suffix b (read_buffer (client_of fd srv) @ take READ_SIZE bytes) \<and> rp_ok (parse_command b) \<and>
    rp_command (parse_command b) = \<lparr>cmd_name = ''AUTH'', cmd_args = [password srv]\<rparr>"
proof -
  let ?buffer = "read_buffer (client_of fd srv) @ take READ_SIZE bytes"
  let ?sent = "\<exists>b. suffix b ?buffer \<and> rp_ok (parse_command b) \<and>
    rp_command (parse_command b) = \<lparr>cmd_name = ''AUTH'', cmd_args = [password srv]\<rparr>"
  let ?R = "\<lambda>x y. authenticated (fst y) \<longrightarrow> authenticated (fst x) \<or> ?sent"
  have "process_bytes os (take READ_SIZE bytes) fd srv = (keep, srv')"
    using assms(2-4) by (cases rule: process_client_cases) auto
  then obtain info st e where run: "process_buffer os 0 info (password srv) fd
      ((client_of fd srv)\<lparr>read_buffer := ?buffer\<rparr>) (srv_env srv) = (keep, st, e)"
    and srv': "um_find (clients srv') fd = Some st"
    using process_bytes_loop by metis
  have "?R ((client_of fd srv)\<lparr>read_buffer := ?buffer\<rparr>, srv_env srv) (snd (process_buffer os 0 info (password srv) fd
      ((client_of fd srv)\<lparr>read_buffer := ?buffer\<rparr>) (srv_env srv)))"
    by (rule process_buffer_steps [where R = ?R and buffer = ?buffer])
      (auto dest!: answer_authenticates [OF assms(1)] intro: Command.equality)
  then show ?thesis using run assms(3,4) srv' by (simp add: client_of_def)
qed

theorem authentication_needs_password_witness:
  "let srv = (new_server [] 6399 start_env)\<lparr>password := ''pw'', clients := [(7, new_client [])]\<rparr>
   in authenticated (client_of 7 (snd (process_client (still_os 0)
        (ReadBytes (concat (map wire [[''AUTH'', ''pw'']]))) 7 srv))) \<and>
      (\<exists>b. suffix b (concat (map wire [[''AUTH'', ''pw'']])) \<and> rp_ok (parse_command b) \<and>
         rp_command (parse_command b) = \<lparr>cmd_name = ''AUTH'', cmd_args = [''pw'']\<rparr>)"
proof -
  let ?srv = "(new_server [] 6399 start_env)\<lparr>password := ''pw'', clients := [(7, new_client [])]\<rparr>"
  let ?bytes = "concat (map wire [[''AUTH'', ''pw'']])"
  obtain keep srv' where run: "process_client (still_os 0) (ReadBytes ?bytes) 7 ?srv = (keep, srv')" by force
  have st: "client_of 7 ?srv = new_client []" by (simp add: client_of_def um_find_def)
  have up: "upper ''AUTH'' = ''AUTH''" by code_simp
  have "length ?bytes = 22" by code_simp
  then have len: "length ?bytes \<le> MAX_BUFFER" and whole: "take READ_SIZE ?bytes = ?bytes" "?bytes \<noteq> []"
    by (auto simp: MAX_BUFFER_def READ_SIZE_def wire_nonempty simp del: concat.simps list.map)
  have bytes: "process_bytes (still_os 0) ?bytes 7 ?srv = (keep, srv')"
    using run whole by (simp add: process_client_def del: concat.simps list.map)
  have empty: "read_buffer (client_of 7 ?srv) = []" and new: "\<not> authenticated (client_of 7 ?srv)"
    unfolding st by (simp_all add: new_client_def)
  have pw: "password ?srv = ''pw''" by simp
  obtain info st b where all: "serve_all (still_os 0) 0 info (password ?srv) 7 (map make_command [[''AUTH'', ''pw'']])
      (client_of 7 ?srv) (srv_env ?srv) = (keep, st, srv_env srv')" and st': "client_of 7 srv' = st\<lparr>read_buffer := b\<rparr>"
    using process_bytes_wire [OF bytes _ empty len] by (auto simp: wire_words_def int_max_def)
  have "authenticated st"
    using all unfolding st by (auto simp: new_client_def make_command_def up answer_def split: prod.splits if_splits)
  then have auth: "authenticated (client_of 7 srv')" by (simp add: st')
  have "\<exists>b. suffix b ?bytes \<and> rp_ok (parse_command b) \<and>
      rp_command (parse_command b) = \<lparr>cmd_name = ''AUTH'', cmd_args = [''pw'']\<rparr>"
    using authentication_needs_password [OF _ run new auth] unfolding empty pw append_Nil whole by blast
  with auth show ?thesis unfolding Let_def run snd_conv by (rule conjI)
qed

text \<open>
  C20. Clients are isolated from each other: what one client sends changes neither the read buffer, the
  address and the authentication of another client nor the password; it subscribes no other client to anything;
  and nothing is written to the socket of a client that is subscribed to nothing.
\<close>

theorem clients_isolated:
  assumes "lawful_write (os_write os) out" and "srv_inv srv" and "c \<noteq> fd"
    and "process_client os (ReadBytes bytes) fd srv = (keep, srv')"
  shows "um_find (clients srv') c = um_find (clients srv) c \<and> password srv' = password srv \<and>
    set (channels_of (env_ps (srv_env srv')) c) \<subseteq> set (channels_of (env_ps (srv_env srv)) c) \<and>
    (channels_of (env_ps (srv_env srv)) c = [] \<longrightarrow>
       out (env_net (srv_env srv')) c = out (env_net (srv_env srv)) c)"
  by (rule process_client_others [OF assms])

theorem clients_isolated_witness:
  "let srv = (new_server [] 6399 start_env)\<lparr>clients := [(7, new_client []), (8, new_client [])]\<rparr>
   in um_find (clients (snd (process_client (still_os 0) (ReadBytes ''hello'') 7 srv))) 8 = Some (new_client [])"
proof -
  let ?srv = "(new_server [] 6399 start_env)\<lparr>clients := [(7, new_client []), (8, new_client [])]\<rparr>"
  obtain keep srv' where run: "process_client (still_os 0) (ReadBytes ''hello'') 7 ?srv = (keep, srv')" by force
  have "env_inv start_env" "channels_of (env_ps start_env) = (\<lambda>_. [])"
    using pubsub_wf_new by (simp_all add: start_env_def env_inv_def db_inv_new fun_eq_iff)
  then have "srv_inv ?srv" by (simp add: srv_inv_def new_server_def um_wf_def um_keys_def)
  then have "um_find (clients srv') 8 = um_find (clients ?srv) 8"
    using clients_isolated [OF _ _ _ run, of "\<lambda>w. w" 8] by (simp add: still_os_def lawful_log_write)
  then show ?thesis using run by (simp add: um_find_def)
qed

text \<open>
  C31. A subscribed client can do nothing but subscribe, unsubscribe, ping and quit: of the RESP commands it sends,
  these run as usual, \<open>QUIT\<close> is acknowledged and closes the connection, and any other command is
  answered by a RESP error that names it and changes neither the client nor the data.
\<close>

theorem subscribed_client_restricted:
  assumes "wire_words ws" and "length rest \<le> MAX_BUFFER" and "cmd = make_command ws"
    and "is_subscribed fd (env_ps e)" and "pw = [] \<or> authenticated st"
    and "execute_single (sub_os os i) (set_server info (new_handler fd)) cmd e = (r, e1)"
    and "refusal = ''ERR Can'' @ [SQ] @ ''t execute '' @ [SQ] @ cmd_name cmd @ [SQ] @
      '': only (P)SUBSCRIBE / (P)UNSUBSCRIBE / PING / QUIT are allowed in this context''"
  shows "process_buffer os i info pw fd (st\<lparr>read_buffer := wire ws @ rest\<rparr>) e =
    (let st' = st\<lparr>read_buffer := rest\<rparr>
     in if cmd_name cmd = ''QUIT'' then (False, st', snd (send os fd (simple_string ''OK'') e))
        else let (ok, e') = (if cmd_name cmd \<in> set [''SUBSCRIBE'', ''UNSUBSCRIBE'', ''PING'']
                then send os fd (serialize_response r) e1 else send os fd (resp_error refusal) e)
             in if ok then process_buffer os (Suc i) info pw fd st' e' else (False, st', e'))"
proof -
  let ?st = "st\<lparr>read_buffer := wire ws @ rest\<rparr>" and ?rest = "st\<lparr>read_buffer := rest\<rparr>"
  have parse: "parse_command (wire ws @ rest) = rp_result True False False cmd (length (wire ws))"
    using parse_wire [OF assms(1)] assms(3) by simp
  have ans: "answer (sub_os os i) info pw fd cmd ?rest e =
      (if cmd_name cmd \<in> set [''SUBSCRIBE'', ''UNSUBSCRIBE'', ''PING''] then (r, ?rest, e1) else (refusal, ?rest, e))"
    using assms(4-7)
    by (auto simp: answer_def execute_def in_subscription_mode_def new_handler_def set_server_def)
  have refused: "serialize_response refusal = resp_error refusal"
    using serialize_error assms(7) by simp
  show ?thesis
    using assms(2)
    by (subst process_buffer.simps) (auto simp: parse ans refused wire_nonempty Let_def split_beta)
qed

theorem subscribed_client_restricted_witness:
  "let e = start_env\<lparr>env_ps := snd (subscribe 4 [''ch''] new_pubsub)\<rparr>;
       (ok, st, e') = process_buffer (still_os 0) 0 \<lparr>info_start_time = 0, info_client_count = 1\<rparr> [] 4
         (new_client []\<lparr>read_buffer := wire [''FLUSHDB''] @ []\<rparr>) e
   in ok \<and> env_db e' = env_db e \<and> env_ps e' = env_ps e"
proof -
  let ?e = "start_env\<lparr>env_ps := snd (subscribe 4 [''ch''] new_pubsub)\<rparr>"
  let ?info = "\<lparr>info_start_time = 0, info_client_count = 1\<rparr>"
  have up: "upper ''FLUSHDB'' = ''FLUSHDB''" by code_simp
  obtain r e1 where run: "execute_single (sub_os (still_os 0) 0) (set_server ?info (new_handler 4))
      (make_command [''FLUSHDB'']) ?e = (r, e1)" by force
  have sub: "is_subscribed 4 (env_ps ?e)" by (simp add: is_subscribed_iff Let_def)
  have "fst (send (still_os 0) 4 data ?e)" for data
    by (simp add: send_def send_response_def resp_write_exact_def still_os_def write_loop_log)
  moreover have "process_buffer os 1 ?info [] 4 (new_client []\<lparr>read_buffer := []\<rparr>) e =
      (True, new_client []\<lparr>read_buffer := []\<rparr>, e)" for os and e :: "(socket_t \<Rightarrow> string) env"
    by (subst process_buffer.simps) simp
  ultimately show ?thesis
    using subscribed_client_restricted [OF _ _ refl sub _ run refl, where rest = "[]" and pw = "[]" and st = "new_client []"]
    by (simp add: wire_words_def int_max_def make_command_def up split_beta)
qed

text \<open>
  C39. A transaction cannot be used over the network: every command gets a handler of its own, so
  \<open>EXEC\<close> never finds an open transaction, and a command sent after \<open>MULTI\<close> is not queued but executed.
\<close>

theorem no_transactions_over_network:
  assumes "pw = [] \<or> authenticated st" and "\<not> is_subscribed fd (env_ps e)"
  shows "answer os info pw fd (plain_command ''EXEC'') st e = (''ERR EXEC without MULTI'', st, e) \<and>
    answer os info pw fd (plain_command ''MULTI'') st e = (''OK'', st, e) \<and>
    (if tx_command cmd then True else
      fst (answer os info pw fd cmd st e) = fst (execute_single os (set_server info (new_handler fd)) cmd e) \<and>
      snd (snd (answer os info pw fd cmd st e)) = snd (execute_single os (set_server info (new_handler fd)) cmd e))"
  using assms
  by (auto simp: answer_def execute_def set_server_def new_handler_def in_subscription_mode_def
      handle_exec_def handle_multi_def tx_command_def split_beta Let_def)

theorem no_transactions_over_network_witness:
  "answer (still_os 0) \<lparr>info_start_time = 0, info_client_count = 1\<rparr> [] 7 (plain_command ''EXEC'')
     (new_client []) start_env = (''ERR EXEC without MULTI'', new_client [], start_env)"
  using no_transactions_over_network [of "[]" "new_client []" 7 start_env "still_os 0"
      "\<lparr>info_start_time = 0, info_client_count = 1\<rparr>"]
  by (simp add: is_subscribed_iff start_env_def)

text \<open>
  Disconnecting a client forgets it: it is no longer in the client table, subscribed to nothing and
  in no channel's subscriber set, and every other subscription is kept.
\<close>

lemma disconnect_forgets_client:
  assumes "pubsub_wf (env_ps (srv_env srv))"
  shows "um_find (clients (disconnect_client os fd srv)) fd = None \<and>
    channels_of (env_ps (srv_env (disconnect_client os fd srv))) = (channels_of (env_ps (srv_env srv)))(fd := []) \<and>
    subscribers (env_ps (srv_env (disconnect_client os fd srv))) ch =
      removeAll fd (subscribers (env_ps (srv_env srv)) ch)"
  using client_disconnected_subs [OF assms] by (simp add: disconnect_client_def Let_def)

lemma disconnect_forgets_client_witness:
  "let srv = (new_server [] 6399 (start_env\<lparr>env_ps := snd (subscribe 7 [''x''] new_pubsub)\<rparr>))
        \<lparr>clients := [(7, new_client [])]\<rparr>
   in channels_of (env_ps (srv_env (disconnect_client (still_os 0) 7 srv))) 7 = []"
  using disconnect_forgets_client [of "(new_server [] 6399 (start_env\<lparr>env_ps := snd (subscribe 7 [''x''] new_pubsub)\<rparr>))
        \<lparr>clients := [(7, new_client [])]\<rparr>" "still_os 0" 7] subscribe_wf [OF pubsub_wf_new, of 7 "[''x'']"]
  by (simp add: new_server_def Let_def)

end
