(* ===== verification/Client.thy ===== *)
theory Client
  imports Commands
begin

text \<open>
  The client library of \<open>include/networking/client.h\<close> and \<open>src/networking/client.cpp\<close>: the parser that
  turns a RESP value into the text shown to the user, and sending a command and waiting for its reply.
\<close>

section \<open>Parsing a reply\<close>

text \<open>
  \<open>parse_resp_value\<close> on the bytes in the read buffer: the text and the number of bytes consumed, or
  \<^term>\<open>None\<close> when more data is needed (\<open>ok\<close> stays false). \<open>parse_elements\<close> is the loop over the elements
  of an array, on the buffer from the current position on.
\<close>

function parse_resp_value :: "string \<Rightarrow> (string \<times> nat) option"
  and parse_elements :: "string \<Rightarrow> nat \<Rightarrow> (string list \<times> nat) option" where
  "parse_resp_value b =
     (if b = [] then None
      else case find_crlf b 0 of
        None \<Rightarrow> None
      | Some eol \<Rightarrow>
          (if b ! 0 = CHR ''+'' \<or> b ! 0 = CHR ''-'' then Some (substr b 1 (eol - 1), eol + 2)
           else if b ! 0 = CHR '':'' then Some (''(integer) '' @ substr b 1 (eol - 1), eol + 2)
           else if b ! 0 = CHR ''$'' then
             (case stoi (substr b 1 (eol - 1)) of
                None \<Rightarrow> Some (''(error) invalid bulk string length'', eol + 2)
              | Some len \<Rightarrow>
                  (if len < 0 then Some (''(nil)'', eol + 2)
                   else if eol + 2 + nat len + 2 > length b then None
                   else Some (quoted (substr b (eol + 2) (nat len)), eol + 2 + nat len + 2)))
           else if b ! 0 = CHR ''*'' then
             (case stoi (substr b 1 (eol - 1)) of
                None \<Rightarrow> Some (''(error) invalid array count'', eol + 2)
              | Some count \<Rightarrow>
                  (if count < 0 then Some (''(nil)'', eol + 2)
                   else if count = 0 then Some (''(empty array)'', eol + 2)
                   else case parse_elements (drop (eol + 2) b) (nat count) of
                     None \<Rightarrow> None
                   | Some (elems, used) \<Rightarrow> Some (numbered elems, eol + 2 + used)))
           else Some (substr b 0 eol, eol + 2)))"
| "parse_elements b 0 = Some ([], 0)"
| "parse_elements b (Suc n) =
     (case parse_resp_value b of
        None \<Rightarrow> None
      | Some (elem, sub_consumed) \<Rightarrow>
          (case parse_elements (drop sub_consumed b) n of
             None \<Rightarrow> None
           | Some (elems, used) \<Rightarrow> Some (elem # elems, sub_consumed + used)))"
  by pat_completeness auto
termination
  by (relation "inv_image (less_than <*lex*> less_than <*lex*> less_than)
      (\<lambda>x. case x of Inl b \<Rightarrow> (length b, 0, 0) | Inr (b, n) \<Rightarrow> (length b, 1, n))")
    (auto simp: le_less)

declare parse_resp_value.simps [simp del]

section \<open>Commands\<close>

record Client =
  host :: string
  client_port :: int
  fd :: socket_t
  client_buffer :: string

definition new_client_conn :: "string \<Rightarrow> int \<Rightarrow> Client" where
  "new_client_conn h p = \<lparr>host = h, client_port = p, fd = INVALID_SOCKET_VAL, client_buffer = []\<rparr>"

text \<open>The address to connect to, if the host is one.\<close>

definition connect_address :: "'w os \<Rightarrow> Client \<Rightarrow> sockaddr_in option" where
  "connect_address os cl =
     map_option (\<lambda>a. \<lparr>sin_port = htons (word_of_int (client_port cl)), sin_addr = a\<rparr>) (os_pton os (c_str (host cl)))"

text \<open>
  \<open>connect\<close>, given the socket that \<open>socket\<close> returns and the outcome of the system call \<open>connect\<close> for an address.
\<close>

definition client_connect :: "'w os \<Rightarrow> socket_t \<Rightarrow> (sockaddr_in \<Rightarrow> bool) \<Rightarrow> Client \<Rightarrow> 'w \<Rightarrow> bool \<times> Client \<times> 'w" where
  "client_connect os s conn_ok cl w =
     (let closed = (False, cl\<lparr>fd := INVALID_SOCKET_VAL\<rparr>, os_close os s w)
      in if \<not> is_valid s then (False, cl\<lparr>fd := s\<rparr>, w)
         else case connect_address os cl of
           None \<Rightarrow> closed
         | Some a \<Rightarrow> if \<not> conn_ok a then closed else (True, cl\<lparr>fd := s, client_buffer := []\<rparr>, w))"

definition is_connected :: "Client \<Rightarrow> bool" where
  "is_connected cl = is_valid (fd cl)"

definition disconnect :: "'w os \<Rightarrow> Client \<Rightarrow> 'w \<Rightarrow> Client \<times> 'w" where
  "disconnect os cl w =
     (if is_valid (fd cl) then (cl\<lparr>fd := INVALID_SOCKET_VAL, client_buffer := []\<rparr>, os_close os (fd cl) w)
      else (cl\<lparr>client_buffer := []\<rparr>, w))"

text \<open>The destructor.\<close>

definition client_destroy :: "'w os \<Rightarrow> Client \<Rightarrow> 'w \<Rightarrow> Client \<times> 'w" where
  "client_destroy os cl w = disconnect os cl w"

text \<open>
  The loop of \<open>read_resp_response\<close>. The list holds the results of the successive reads from the
  socket; an empty result and the end of the list stand for a closed connection or an error.
\<close>

fun read_resp_response :: "string list \<Rightarrow> string \<Rightarrow> string option \<times> string \<times> string list" where
  "read_resp_response reads buffer =
     (case parse_resp_value buffer of
        Some (result, consumed) \<Rightarrow> (Some result, drop consumed buffer, reads)
      | None \<Rightarrow>
          (case reads of
             [] \<Rightarrow> (None, buffer, [])
           | bytes # reads' \<Rightarrow>
               (if bytes = [] then (None, buffer, reads') else read_resp_response reads' (buffer @ bytes))))"

declare read_resp_response.simps [simp del]

text \<open>The text shown, the client, the network and the reads that are left.\<close>

definition send_command :: "'w os \<Rightarrow> string list \<Rightarrow> string \<Rightarrow> Client \<Rightarrow> 'w
    \<Rightarrow> string \<times> Client \<times> 'w \<times> string list" where
  "send_command os reads command cl w =
     (if \<not> is_valid (fd cl) then (''Error: Not connected'', cl, w, reads)
      else case write_loop (os_write os) (fd cl) (command @ crlf) w of
        (False, w1) \<Rightarrow>
          (let (cl1, w2) = disconnect os cl w1 in (''Error: Failed to send command'', cl1, w2, reads))
      | (True, w1) \<Rightarrow>
          (case read_resp_response reads (client_buffer cl) of
             (None, buffer, reads1) \<Rightarrow>
               (let (cl1, w2) = disconnect os (cl\<lparr>client_buffer := buffer\<rparr>) w1
                in (''Error: Failed to read response'', cl1, w2, reads1))
           | (Some response, buffer, reads1) \<Rightarrow> (response, cl\<lparr>client_buffer := buffer\<rparr>, w1, reads1)))"

section \<open>Bounds and stability of the parser\<close>

lemma parse_resp_value_bounds:
  "parse_resp_value b = Some (r, k) \<Longrightarrow> 2 \<le> k \<and> k \<le> length b"
  "parse_elements b n = Some (es, u) \<Longrightarrow> u \<le> length b \<and> length es = n"
proof (induction b and b n arbitrary: r k and es u rule: parse_resp_value_parse_elements.induct)
  case (1 b)
  then obtain eol where eol: "find_crlf b 0 = Some eol"
    by (auto simp: parse_resp_value.simps [of b] split: if_splits option.splits)
  have "eol + 2 \<le> length b" using find_crlf_Some(2) [OF eol] by simp
  moreover have "u \<le> length (drop (eol + 2) b)"
    if "b ! 0 = CHR ''*''" "stoi (substr b 1 (eol - 1)) = Some c" "0 < c"
      "parse_elements (drop (eol + 2) b) (nat c) = Some (es, u)" for c es u
  proof -
    have "b \<noteq> []" using "1.prems" by (auto simp: parse_resp_value.simps [of b])
    then show ?thesis
      using "1.IH" [OF _ eol _ _ _ _ that(2)] that by simp
  qed
  ultimately show ?case
    using "1.prems" eol
    by (auto simp: parse_resp_value.simps [of b] split: if_splits option.splits) fastforce+
next
  case (3 b n)
  then show ?case by (fastforce split: option.splits)
qed simp

text \<open>More bytes do not change a value that was found, if they do not change the elements of an array.\<close>

lemma parse_resp_value_more:
  assumes found: "parse_resp_value b = Some x" and eol: "find_crlf b 0 = Some eol"
    and elems: "\<And>c y. b ! 0 = CHR ''*'' \<Longrightarrow> stoi (substr b 1 (eol - 1)) = Some c \<Longrightarrow> 0 < c \<Longrightarrow>
      parse_elements (drop (eol + 2) b) (nat c) = Some y \<Longrightarrow>
      parse_elements (drop (eol + 2) b @ t) (nat c) = Some y"
  shows "parse_resp_value (b @ t) = Some x"
proof -
  have ne: "b \<noteq> []" using found by (auto simp: parse_resp_value.simps [of b])
  have len: "eol + 2 \<le> length b" using find_crlf_Some(2) [OF eol] by simp
  have sub: "substr (b @ t) (Suc 0) (eol - Suc 0) = substr b (Suc 0) (eol - Suc 0)" "substr (b @ t) 0 eol = substr b 0 eol"
    using len by (simp_all add: substr_append)
  have hd: "(b @ t) ! 0 = b ! 0" using ne by (simp add: nth_append)
  have bulk: "substr (b @ t) (eol + 2) n = substr b (eol + 2) n" if "eol + 2 + n + 2 \<le> length b" for n
    using that by (simp add: substr_append)
  note eol' = find_crlf_append [OF eol, of t]
  note unfold = parse_resp_value.simps [of b] parse_resp_value.simps [of "b @ t"]
  show ?thesis
  proof (cases "stoi (substr b 1 (eol - 1))")
    case None
    then show ?thesis using found ne eol eol' by (auto simp: unfold sub hd split: if_splits)
  next
    case (Some c)
    have "parse_elements (drop (eol + 2) b) (nat c) \<noteq> None" if "b ! 0 = CHR ''*''" "0 < c"
      using found ne eol Some that by (auto simp: unfold split: option.splits)
    then show ?thesis
      using found ne eol eol' Some elems [OF _ Some] bulk [of "nat c"] len
      by (cases "c \<le> 0") (auto simp: unfold sub hd split: if_splits)
  qed
qed

lemma parse_resp_value_append:
  "parse_resp_value b = Some x \<Longrightarrow> parse_resp_value (b @ t) = Some x"
  "parse_elements b n = Some y \<Longrightarrow> parse_elements (b @ t) n = Some y"
proof (induction b and b n arbitrary: x and y rule: parse_resp_value_parse_elements.induct)
  case (1 b)
  have ne: "b \<noteq> []" using "1.prems" by (auto simp: parse_resp_value.simps [of b])
  obtain eol where eol: "find_crlf b 0 = Some eol"
    using "1.prems" by (auto simp: parse_resp_value.simps [of b] split: if_splits option.splits)
  show ?case
    using find_crlf_Some(2) [OF eol] "1.IH" [OF ne eol]
    by (intro parse_resp_value_more [OF "1.prems" eol]) simp
next
  case (3 b n)
  then obtain e k es u where first: "parse_resp_value b = Some (e, k)"
    and rest: "parse_elements (drop k b) n = Some (es, u)" and y: "y = (e # es, k + u)"
    by (auto split: option.splits)
  have "k \<le> length b" using parse_resp_value_bounds(1) [OF first] by simp
  moreover have "parse_resp_value (b @ t) = Some (e, k)" by (rule "3.IH"(1) [OF first])
  moreover have "parse_elements (drop k b @ t) n = Some (es, u)"
    using "3.IH"(2) [OF first _ rest] by simp
  ultimately show ?case using y by simp
qed simp

interpretation cp: stream_parser parse_resp_value
  using parse_resp_value_bounds(1) parse_resp_value_append(1) by unfold_locales blast+

section \<open>Replies of the server\<close>

lemma find_crlf_start: "CR \<notin> set s \<Longrightarrow> find_crlf (c # s @ CR # LF # t) 0 = Some (Suc (length s))" if "c \<noteq> CR"
  using find_crlf_at [of "c # s" "[]" t] that by simp

lemma parse_line_reply:
  assumes "CR \<notin> set s"
  shows "parse_resp_value (simple_string s @ t) = Some (s, length (simple_string s))"
    and "parse_resp_value (resp_error s @ t) = Some (s, length (resp_error s))"
    and "parse_resp_value ('':'' @ s @ crlf @ t) = Some (''(integer) '' @ s, length s + 3)"
  using assms
  by (subst parse_resp_value.simps;
      simp add: simple_string_def resp_error_def find_crlf_start substr_def)+

lemma parse_bulk_reply:
  assumes "int (length s) \<le> int_max"
  shows "parse_resp_value (bulk_string s @ t) = Some (quoted s, length (bulk_string s))"
proof -
  let ?num = "show_nat (length s)"
  have b: "bulk_string s @ t = CHR ''$'' # ?num @ CR # LF # s @ crlf @ t"
    by (simp add: bulk_string_def)
  have eol: "find_crlf (bulk_string s @ t) 0 = Some (Suc (length ?num))"
    unfolding b by (rule find_crlf_start) simp_all
  have num: "substr (bulk_string s @ t) 1 (length ?num) = ?num"
    by (simp add: b substr_def)
  have data: "substr (bulk_string s @ t) (Suc (Suc (Suc (length ?num)))) (length s) = s"
    by (simp add: b substr_def)
  show ?thesis
    using assms eol num data by (simp add: parse_resp_value.simps [of "bulk_string s @ t"]) (simp add: bulk_string_def)
qed

lemma parse_bulk_elements:
  "\<forall>x \<in> set xs. int (length x) \<le> int_max \<Longrightarrow>
   parse_elements (concat (map bulk_string xs) @ t) (length xs) =
     Some (map quoted xs, length (concat (map bulk_string xs)))"
  by (induction xs) (simp_all add: parse_bulk_reply)

lemma parse_array_of:
  assumes "ws \<noteq> []" and "int (length ws) \<le> int_max"
    and elems: "parse_elements (concat ws @ t) (length ws) = Some (es, length (concat ws))"
  shows "parse_resp_value (resp_array ws @ t) = Some (numbered es, length (resp_array ws))"
proof -
  let ?num = "show_nat (length ws)"
  let ?w = "resp_array ws @ t"
  have b: "?w = CHR ''*'' # ?num @ CR # LF # concat ws @ t"
    by (simp add: resp_array_def)
  have eol: "find_crlf ?w 0 = Some (Suc (length ?num))"
    unfolding b by (rule find_crlf_start) simp_all
  have num: "substr ?w 1 (length ?num) = ?num"
    by (simp add: b substr_def)
  have body: "drop (Suc (Suc (Suc (length ?num)))) ?w = concat ws @ t"
    by (simp add: b)
  show ?thesis
    using assms(1,2) eol num body elems
    by (simp add: parse_resp_value.simps [of ?w]) (simp add: resp_array_def)
qed

lemma parse_array_reply:
  assumes "xs \<noteq> []" and "int (length xs) \<le> int_max" and "\<forall>x \<in> set xs. int (length x) \<le> int_max"
  shows "parse_resp_value (resp_array (map bulk_string xs) @ t) =
    Some (numbered (map quoted xs), length (resp_array (map bulk_string xs)))"
  using assms(1,2) parse_bulk_elements [OF assms(3), of t] by (intro parse_array_of) simp_all

text \<open>The textual replies of the command handlers by kind, and when they fit the wire format.\<close>

datatype reply =
    OkReply
  | NilReply
  | ErrorReply string
  | IntReply int
  | StringReply string
  | ListReply "string list"

fun reply_text :: "reply \<Rightarrow> string" where
  "reply_text OkReply = ''OK''"
| "reply_text NilReply = ''(nil)''"
| "reply_text (ErrorReply s) = ''ERR'' @ s"
| "reply_text (IntReply i) = integer_text i"
| "reply_text (StringReply s) = quoted s"
| "reply_text (ListReply xs) = list_reply xs"

fun reply_fits :: "reply \<Rightarrow> bool" where
  "reply_fits (ErrorReply s) \<longleftrightarrow> CR \<notin> set s"
| "reply_fits (IntReply i) \<longleftrightarrow> int64_range i"
| "reply_fits (StringReply s) \<longleftrightarrow> int (length s) \<le> int_max"
| "reply_fits (ListReply xs) \<longleftrightarrow> xs \<noteq> [] \<and> int (length xs) \<le> int_max \<and>
     list_all (\<lambda>x. int (length x) \<le> int_max \<and> LF \<notin> set x) xs"
| "reply_fits _ \<longleftrightarrow> True"

lemma parse_null_reply: "parse_resp_value (null_bulk_string @ t) = Some (''(nil)'', length null_bulk_string)"
proof -
  have "stoi ''-1'' = Some (-1)" by code_simp
  moreover have "find_crlf (null_bulk_string @ t) 0 = Some 3"
    using find_crlf_start [of "CHR ''$''" "''-1''" t] by (simp add: null_bulk_string_def)
  ultimately show ?thesis
    by (subst parse_resp_value.simps) (simp add: null_bulk_string_def substr_def eval_nat_numeral)
qed

lemma parse_reply:
  assumes "reply_fits r"
  shows "parse_resp_value (serialize_response (reply_text r) @ t) =
    Some (reply_text r, length (serialize_response (reply_text r)))"
proof (cases r)
  case OkReply
  then show ?thesis using parse_line_reply(1) [of "''OK''"] by (simp add: serialize_OK)
next
  case NilReply
  then show ?thesis by (simp add: serialize_nil parse_null_reply)
next
  case (ErrorReply s)
  then show ?thesis
    using assms parse_line_reply(2) [of "''ERR'' @ s" t] serialize_error [of s] by simp
next
  case (IntReply i)
  then show ?thesis
    using assms parse_line_reply(3) [of "show_int i" t] show_int_no_cr
    by (simp add: serialize_integer) (simp add: resp_integer_def integer_text_def)
next
  case (StringReply s)
  then show ?thesis using assms by (simp add: serialize_quoted parse_bulk_reply)
next
  case (ListReply xs)
  then have xs: "xs \<noteq> []" "int (length xs) \<le> int_max" "\<forall>x \<in> set xs. int (length x) \<le> int_max"
    "\<forall>x \<in> set xs. LF \<notin> set x"
    using assms by (auto simp: list_all_iff)
  have "reply_text r = numbered (map quoted xs)" using ListReply xs(1) by (simp add: list_reply_def)
  moreover have "serialize_response (reply_text r) = resp_array (map bulk_string xs)"
    using ListReply serialize_list_reply [OF xs(4)] by simp
  ultimately show ?thesis using parse_array_reply [OF xs(1-3)] by simp
qed

section \<open>Reading in pieces\<close>

lemma read_resp_response_whole:
  assumes "parse_resp_value w = Some (r, length w)" and "\<forall>c \<in> set chunks. c \<noteq> []"
    and "b @ concat chunks = w @ rest"
  shows "\<exists>buf rem. read_resp_response chunks b = (Some r, buf, rem) \<and> buf @ concat rem = rest"
  using assms(2,3)
proof (induction chunks arbitrary: b)
  case chunks: (Cons c cs)
  show ?case
  proof (cases "length w \<le> length b")
    case True
    then obtain d where b: "b = w @ d" "d @ concat (c # cs) = rest"
      using chunks.prems(2) by (auto simp: append_eq_append_conv2)
    then show ?thesis
      using cp.stable [OF assms(1), of d] by (subst read_resp_response.simps) simp
  next
    case False
    then obtain q where w: "w = b @ q" "q \<noteq> []"
      using chunks.prems(2) by (auto simp: append_eq_append_conv2)
    then have "parse_resp_value b = None"
      using assms(1) cp.prefix_waits [of b q r] by simp
    then have "read_resp_response (c # cs) b = read_resp_response cs (b @ c)"
      using chunks.prems(1) by (subst read_resp_response.simps) simp
    moreover have "\<exists>buf rem. read_resp_response cs (b @ c) = (Some r, buf, rem) \<and> buf @ concat rem = rest"
      using chunks.prems by (intro chunks.IH) auto
    ultimately show ?thesis by simp
  qed
next
  case Nil
  then have "b = w @ rest" by simp
  then show ?case
    using cp.stable [OF assms(1), of rest] by (subst read_resp_response.simps) simp
qed

text \<open>The reads that are left are among those that were there.\<close>

lemma read_resp_response_reads:
  "read_resp_response reads b = (r, buf, rem) \<Longrightarrow> set rem \<subseteq> set reads"
proof (induction reads b rule: read_resp_response.induct)
  case (1 reads b)
  from "1.prems" show ?case
    by (subst (asm) read_resp_response.simps)
      (force split: option.splits list.splits if_splits dest: "1.IH" [rotated 2])
qed

section \<open>Properties\<close>

text \<open>
  The client shows exactly the textual reply of the server: for every kind of reply, serializing
  it on the server and parsing the bytes on the client gives the text back and consumes exactly those
  bytes.
\<close>

lemma client_shows_reply:
  assumes "reply_fits r"
  shows "parse_resp_value (serialize_response (reply_text r) @ t) =
    Some (reply_text r, length (serialize_response (reply_text r)))"
  by (rule parse_reply [OF assms])

lemma client_shows_reply_witness:
  "parse_resp_value (serialize_response (reply_text (ListReply [''a'', []])) @ ''+OK'') =
    Some (numbered [quoted ''a'', quoted []], length (serialize_response (reply_text (ListReply [''a'', []]))))"
  using client_shows_reply [of "ListReply [''a'', []]" "''+OK''"]
  by (simp add: int_max_def list_reply_def)

text \<open>
  The client waits for a reply to be complete: however the bytes of a reply are cut into reads, the
  loop returns its text and keeps exactly the bytes that follow it.
\<close>

lemma reply_read_in_any_pieces:
  assumes "reply_fits r" and "\<forall>c \<in> set chunks. c \<noteq> []"
    and "concat chunks = serialize_response (reply_text r) @ rest"
  shows "\<exists>buf rem. read_resp_response chunks [] = (Some (reply_text r), buf, rem) \<and> buf @ concat rem = rest"
proof -
  have "parse_resp_value (serialize_response (reply_text r)) =
      Some (reply_text r, length (serialize_response (reply_text r)))"
    using parse_reply [OF assms(1), of "[]"] by simp
  from read_resp_response_whole [OF this assms(2), of "[]" rest] assms(3) show ?thesis by simp
qed

lemma reply_read_in_any_pieces_witness:
  "\<exists>buf rem. read_resp_response [''+'', ''OK'', crlf @ ''x''] [] = (Some ''OK'', buf, rem) \<and> buf @ concat rem = ''x''"
  using reply_read_in_any_pieces [of OkReply "[''+'', ''OK'', crlf @ ''x'']" "''x''"]
  by (simp add: serialize_OK simple_string_def)

text \<open>
  The parser of the client never reports more bytes than it has, always reports some, and does not
  change its answer when more bytes arrive.
\<close>

lemma client_parser_stable:
  assumes "parse_resp_value b = Some (r, k)"
  shows "0 < k \<and> k \<le> length b \<and> parse_resp_value (b @ t) = Some (r, k)"
  using parse_resp_value_bounds(1) [OF assms] parse_resp_value_append(1) [OF assms] by simp

lemma client_parser_stable_witness:
  "parse_resp_value ((null_bulk_string @ []) @ ''x'') = Some (''(nil)'', length null_bulk_string)"
  using client_parser_stable [OF parse_null_reply [of "[]"], of "''x''"] by simp

text \<open>
  A \<open>SUBSCRIBE\<close> to two channels is answered by two RESP values, but the client reads one: the
  second stays in its buffer and is shown as the reply to the next command.
\<close>

lemma subscribe_desynchronises_client:
  "let wire_reply = serialize_response (join_lines [sub_line ''subscribe'' (''a'', 1), sub_line ''subscribe'' (''b'', 2)]);
       (first, buffer, reads) = read_resp_response [wire_reply] []
   in first = Some (numbered [quoted ''subscribe'', quoted ''a'', ''(integer) 1'']) \<and>
      fst (read_resp_response [simple_string ''OK''] buffer) =
        Some (numbered [quoted ''subscribe'', quoted ''b'', ''(integer) 2''])"
  by code_simp

end
