(* ===== verification/Config.thy ===== *)
theory Config
  imports Strings
begin

text \<open>
  The configuration of \<open>include/config/config.h\<close> and \<open>src/config/config.cpp\<close>: the map of settings with
  its defaults, the parser of the configuration file, and the typed accessors.
\<close>

type_synonym config = "(string, string) umap"

definition set_defaults :: "config \<Rightarrow> config" where
  "set_defaults c =
     um_put ''maxmemory'' ''0'' (um_put ''loglevel'' ''notice'' (um_put ''save'' ''0''
       (um_put ''requirepass'' [] (um_put ''bind'' ''0.0.0.0'' (um_put ''port'' ''6399'' c)))))"

definition new_config :: config where
  "new_config = set_defaults []"

section \<open>The configuration file\<close>

definition is_ws :: "char \<Rightarrow> bool" where
  "is_ws c \<longleftrightarrow> c \<in> set [CHR '' '', TAB, CR, LF]"

definition trim_trailing :: "string \<Rightarrow> string" where
  "trim_trailing s = (if list_ex (\<lambda>c. \<not> is_ws c) s then rev (dropWhile is_ws (rev s)) else s)"

text \<open>One round of the loop over the lines.\<close>

definition load_line :: "string \<Rightarrow> config \<Rightarrow> config" where
  "load_line line0 c =
     (let line = dropWhile is_ws line0
      in if line = [] then c
         else if hd line = CHR ''#'' then c
         else let (key, rest) = extract_word line
              in if key = [] then c
                 else um_put key (trim_trailing (dropWhile is_space rest)) c)"

text \<open>The contents of the file, if it can be opened.\<close>

definition load_file :: "string option \<Rightarrow> config \<Rightarrow> bool \<times> config" where
  "load_file contents c =
     (case contents of
        None \<Rightarrow> (False, c)
      | Some text \<Rightarrow> (True, fold load_line (getlines text) c))"

section \<open>Access\<close>

definition config_get :: "string \<Rightarrow> config \<Rightarrow> string" where
  "config_get key c = (case um_find c key of None \<Rightarrow> [] | Some val \<Rightarrow> val)"

definition config_all :: "config \<Rightarrow> (string, string) umap" where
  "config_all c = c"

definition config_set :: "string \<Rightarrow> string \<Rightarrow> config \<Rightarrow> config" where
  "config_set key val c = um_put key val c"

definition port :: "config \<Rightarrow> int" where
  "port c = (case stoi (config_get ''port'' c) of Some p \<Rightarrow> p | None \<Rightarrow> 6399)"

definition bind_addr :: "config \<Rightarrow> string" where
  "bind_addr c = (let a = config_get ''bind'' c in if a = [] then ''0.0.0.0'' else a)"

definition config_password :: "config \<Rightarrow> string" where
  "config_password c = config_get ''requirepass'' c"

definition save_interval :: "config \<Rightarrow> int" where
  "save_interval c = (case stoi (config_get ''save'' c) of Some s \<Rightarrow> s | None \<Rightarrow> 0)"

section \<open>Reading back settings\<close>

lemma config_get_put [simp]: "config_get k (um_put k' v c) = (if k = k' then v else config_get k c)"
  by (simp add: config_get_def)

text \<open>A setting that can be written on a line of its own.\<close>

definition clean_key :: "string \<Rightarrow> bool" where
  "clean_key k \<longleftrightarrow> k \<noteq> [] \<and> hd k \<noteq> CHR ''#'' \<and> (\<forall>c \<in> set k. \<not> is_space c)"

definition clean_value :: "string \<Rightarrow> bool" where
  "clean_value v \<longleftrightarrow> v \<noteq> [] \<and> \<not> is_space (hd v) \<and> \<not> is_ws (last v) \<and> LF \<notin> set v"

lemma ws_space: "is_ws c \<Longrightarrow> is_space c"
  by (auto simp: is_ws_def is_space_def)

lemma extract_word_key:
  assumes "k \<noteq> []" and "\<forall>c \<in> set k. \<not> is_space c"
  shows "extract_word (k @ CHR '' '' # v) = (k, CHR '' '' # v)"
proof -
  have "is_space CHR '' ''" by (simp add: is_space_def)
  moreover have "dropWhile is_space (k @ CHR '' '' # v) = k @ CHR '' '' # v"
    using assms by (cases k) auto
  ultimately show ?thesis
    using assms(2) by (simp add: extract_word_def takeWhile_append2 dropWhile_append2)
qed

lemma trim_trailing_clean: "s \<noteq> [] \<Longrightarrow> \<not> is_ws (last s) \<Longrightarrow> trim_trailing s = s"
  by (cases s rule: rev_cases) (auto simp: trim_trailing_def)

lemma load_line_setting:
  assumes "clean_key k" and "clean_value v"
  shows "load_line (k @ CHR '' '' # v) c = um_put k v c"
proof -
  have ws: "dropWhile is_ws (k @ CHR '' '' # v) = k @ CHR '' '' # v"
    using assms(1) ws_space by (cases k) (auto simp: clean_key_def)
  have word: "extract_word (k @ CHR '' '' # v) = (k, CHR '' '' # v)"
    using assms(1) by (intro extract_word_key) (simp_all add: clean_key_def)
  have "is_space CHR '' ''" by (simp add: is_space_def)
  moreover have "dropWhile is_space v = v"
    using assms(2) by (cases v) (simp_all add: clean_value_def)
  ultimately have "trim_trailing (dropWhile is_space (CHR '' '' # v)) = v"
    using assms(2) by (simp add: clean_value_def trim_trailing_clean)
  then show ?thesis
    using ws word assms(1) by (simp add: load_line_def Let_def clean_key_def)
qed

definition config_text :: "(string \<times> string) list \<Rightarrow> string" where
  "config_text kvs = concat (map (\<lambda>(k, v). k @ CHR '' '' # v @ [LF]) kvs)"

lemma getlines_config:
  "\<forall>(k, v) \<in> set kvs. clean_key k \<and> clean_value v \<Longrightarrow>
   getlines (config_text kvs) = map (\<lambda>(k, v). k @ CHR '' '' # v) kvs"
proof (induction kvs)
  case (Cons kv kvs)
  obtain k v where kv: "kv = (k, v)" by force
  have "LF \<notin> set k"
    using Cons.prems kv by (auto simp: clean_key_def is_space_def)
  then have "LF \<notin> set (k @ CHR '' '' # v)"
    using Cons.prems kv by (auto simp: clean_value_def)
  from getlines_append [OF this, of "config_text kvs"] show ?case
    using Cons kv by (simp add: config_text_def)
qed (simp add: config_text_def)

lemma fold_settings:
  "\<forall>(k, v) \<in> set kvs. clean_key k \<and> clean_value v \<Longrightarrow>
   fold load_line (map (\<lambda>(k, v). k @ CHR '' '' # v) kvs) c = fold (\<lambda>(k, v). um_put k v) kvs c"
  by (induction kvs arbitrary: c) (auto simp: load_line_setting)

lemma config_get_fold:
  "config_get k (fold (\<lambda>(k, v). um_put k v) kvs c) =
     (case map_of (rev kvs) k of None \<Rightarrow> config_get k c | Some v \<Rightarrow> v)"
  by (induction kvs arbitrary: c) (auto simp: map_add_def split: option.split)

section \<open>Properties\<close>

text \<open>
  C36. A configuration file with one setting per line is read back: every key has the value of its last
  line, spaces inside values included, and every other key keeps its value.
\<close>

theorem load_file_roundtrip:
  assumes "\<forall>(k, v) \<in> set kvs. clean_key k \<and> clean_value v"
  shows "fst (load_file (Some (config_text kvs)) c) \<and>
    config_get key (snd (load_file (Some (config_text kvs)) c)) =
      (case map_of (rev kvs) key of None \<Rightarrow> config_get key c | Some v \<Rightarrow> v)"
  using assms by (simp add: load_file_def getlines_config fold_settings config_get_fold)

theorem load_file_roundtrip_witness:
  "config_get ''requirepass'' (snd (load_file (Some (config_text [(''requirepass'', ''a b'')])) new_config)) = ''a b''"
proof -
  have "clean_key ''requirepass'' \<and> clean_value ''a b''" by code_simp
  then show ?thesis
    using load_file_roundtrip [of "[(''requirepass'', ''a b'')]" new_config "''requirepass''"] by simp
qed

text \<open>
  The port is always defined: without a setting that parses as a number it is 6399, in particular
  before any file is read; comment lines and blank lines change nothing.
\<close>

lemma config_defaults:
  "port new_config = 6399 \<and> bind_addr new_config = ''0.0.0.0'' \<and> config_password new_config = [] \<and>
   save_interval new_config = 0 \<and>
   port (config_set ''port'' ''none'' c) = 6399 \<and>
   load_line (CHR ''#'' # l) c = c \<and> load_line '' '' c = c"
proof -
  have "stoi ''none'' = None" "stoi ''6399'' = Some 6399" "stoi ''0'' = Some 0" by code_simp+
  then show ?thesis
    by (simp add: port_def bind_addr_def config_password_def save_interval_def config_set_def
        new_config_def set_defaults_def load_line_def is_ws_def)
qed

end
