(* ===== verification/Startup.thy ===== *)
theory Startup
  imports Server Client Config
begin

text \<open>
  The two programs: \<open>src/server/main.cpp\<close>, which builds the server from the configuration, the command
  line and the dump file, and \<open>src/client/main.cpp\<close>, the interactive client.
\<close>

section \<open>The server program\<close>

text \<open>
  \<open>atoi\<close>: as \<open>strtol\<close>, without errors; the value is saturated to 64 bits and converted to \<open>int\<close>.
\<close>

definition atoi :: "string \<Rightarrow> int" where
  "atoi s =
     (let s1 = dropWhile is_space s;
          neg = (s1 \<noteq> [] \<and> hd s1 = CHR ''-'');
          s2 = (if s1 \<noteq> [] \<and> (hd s1 = CHR ''-'' \<or> hd s1 = CHR ''+'') then tl s1 else s1);
          n = int (digits_val (takeWhile is_digit s2));
          v = (if neg then - n else n)
      in cast_int32 (max (- 9223372036854775808) (min 9223372036854775807 v)))"

text \<open>The arguments after the program name: every \<open>--config\<close> with a file name after it is loaded.\<close>

fun load_configs :: "files \<Rightarrow> string list \<Rightarrow> config \<Rightarrow> config" where
  "load_configs fs [] c = c"
| "load_configs fs [arg] c = c"
| "load_configs fs (arg # name # args) c =
     (if arg = ''--config'' then load_configs fs args (snd (load_file (fs name) c))
      else load_configs fs (name # args) c)"

text \<open>A bare number is the port; the name after \<open>--config\<close> is skipped.\<close>

fun choose_port :: "string list \<Rightarrow> int \<Rightarrow> int" where
  "choose_port [] p = p"
| "choose_port (arg # args) p =
     (if arg = ''--config'' then (case args of [] \<Rightarrow> p | name # args' \<Rightarrow> choose_port args' p)
      else let q = atoi arg in choose_port args (if q > 0 \<and> q \<le> 65535 then q else p))"

text \<open>
  From the configuration to the server that \<open>server.start\<close> is called on. \<^term>\<open>None\<close> would be the
  termination of the program by a second expiry thread. \<open>crc_open\<close> is a parameter of \<^const>\<open>load\<close>.
\<close>

definition boot :: "bool \<Rightarrow> time \<Rightarrow> string list \<Rightarrow> files \<Rightarrow> 'w \<Rightarrow> 'w server option" where
  "boot crc_open now args fs w =
     (let c = load_configs fs args new_config;
          p = choose_port args (port c);
          db = snd (load crc_open now ''dump.mrdb'' new_database fs);
          srv = new_server (bind_addr c) p
            \<lparr>env_db = db, env_ps = new_pubsub, env_fs = fs, env_net = w\<rparr>;
          srv1 = (if config_password c \<noteq> [] then set_password (config_password c) srv else srv)
      in map_option (\<lambda>db1. srv1\<lparr>srv_env := (srv_env srv1)\<lparr>env_db := db1\<rparr>\<rparr>)
           (start_expiry_thread (env_db (srv_env srv1))))"

text \<open>The signal handler acts on the global server pointer, which is null before the server is created.\<close>

definition signal_handler :: "'w os \<Rightarrow> 'w server option \<Rightarrow> 'w server option" where
  "signal_handler os g_server = map_option (server_stop os) g_server"

text \<open>
  After \<open>server.start\<close> has returned: the expiry thread is stopped, then the server and the database are
  destroyed.
\<close>

definition shutdown :: "'w os \<Rightarrow> 'w server \<Rightarrow> 'w server" where
  "shutdown os srv =
     (let srv1 = server_destroy os
            (srv\<lparr>srv_env := (srv_env srv)\<lparr>env_db := stop_expiry_thread (env_db (srv_env srv))\<rparr>\<rparr>)
      in srv1\<lparr>srv_env := (srv_env srv1)\<lparr>env_db := database_destroy (env_db (srv_env srv1))\<rparr>\<rparr>)"

text \<open>
  The whole program, for what happens while it runs: the exit status and what is left of the server. \<open>sig\<close> says
  where the set-up is interrupted by signals; those before the global pointer is set do nothing.
  \<^term>\<open>None\<close> stands for a program that is still in its event loop after the last event.
\<close>

definition server_main :: "'w os \<Rightarrow> bool \<Rightarrow> time \<Rightarrow> (setup_point \<Rightarrow> bool) \<Rightarrow> socket_t \<Rightarrow> (sockaddr_in \<Rightarrow> bool) \<Rightarrow> bool \<Rightarrow> time
    \<Rightarrow> 'w event list \<Rightarrow> string list \<Rightarrow> files \<Rightarrow> 'w \<Rightarrow> (int \<times> 'w server option) option" where
  "server_main os crc_open now sig s bind_ok listen_ok started evs args fs w =
     (if \<not> platform_init then Some (1, None)
      else case boot crc_open now args fs w of
        None \<Rightarrow> None
      | Some srv \<Rightarrow>
          (let (executing, srv1) = event_loop evs (start_setup os sig s bind_ok listen_ok started srv)
           in if executing then None else Some (0, Some (shutdown os srv1))))"

section \<open>The interactive client\<close>

definition is_blank_line :: "string \<Rightarrow> bool" where
  "is_blank_line line = list_all is_space line"

definition trim_line :: "string \<Rightarrow> string" where
  "trim_line s =
     (let blank = (\<lambda>c. c = CHR '' '' \<or> c = TAB)
      in if list_all blank s then s else rev (dropWhile blank (rev (dropWhile blank s))))"

text \<open>
  The read-eval-print loop over the lines typed, each with the results of the reads from the socket
  that follow it: the texts printed, the client and the network. The loop ends with the input.
\<close>

fun repl :: "'w os \<Rightarrow> (string \<times> string list) list \<Rightarrow> Client \<Rightarrow> 'w \<Rightarrow> string list \<times> Client \<times> 'w" where
  "repl os [] cl w = ([], cl, w)"
| "repl os ((line, reads) # inputs) cl w =
     (if line = [] then repl os inputs cl w
      else if is_blank_line line then repl os inputs cl w
      else case send_command os reads line cl w of
        (response, cl1, w1, reads1) \<Rightarrow>
          (if trim_line (upper line) = ''QUIT'' then ([response], cl1, w1)
           else if \<not> is_connected cl1 then ([response, ''Disconnected from server.''], cl1, w1)
           else let (out, cl2, w2) = repl os inputs cl1 w1 in (response # out, cl2, w2)))"

definition client_args :: "string list \<Rightarrow> string \<times> int" where
  "client_args args =
     (if length args > 0 then args ! 0 else ''127.0.0.1'',
      if length args > 1 then atoi (args ! 1) else 6399)"

text \<open>
  The whole program: the exit status and the texts printed by the loop. The socket and the outcome of
  connecting are the parameters of \<^const>\<open>client_connect\<close>.
\<close>

definition client_main :: "'w os \<Rightarrow> socket_t \<Rightarrow> (sockaddr_in \<Rightarrow> bool) \<Rightarrow> string list
    \<Rightarrow> (string \<times> string list) list \<Rightarrow> 'w \<Rightarrow> int \<times> string list \<times> 'w" where
  "client_main os s conn_ok args inputs w =
     (if \<not> platform_init then (1, [], w)
      else let (h, p) = client_args args;
               (ok, cl, w1) = client_connect os s conn_ok (new_client_conn h p) w
           in if \<not> ok then (1, [], snd (client_destroy os cl w1))
              else let (out, cl1, w2) = repl os inputs cl w1; (cl2, w3) = disconnect os cl1 w2
                   in (0, out, snd (client_destroy os cl2 w3)))"

section \<open>Starting\<close>

lemma load_result_cases:
  "load crc_open now path db fs = (False, db) \<or>
   (\<exists>snap. load crc_open now path db fs = (True, load_snapshot snap db))"
  by (auto simp: load_def Let_def split: option.split)

lemma load_flags [simp]:
  "expiry_joinable (snd (load crc_open now path db fs)) = expiry_joinable db"
  "expiry_running (snd (load crc_open now path db fs)) = expiry_running db"
  using load_result_cases [of crc_open now path db fs] by (auto simp: load_snapshot_def)

lemma start_expiry_data:
  "start_expiry_thread db = Some db' \<Longrightarrow> store db' = store db \<and> list_store db' = list_store db \<and> expiry db' = expiry db"
  by (auto simp: start_expiry_thread_def split: if_splits)

lemma boot_result:
  "\<exists>srv. boot crc_open now args fs w = Some srv \<and>
     env_db (srv_env srv) = (snd (load crc_open now ''dump.mrdb'' new_database fs))
       \<lparr>expiry_running := True, expiry_joinable := True\<rparr> \<and>
     env_ps (srv_env srv) = new_pubsub \<and> clients srv = [] \<and> running srv = False \<and>
     password srv = config_password (load_configs fs args new_config) \<and>
     srv_host srv = bind_addr (load_configs fs args new_config) \<and>
     srv_port srv = choose_port args (port (load_configs fs args new_config))"
proof -
  have "\<not> expiry_joinable (snd (load crc_open now ''dump.mrdb'' new_database fs))"
    by (simp add: new_database_def)
  then show ?thesis
    by (simp add: boot_def Let_def new_server_def set_password_def start_expiry_thread_def)
qed

lemma db_inv_flags [simp]:
  "db_inv (db\<lparr>expiry_running := a, expiry_joinable := b\<rparr>) = db_inv db"
  by (simp add: db_inv_def db_wf_def no_empty_lists_def)

lemma entry_of_flags [simp]: "entry_of (db\<lparr>expiry_running := a, expiry_joinable := b\<rparr>) = entry_of db"
  by (auto simp: entry_of_def fun_eq_iff split: option.split)

lemma restored_inv:
  assumes "db_inv db"
  shows "db_inv (load_snapshot (restored now now' db) db0)"
proof -
  let ?db = "load_snapshot (restored now now' db) db0"
  have wf: "db_wf db" using assms by (simp add: db_inv_def)
  then have wf': "db_wf ?db" by (rule restored_wf)
  have "um_find (list_store ?db) key \<noteq> Some []" for key
  proof
    assume empty: "um_find (list_store ?db) key = Some []"
    then have "um_find (store ?db) key = None" by (rule store_None_if_list [OF wf'])
    with empty have "\<exists>d. entry_of ?db key = Some (VList [], d)" by (simp add: entry_of_def)
    then obtain d where "Option.bind (view now db key) (reloaded now now') = Some (VList [], d)"
      using restored_entry [OF wf, of now now' db0 key] by auto
    then obtain d' where "view now db key = Some (VList [], d')"
      by (auto simp: reloaded_def Let_def split: option.splits bind_splits if_splits)
    then have "um_find (list_store db) key = Some []"
      by (auto simp: view_defs split: option.splits if_splits bind_splits)
    then show False using assms by (simp add: db_inv_def no_empty_lists_def)
  qed
  then show ?thesis using wf' by (simp add: db_inv_def no_empty_lists_def)
qed

text \<open>Arguments never turn a valid port into an invalid one.\<close>

lemma choose_port_range:
  "1 \<le> p \<and> p \<le> 65535 \<Longrightarrow> 1 \<le> choose_port args p \<and> choose_port args p \<le> 65535"
  by (induction args p rule: choose_port.induct) (auto simp: Let_def split: list.split)

text \<open>Nothing typed after \<open>QUIT\<close> is looked at.\<close>

lemma repl_stops_at_quit:
  assumes "trim_line (upper line) = ''QUIT''" and "line \<noteq> []" and "\<not> is_blank_line line"
  shows "repl os (inputs @ (line, reads) # inputs') cl w = repl os (inputs @ [(line, reads)]) cl w"
proof (induction inputs arbitrary: cl w)
  case (Cons i inputs)
  then show ?case by (cases i) (simp split: prod.split)
qed (use assms in \<open>simp split: prod.split\<close>)

section \<open>Stopping\<close>

lemma process_client_running [simp]:
  "running (snd (process_client os r c srv)) = running srv"
  by (simp add: process_client_def process_bytes_def Let_def split_beta split: read_result.split)

lemma serve_ready_running [simp]: "running (snd (serve_ready os rd i cs srv)) = running srv"
  by (induction cs arbitrary: i srv) (simp_all add: split_beta Let_def split: option.split)

lemma fold_disconnect_running [simp]: "running (fold (disconnect_client os) cs srv) = running srv"
  by (induction cs arbitrary: srv) (simp_all add: disconnect_client_def Let_def)

lemma loop_round_running [simp]: "running (snd (loop_round os ev srv)) = running srv"
  by (simp add: loop_round_def accept_client_def split_beta Let_def split: select_result.split option.split)

lemma server_stop_running [simp]: "\<not> running (server_stop os srv)" "\<not> is_valid (listen_fd (server_stop os srv))"
  by (simp_all add: server_stop_def Let_def is_valid_def INVALID_SOCKET_VAL_def)

text \<open>Once the server is stopped it stays so, and the loop is left in the next round at the latest.\<close>

lemma event_loop_stopped:
  "\<not> running srv \<Longrightarrow> \<not> running (snd (event_loop evs (executing, srv)))"
proof (induction evs "(executing, srv)" arbitrary: executing srv rule: event_loop.induct)
  case (2 os ev evs executing srv)
  then show ?case by simp
qed simp_all

lemma event_loop_left: "fst (event_loop evs (False, srv)) = False"
  by (induction evs "(False, srv)" arbitrary: srv rule: event_loop.induct) simp_all

lemma event_loop_leaves:
  "Round os ev \<in> set evs \<Longrightarrow> \<not> running srv \<Longrightarrow> \<not> fst (event_loop evs (executing, srv))"
proof (induction evs "(executing, srv)" arbitrary: executing srv rule: event_loop.induct)
  case (2 os' ev' evs executing srv)
  then show ?case by (simp add: event_loop_left)
qed auto

text \<open>
  Signals during the set-up. One between \<open>socket\<close> and \<open>listen\<close> makes the set-up fail, so the program ends. One before
  \<open>socket\<close> or after \<open>listen\<close> is lost, because \<open>start\<close> then sets \<open>running_\<close>; after \<open>listen\<close> it leaves the loop with a closed
  listening socket.
\<close>

lemma setup_signal_ends:
  "sig AfterSocket \<or> sig AfterBind \<Longrightarrow> \<not> fst (start_setup os sig s bind_ok listen_ok now srv)"
  by (auto simp: start_setup_def server_stop_def Let_def is_valid_def INVALID_SOCKET_VAL_def)

lemma early_signal_lost:
  "is_valid s \<Longrightarrow> \<not> sig AfterSocket \<Longrightarrow> \<not> sig AfterBind \<Longrightarrow>
   fst (start_setup os sig s (\<lambda>_. True) True now srv) \<and> running (snd (start_setup os sig s (\<lambda>_. True) True now srv)) \<and>
   (is_valid (listen_fd (snd (start_setup os sig s (\<lambda>_. True) True now srv))) \<longleftrightarrow> \<not> sig AfterListen)"
  by (auto simp: start_setup_def server_stop_def Let_def is_valid_def INVALID_SOCKET_VAL_def)

text \<open>In the event loop a signal is what the handler does to the server.\<close>

lemma signal_event:
  "signal_handler os (Some (snd s)) = Some (snd (event_loop [Signal os] s))"
  by (cases s) (simp add: signal_handler_def)

section \<open>Descriptors\<close>

definition fds_valid :: "'w server \<Rightarrow> bool" where
  "fds_valid srv \<longleftrightarrow>
     (running srv \<longrightarrow> is_valid (listen_fd srv)) \<and> list_all is_valid (um_keys (clients srv))"

lemma process_bytes_fds: "fds_valid srv \<Longrightarrow> is_valid c \<Longrightarrow> fds_valid (snd (process_bytes os bytes c srv))"
proof -
  assume "fds_valid srv" "is_valid c"
  moreover obtain keep srv' where run: "process_bytes os bytes c srv = (keep, srv')" by force
  moreover have "running srv' = running srv" "listen_fd srv' = listen_fd srv"
    using run by (auto simp: process_bytes_def Let_def split_beta)
  moreover obtain st where "\<And>d. um_find (clients srv') d = (if d = c then Some st else um_find (clients srv) d)"
    by (rule process_bytes_loop [OF run]) blast
  then have "dom (um_find (clients srv')) \<subseteq> insert c (dom (um_find (clients srv)))" by (auto split: if_splits)
  ultimately show ?thesis by (auto simp: fds_valid_def list_all_iff)
qed

lemma process_client_fds: "fds_valid srv \<Longrightarrow> is_valid c \<Longrightarrow> fds_valid (snd (process_client os r c srv))"
  by (cases r) (simp_all add: process_client_def process_bytes_fds Let_def)

lemma serve_ready_fds:
  "fds_valid srv \<Longrightarrow> list_all is_valid cs \<Longrightarrow> fds_valid (snd (serve_ready os rd i cs srv))"
proof (induction cs arbitrary: i srv)
  case (Cons c cs)
  then show ?case
    using process_client_fds [of srv c] by (simp add: split_beta Let_def split: option.split)
qed simp

lemma accept_client_fds: "fds_valid srv \<Longrightarrow> fds_valid (accept_client os c peer srv)"
  by (auto simp: fds_valid_def accept_client_def list_all_iff)

lemma fold_disconnect_fds: "fds_valid srv \<Longrightarrow> fds_valid (fold (disconnect_client os) cs srv)"
proof (induction cs arbitrary: srv)
  case (Cons c cs)
  have "fds_valid (disconnect_client os c srv)"
    using Cons.prems by (auto simp: fds_valid_def disconnect_client_def list_all_iff Let_def)
  then show ?case using Cons.IH by simp
qed simp

lemma loop_round_fds:
  assumes "fds_valid srv"
  shows "fds_valid (snd (loop_round os ev srv))"
proof (cases ev)
  case (Ready accepted rd)
  let ?srv = "case accepted of None \<Rightarrow> srv | Some (c, peer) \<Rightarrow> accept_client os c peer srv"
  have valid: "fds_valid ?srv" using assms by (auto simp: accept_client_fds split: option.split)
  then have "list_all is_valid (um_keys (clients ?srv))" by (simp add: fds_valid_def)
  from fold_disconnect_fds [OF serve_ready_fds [OF valid this]] show ?thesis
    by (simp add: Ready loop_round_def split_beta Let_def)
qed (use assms in \<open>simp_all add: loop_round_def\<close>)

lemma srv_step_fds: "srv_step s s' \<Longrightarrow> fds_valid (snd s) \<Longrightarrow> fds_valid (snd s')"
proof (induction rule: srv_step.induct)
  case (signal executing srv os)
  then show ?case by (simp add: fds_valid_def server_stop_def Let_def)
next
  case (expire executing srv now)
  then show ?case by (simp add: fds_valid_def)
qed (simp_all add: loop_round_fds)

lemma reachable_fds: "reachable s0 s \<Longrightarrow> fds_valid (snd s0) \<Longrightarrow> fds_valid (snd s)"
  by (induction rule: reachable.induct) (auto dest: srv_step_fds)

lemma start_listening_fds:
  "\<not> running srv \<Longrightarrow> clients srv = [] \<Longrightarrow> fds_valid (snd (start_listening os s bind_ok listen_ok now srv))"
  by (simp add: fds_valid_def start_listening_eq um_keys_def Let_def)

lemma foldl_max_start: "m \<le> foldl (\<lambda>m c. if c > m then c else m) m cs" for m :: int
proof (induction cs arbitrary: m)
  case (Cons c cs)
  show ?case using Cons.IH [of c] Cons.IH [of m] by simp
qed simp

lemma foldl_max: "c \<in> set (m # cs) \<Longrightarrow> c \<le> foldl (\<lambda>m c. if c > m then c else m) m cs" for c :: int
proof (induction cs arbitrary: m)
  case (Cons d cs)
  let ?m = "if d > m then d else m"
  have "c \<le> ?m \<or> c \<in> set (?m # cs)" using Cons.prems by (auto split: if_splits)
  then show ?case using Cons.IH [of ?m] foldl_max_start [of ?m cs] by (cases "d > m") auto
qed simp

lemma max_fd_highest: "c \<in> set (select_fds srv) \<Longrightarrow> c \<le> max_fd srv"
  unfolding select_fds_def max_fd_def by (rule foldl_max)

section \<open>Addresses\<close>

text \<open>A port outside of 16 bits is truncated.\<close>

lemma unat_port: "unat (word_of_int p :: 16 word) = nat (p mod 65536)"
  by (simp add: unsigned_of_int take_bit_eq_mod)

lemma listen_port: "unat (ntohs (sin_port (listen_address os srv))) = nat (srv_port srv mod 65536)"
  by (simp add: listen_address_def unat_port)

text \<open>A bind address that is none makes the server listen on every interface.\<close>

lemma bad_bind_listens_everywhere:
  "os_pton os (c_str (srv_host srv)) = None \<Longrightarrow> sin_addr (listen_address os srv) = INADDR_ANY"
  by (simp add: listen_address_def INADDR_ANY_def)

lemma atoi_show_nat:
  assumes "int n \<le> int_max"
  shows "atoi (show_nat n) = int n"
proof -
  have hd: "is_digit (hd (show_nat n))" by (rule show_nat_hd)
  then have "hd (show_nat n) \<noteq> CHR ''-''" "hd (show_nat n) \<noteq> CHR ''+''" using digit_not_special by blast+
  moreover have "dropWhile is_space (show_nat n) = show_nat n"
    using hd digit_not_special by (cases "show_nat n") auto
  moreover have tw: "takeWhile is_digit (show_nat n) = show_nat n"
    using show_nat_digits by (simp add: takeWhile_eq_all_conv)
  ultimately have "atoi (show_nat n) = cast_int32 (max (- 9223372036854775808) (min 9223372036854775807 (int n)))"
    by (simp add: atoi_def Let_def tw)
  then show ?thesis using assms by (simp add: int_max_def int_min_def)
qed

text \<open>Which connections reach a socket: those to its port and its address, or to any address.\<close>

definition reaches :: "sockaddr_in \<Rightarrow> sockaddr_in \<Rightarrow> bool" where
  "reaches listening peer \<longleftrightarrow>
     sin_port peer = sin_port listening \<and> (sin_addr listening = INADDR_ANY \<or> sin_addr peer = sin_addr listening)"

lemma client_reaches:
  assumes "srv_host srv = ''0.0.0.0''" and "client_port cl = srv_port srv" and "os_pton os (c_str (host cl)) \<noteq> None"
    and "is_valid s"
  shows "fst (client_connect os s (reaches (listen_address os srv)) cl w)"
  using assms by (auto simp: client_connect_def connect_address_def reaches_def listen_address_def)

section \<open>A typed line\<close>

lemma tokenize_dropWhile: "(\<And>c. P c \<Longrightarrow> is_space c) \<Longrightarrow> tokenize (dropWhile P s) = tokenize s"
  by (induction s) auto

lemma parse_dropWhile: "(\<And>c. P c \<Longrightarrow> is_space c) \<Longrightarrow> parse (dropWhile P s) = parse s"
  by (simp add: parse_def tokenize_dropWhile)

text \<open>
  What a user can type so that the server takes it as an inline command: a line of less than 64 KiB, since the server
  refuses to buffer more without a line feed.
\<close>

definition typed_line :: "string \<Rightarrow> bool" where
  "typed_line line \<longleftrightarrow> CR \<notin> set line \<and> LF \<notin> set line \<and> \<not> is_blank_line line \<and> hd line \<noteq> CHR ''*'' \<and>
     length line < max_inline"

lemma parse_typed_line:
  assumes "typed_line line"
  shows "parse_command (line @ crlf) =
    rp_result True False False (pr_command (parse line)) (length line + 2)"
proof -
  have nonempty: "line \<noteq> []" "\<exists>c \<in> set line. \<not> is_space c"
    using assms by (auto simp: typed_line_def is_blank_line_def list_all_iff)
  have blank: "is_blank c \<Longrightarrow> is_space c" for c by (auto simp: is_blank_def is_space_def)
  have eol: "find_crlf (line @ crlf) 0 = Some (length line)"
    using find_crlf_at [of line "[]" "[]"] assms by (simp add: typed_line_def)
  have "dropWhile is_blank line \<noteq> []" using nonempty(2) blank by (auto simp: dropWhile_eq_Nil_conv)
  moreover have "pr_ok (parse line)" using nonempty(2) by (simp add: parse_ok_iff)
  ultimately have "parse_line line (length line + 2) =
      rp_result True False False (pr_command (parse line)) (length line + 2)"
    by (auto simp: parse_line_def Let_def parse_dropWhile [of is_blank, OF blank])
  moreover have "(line @ crlf) ! 0 \<noteq> CHR ''*''"
    using assms nonempty(1) by (cases line) (auto simp: typed_line_def)
  ultimately show ?thesis
    using nonempty(1) eol by (simp add: parse_command_def parse_inline_def substr_def)
qed

text \<open>Whatever part of the line has arrived, the server waits for its end.\<close>

lemma typed_line_prefix:
  assumes "typed_line line" and "line @ crlf = p @ q" and "q \<noteq> []"
  shows "incomplete p"
proof (rule no_line_incomplete)
  have p: "prefix p (line @ [CR])"
    using assms(2,3) by (cases q rule: rev_cases) (auto simp: prefix_def append_eq_append_conv2 append_eq_Cons_conv)
  then show "LF \<notin> set p" "length p \<le> max_inline"
    using assms(1) set_mono_prefix [OF p] prefix_length_le [OF p] by (auto simp: typed_line_def)
  show "p = [] \<or> p ! 0 \<noteq> CHR ''*''"
    using assms(1) p by (cases p; cases line) (auto simp: typed_line_def is_blank_line_def)
qed

text \<open>Any words can be typed as quoted arguments.\<close>

definition quoted_line :: "string list \<Rightarrow> string" where
  "quoted_line ws = concat (map (\<lambda>w. quote w @ '' '') ws)"

lemma escape_no_LF: "LF \<notin> set (escape c)" by (simp add: escape_def)

lemma escape_CR: "CR \<in> set (escape c) \<longleftrightarrow> c = CR" by (auto simp: escape_def)

lemma quoted_line_ends:
  "LF \<notin> set (quoted_line ws)" "CR \<in> set (quoted_line ws) \<longleftrightarrow> (\<exists>w \<in> set ws. CR \<in> set w)"
  by (auto simp: quoted_line_def quote_def escape_no_LF escape_CR)

lemma typed_quoted_line:
  assumes "ws \<noteq> []" and "list_all (\<lambda>w. CR \<notin> set w) ws" and "length (quoted_line ws) < max_inline"
  shows "typed_line (quoted_line ws)"
proof -
  have hd: "hd (quoted_line ws) = DQ" "DQ \<in> set (quoted_line ws)"
    using assms(1) by (cases ws; simp add: quoted_line_def quote_def)+
  have "CR \<notin> set (quoted_line ws)" "LF \<notin> set (quoted_line ws)"
    using assms(2) by (auto simp: quoted_line_ends list_all_iff)
  moreover have "\<not> is_blank_line (quoted_line ws)"
    using hd(2) by (force simp: is_blank_line_def list_all_iff is_space_def)
  ultimately show ?thesis using hd(1) assms(3) by (simp add: typed_line_def)
qed

lemma parse_quoted_line: "pr_command (parse (quoted_line (w # ws))) = \<lparr>cmd_name = upper w, cmd_args = ws\<rparr>"
  using tokenize_quotes [of "w # ws"] by (simp add: parse_def parse_success_def quoted_line_def)

section \<open>Properties\<close>

text \<open>
  C8. A signal that arrives after the set-up of the server ends the program: whatever happened before it, signals during
  the set-up included (those may be lost), and whatever else happens, when the event loop comes to its next
  round after the signal, the program ends with status 0; the server is not running, its listening socket is closed and
  the expiry thread is stopped.
\<close>

theorem signal_ends_program:
  assumes "Round os' ev \<in> set evs'"
  shows "\<exists>srv. server_main os crc_open now setup s bind_ok listen_ok started (evs @ Signal sig # evs') args fs w =
      Some (0, Some srv) \<and>
    \<not> running srv \<and> \<not> is_valid (listen_fd srv) \<and> \<not> expiry_running (env_db (srv_env srv))"
proof -
  obtain srv0 where boot: "boot crc_open now args fs w = Some srv0" using boot_result [of crc_open now args fs w] by blast
  obtain executing srv1 where before: "event_loop evs (start_setup os setup s bind_ok listen_ok started srv0) = (executing, srv1)"
    by force
  obtain executing' srv2 where after: "event_loop evs' (executing, server_stop sig srv1) = (executing', srv2)" by force
  have "event_loop (evs @ Signal sig # evs') (start_setup os setup s bind_ok listen_ok started srv0) = (executing', srv2)"
    by (simp add: event_loop_append before after)
  moreover have "\<not> executing'"
    using event_loop_leaves [OF assms, of "server_stop sig srv1" executing] after by simp
  ultimately have "server_main os crc_open now setup s bind_ok listen_ok started (evs @ Signal sig # evs') args fs w =
      Some (0, Some (shutdown os srv2))"
    by (simp add: server_main_def platform_init_def boot)
  then show ?thesis
    by (simp add: shutdown_def server_destroy_def database_destroy_def stop_expiry_thread_def Let_def)
qed

theorem signal_ends_program_witness:
  "\<exists>srv. server_main (still_os 0) True 0 (\<lambda>pt. pt = BeforeSocket) 3 (\<lambda>_. True) True 0
     ([Round (still_os 1) (Ready (Some (7, local_peer)) (\<lambda>_. None))] @ Signal (still_os 2) # [Round (still_os 3) SelectTimeout])
     [''7000''] (\<lambda>_. None) (\<lambda>_. []) = Some (0, Some srv) \<and> \<not> running srv"
  using signal_ends_program [of "still_os 3" SelectTimeout "[Round (still_os 3) SelectTimeout]" "still_os 0" True 0
      "\<lambda>pt. pt = BeforeSocket" 3
      "\<lambda>_. True" True 0 "[Round (still_os 1) (Ready (Some (7, local_peer)) (\<lambda>_. None))]" "still_os 2" "[''7000'']" "\<lambda>_. None" "\<lambda>_. []"]
  by auto

text \<open>
  C9. The two programs find each other: without a configuration file, the server started without arguments is
  reached by the client started without arguments, and the server started with a port by the client started
  with the server's address and that port.
\<close>

theorem programs_meet:
  assumes "os_pton os ''127.0.0.1'' \<noteq> None" and "os_pton os (c_str h) \<noteq> None" and "is_valid s"
    and "1 \<le> n" and "n \<le> 65535"
    and "boot crc_open now [] fs w = Some srv1" and "boot crc_open now [show_nat n] fs w = Some srv2"
  shows "fst (client_connect os s (reaches (listen_address os srv1)) (case client_args [] of (h, p) \<Rightarrow> new_client_conn h p) w') \<and>
    fst (client_connect os s (reaches (listen_address os srv2))
      (case client_args [h, show_nat n] of (h, p) \<Rightarrow> new_client_conn h p) w')"
proof -
  have atoi: "atoi (show_nat n) = int n" using assms(5) by (intro atoi_show_nat) (simp add: int_max_def)
  have "hd ''--config'' \<noteq> hd (show_nat n)" using show_nat_hd [of n] digit_not_special by force
  then have "show_nat n \<noteq> ''--config''" by metis
  then have "srv_host srv1 = ''0.0.0.0''" "srv_port srv1 = 6399" "srv_host srv2 = ''0.0.0.0''" "srv_port srv2 = int n"
    using boot_result [of crc_open now "[]" fs w] boot_result [of crc_open now "[show_nat n]" fs w] assms(4-) config_defaults
    by (simp_all add: atoi Let_def)
  moreover have "c_str ''127.0.0.1'' = ''127.0.0.1''" by code_simp
  ultimately show ?thesis
    using assms(1-3) by (simp add: client_args_def new_client_conn_def atoi client_reaches)
qed

theorem programs_meet_witness:
  "case boot True 0 [show_nat 7000] (\<lambda>_. None) (\<lambda>_. []) of
     None \<Rightarrow> False
   | Some srv \<Rightarrow> fst (client_connect (still_os 0) 3 (reaches (listen_address (still_os 0) srv))
       (case client_args [''127.0.0.1'', show_nat 7000] of (h, p) \<Rightarrow> new_client_conn h p) (\<lambda>_. []))"
proof -
  obtain srv1 srv2 where boot: "boot True 0 [] (\<lambda>_. None) ((\<lambda>_. []) :: socket_t \<Rightarrow> string) = Some srv1"
    "boot True 0 [show_nat 7000] (\<lambda>_. None) ((\<lambda>_. []) :: socket_t \<Rightarrow> string) = Some srv2"
    using boot_result [of True 0 "[]" "\<lambda>_. None" "(\<lambda>_. []) :: socket_t \<Rightarrow> string"]
      boot_result [of True 0 "[show_nat 7000]" "\<lambda>_. None" "(\<lambda>_. []) :: socket_t \<Rightarrow> string"] by blast
  have "c_str ''127.0.0.1'' = ''127.0.0.1''" by code_simp
  then show ?thesis
    using programs_meet [OF _ _ _ _ _ boot, of "still_os 0" "''127.0.0.1''" 3 "\<lambda>_. []"] unfolding boot(2)
    by (simp add: still_os_def is_valid_def)
qed

end
