(* ===== verification/Semantics.thy ===== *)
theory Semantics
  imports Server
begin

text \<open>
  What the commands on the data mean, on live entries only: a command is a request to the abstract
  keyspace of \<open>Keyspace\<close>, and its reply is the text of the result. The handlers, and the server with its
  buffers and its wire format around them, implement that meaning.
\<close>

section \<open>Requests\<close>

text \<open>
  \<open>Refuse\<close> is an error found before the database is touched, \<open>StoreBad\<close> a \<open>SET\<close> whose expiry option is
  found to be wrong after the value is stored.
\<close>

datatype request =
    Refuse string
  | Echo string
  | Request db_call
  | StoreFor string string int
  | StoreBad string string string

definition one_key :: "string \<Rightarrow> string list \<Rightarrow> (string \<Rightarrow> db_call) \<Rightarrow> request" where
  "one_key name args call = (if length args = 1 then Request (call (args ! 0)) else Refuse (wrong_args name))"

definition some_keys :: "string \<Rightarrow> string list \<Rightarrow> db_call \<Rightarrow> request" where
  "some_keys name args call = (if args = [] then Refuse (wrong_args name) else Request call)"

definition pushing :: "string \<Rightarrow> string list \<Rightarrow> (string \<Rightarrow> string \<Rightarrow> string list \<Rightarrow> db_call) \<Rightarrow> request" where
  "pushing name args call =
     (case args of key # val # vals \<Rightarrow> Request (call key val vals) | _ \<Rightarrow> Refuse (wrong_args name))"

definition bad_time :: "string \<Rightarrow> string" where
  "bad_time name = ''ERR invalid expire time in '' @ [SQ] @ name @ [SQ] @ '' command''"

definition set_request :: "string list \<Rightarrow> request" where
  "set_request args =
     (if length args < 2 then Refuse (wrong_args ''SET'')
      else if length args < 4 \<or> upper (args ! 2) \<noteq> ''EX'' then Request (Set (args ! 0) (args ! 1))
      else case stoi (args ! 3) of
        None \<Rightarrow> StoreBad (args ! 0) (args ! 1) not_integer
      | Some seconds \<Rightarrow>
          (if seconds \<le> 0 then StoreBad (args ! 0) (args ! 1) (bad_time ''SET'')
           else StoreFor (args ! 0) (args ! 1) seconds))"

definition expire_request :: "string list \<Rightarrow> request" where
  "expire_request args =
     (if length args \<noteq> 2 then Refuse (wrong_args ''EXPIRE'')
      else case stoi (args ! 1) of
        None \<Rightarrow> Refuse not_integer
      | Some seconds \<Rightarrow> if seconds \<le> 0 then Refuse (bad_time ''EXPIRE'') else Request (Expire (args ! 0) seconds))"

definition lrange_request :: "string list \<Rightarrow> request" where
  "lrange_request args =
     (if length args \<noteq> 3 then Refuse (wrong_args ''LRANGE'')
      else case (stoi (args ! 1), stoi (args ! 2)) of
        (Some start, Some stop) \<Rightarrow> Request (Lrange (args ! 0) start stop)
      | _ \<Rightarrow> Refuse not_integer)"

definition lindex_request :: "string list \<Rightarrow> request" where
  "lindex_request args =
     (if length args \<noteq> 2 then Refuse (wrong_args ''LINDEX'')
      else case stoi (args ! 1) of None \<Rightarrow> Refuse not_integer | Some i \<Rightarrow> Request (Lindex (args ! 0) i))"

text \<open>The commands on the data by name.\<close>

definition requests :: "(string \<times> (string list \<Rightarrow> request)) list" where
  "requests =
     [(''PING'', \<lambda>args. Echo (if args = [] then ''PONG'' else args ! 0)),
      (''SET'', set_request),
      (''GET'', \<lambda>args. one_key ''GET'' args Get),
      (''DEL'', \<lambda>args. some_keys ''DEL'' args (Del args)),
      (''EXISTS'', \<lambda>args. some_keys ''EXISTS'' args (Exists args)),
      (''KEYS'', \<lambda>args. Request Keys),
      (''DBSIZE'', \<lambda>args. Request Dbsize),
      (''FLUSHDB'', \<lambda>args. Request Flushdb),
      (''EXPIRE'', expire_request),
      (''TTL'', \<lambda>args. one_key ''TTL'' args Ttl),
      (''PERSIST'', \<lambda>args. one_key ''PERSIST'' args Persist),
      (''LPUSH'', \<lambda>args. pushing ''LPUSH'' args Lpush),
      (''RPUSH'', \<lambda>args. pushing ''RPUSH'' args Rpush),
      (''LPOP'', \<lambda>args. one_key ''LPOP'' args Lpop),
      (''RPOP'', \<lambda>args. one_key ''RPOP'' args Rpop),
      (''LRANGE'', lrange_request),
      (''LLEN'', \<lambda>args. one_key ''LLEN'' args Llen),
      (''LINDEX'', lindex_request)]"

definition request_of :: "Command \<Rightarrow> request option" where
  "request_of cmd = map_option (\<lambda>f. f (cmd_args cmd)) (map_of requests (cmd_name cmd))"

section \<open>Meaning\<close>

definition flag_text :: "bool \<Rightarrow> string" where
  "flag_text b = ''(integer) '' @ (if b then ''1'' else ''0'')"

text \<open>The reply to a call with a definite result.\<close>

fun call_text :: "db_call \<Rightarrow> db_result \<Rightarrow> string" where
  "call_text call RUnit = ''OK''"
| "call_text call (RString s) = nil_or_quoted s"
| "call_text (Lpush key val vals) (RInt i) = push_reply i"
| "call_text (Rpush key val vals) (RInt i) = push_reply i"
| "call_text (Llen key) (RInt i) = push_reply i"
| "call_text call (RInt i) = integer_text i"
| "call_text call (RBool b) = flag_text b"
| "call_text call (RList l) = list_reply l"
| "call_text call (RKeys ks) = []"

text \<open>
  Request, live entries before, reply, live entries after. Two replies are not determined by the live
  entries: \<open>KEYS\<close> gives them in some order, and \<open>DEL\<close> may count keys that have expired.
\<close>

fun means :: "time \<Rightarrow> request \<Rightarrow> live_map \<Rightarrow> string \<Rightarrow> live_map \<Rightarrow> bool" where
  "means now (Refuse t) m r m' \<longleftrightarrow> r = t \<and> m' = m"
| "means now (Echo t) m r m' \<longleftrightarrow> r = t \<and> m' = m"
| "means now (StoreFor key val seconds) m r m' \<longleftrightarrow>
     r = ''OK'' \<and> m' = m(key \<mapsto> (VString val, Some (now + seconds * ns_per_sec)))"
| "means now (StoreBad key val t) m r m' \<longleftrightarrow> r = t \<and> m' = m(key \<mapsto> (VString val, None))"
| "means now (Request Keys) m r m' \<longleftrightarrow> (\<exists>ks. distinct ks \<and> set ks = dom m \<and> r = list_reply ks) \<and> m' = m"
| "means now (Request (Del keys)) m r m' \<longleftrightarrow>
     (\<exists>n. r = integer_text (int n) \<and> card {k \<in> set keys. m k \<noteq> None} \<le> n \<and> n \<le> card (set keys)) \<and>
     m' = (\<lambda>k. if k \<in> set keys then None else m k)"
| "means now (Request call) m r m' \<longleftrightarrow>
     r = call_text call (fst (spec_call now call m)) \<and> m' = snd (spec_call now call m)"

section \<open>The handlers implement it\<close>

lemma del_means:
  "means now (Request (Del keys)) (view now db) (integer_text (fst (db_del keys db))) (view now (snd (db_del keys db)))"
proof -
  let ?n = "card {k \<in> set keys. key_exists_unlocked k db}"
  have "{k \<in> set keys. view now db k \<noteq> None} \<subseteq> {k \<in> set keys. key_exists_unlocked k db}"
    by (auto simp: view_defs key_exists_unlocked_def split: option.splits)
  then have "card {k \<in> set keys. view now db k \<noteq> None} \<le> ?n" by (intro card_mono) auto
  moreover have "?n \<le> card (set keys)" by (intro card_mono) auto
  moreover have "fst (db_del keys db) = int ?n" by (simp add: db_del_def del_loop_count)
  ultimately show ?thesis by (auto simp: view_del)
qed

lemma keys_means:
  assumes "db_inv db"
  shows "means now (Request Keys) (view now db) (list_reply (fst (db_keys (\<lambda>_. now) db)))
    (view now (snd (db_keys (\<lambda>_. now) db)))"
proof -
  have wf: "db_wf db" using assms by (simp add: db_inv_def)
  show ?thesis using db_keys_result [OF wf, of now] by (auto simp: view_keys)
qed

lemma run_call_means:
  assumes "db_inv db" and "lists_fit (view now db)" and "\<not> (call = Keys \<or> (\<exists>keys. call = Del keys))"
  shows "means now (Request call) (view now db) (call_text call (fst (run_call now call db)))
    (view now (snd (run_call now call db)))"
  using assms(3) run_call_result [OF assms(1,2), of call] run_call_view [OF assms(1), of now call]
  by (cases call) simp_all

text \<open>
  In between: a request carried out by calls of the database, all at one time. First, the calls have
  the meaning of the request.
\<close>

fun perform :: "time \<Rightarrow> request \<Rightarrow> database \<Rightarrow> string \<times> database" where
  "perform now (Refuse t) db = (t, db)"
| "perform now (Echo t) db = (t, db)"
| "perform now (StoreFor key val seconds) db = (''OK'', snd (db_expire (\<lambda>_. now) key seconds (db_set key val db)))"
| "perform now (StoreBad key val t) db = (t, db_set key val db)"
| "perform now (Request Keys) db = map_prod list_reply id (db_keys (\<lambda>_. now) db)"
| "perform now (Request (Del keys)) db = map_prod integer_text id (db_del keys db)"
| "perform now (Request call) db = map_prod (call_text call) id (run_call now call db)"

fun in_future :: "request \<Rightarrow> bool" where
  "in_future (StoreFor key val seconds) \<longleftrightarrow> 0 < seconds"
| "in_future _ \<longleftrightarrow> True"

lemma perform_means:
  assumes "db_inv db" and "lists_fit (view now db)" and "in_future req"
  shows "means now req (view now db) (fst (perform now req db)) (view now (snd (perform now req db)))"
proof (cases req)
  case (Request call)
  then show ?thesis
    using run_call_means [OF assms(1,2), of call] keys_means [OF assms(1), of now] del_means [of now _ db]
    by (cases call) simp_all
next
  case (StoreFor key val seconds)
  then have "view now (snd (db_expire (\<lambda>_. now) key seconds (db_set key val db))) =
      (view now db)(key \<mapsto> (VString val, Some (now + seconds * ns_per_sec)))"
    using assms(3) dbk.live_expire [OF db_inv_set [OF assms(1)], of "\<lambda>_. now" now]
    by (simp add: view_set at_time_def ns_per_sec_def)
  then show ?thesis using StoreFor by simp
qed (simp_all add: view_set)

lemma perform_inv: "db_inv db \<Longrightarrow> db_inv (snd (perform now req db))"
proof (cases req)
  case (Request call)
  then show "db_inv db \<Longrightarrow> ?thesis"
    using run_call_inv [of db now call] by (cases call) (auto intro: wf_intros)
qed (auto intro: wf_intros)

text \<open>Second, every handler carries out the request that its arguments make.\<close>

lemma handlers_perform:
  "handle_set (\<lambda>_. now) args db = perform now (set_request args) db"
  "handle_get (\<lambda>_. now) args db = perform now (one_key ''GET'' args Get) db"
  "handle_del args db = perform now (some_keys ''DEL'' args (Del args)) db"
  "handle_exists (\<lambda>_. now) args db = perform now (some_keys ''EXISTS'' args (Exists args)) db"
  "handle_keys (\<lambda>_. now) db = perform now (Request Keys) db"
  "handle_flushdb db = perform now (Request Flushdb) db"
  "handle_expire (\<lambda>_. now) args db = perform now (expire_request args) db"
  "handle_ttl (\<lambda>_. now) args db = perform now (one_key ''TTL'' args Ttl) db"
  "handle_persist (\<lambda>_. now) args db = perform now (one_key ''PERSIST'' args Persist) db"
  "handle_lpop (\<lambda>_. now) args db = perform now (one_key ''LPOP'' args Lpop) db"
  "handle_rpop (\<lambda>_. now) args db = perform now (one_key ''RPOP'' args Rpop) db"
  "handle_lrange (\<lambda>_. now) args db = perform now (lrange_request args) db"
  "handle_llen (\<lambda>_. now) args db = perform now (one_key ''LLEN'' args Llen) db"
  "handle_lindex (\<lambda>_. now) args db = perform now (lindex_request args) db"
  by (simp_all add: handle_set_def set_request_def bad_time_def handle_get_def one_key_def handle_del_def
      some_keys_def handle_exists_def handle_keys_def handle_flushdb_def handle_expire_def expire_request_def
      handle_ttl_def handle_persist_def handle_lpop_def handle_rpop_def handle_lrange_def lrange_request_def
      handle_llen_def handle_lindex_def lindex_request_def flag_text_def [abs_def] map_prod_def split_beta Let_def
      split: option.split)

lemma handle_dbsize_perform: "handle_dbsize (\<lambda>_. now) db = perform now (Request Dbsize) db"
  by (simp add: handle_dbsize_def map_prod_def split_beta integer_text_def show_int_nat)

lemma handle_push_perform:
  "handle_lpush (\<lambda>_. now) args db = perform now (pushing ''LPUSH'' args Lpush) db"
  "handle_rpush (\<lambda>_. now) args db = perform now (pushing ''RPUSH'' args Rpush) db"
  by (auto simp: handle_lpush_def handle_rpush_def pushing_def map_prod_def split_beta split: list.split)

lemma request_ofD:
  assumes "request_of cmd = Some req" and "list_all (\<lambda>(name, f). P (f (cmd_args cmd))) requests"
  shows "P req"
  using assms by (force simp: request_of_def list_all_iff dest: map_of_SomeD)

lemma request_in_future: "request_of cmd = Some req \<Longrightarrow> in_future req"
proof (erule request_ofD)
  have "in_future (set_request args)" "in_future (one_key n args f)" "in_future (some_keys n args c)"
    "in_future (pushing n args g)" "in_future (expire_request args)" "in_future (lrange_request args)"
    "in_future (lindex_request args)" for args n f c g
    by (simp_all add: set_request_def one_key_def some_keys_def pushing_def expire_request_def
        lrange_request_def lindex_request_def split: option.split list.split)
  then show "list_all (\<lambda>(name, f). in_future (f (cmd_args cmd))) requests" by (simp add: requests_def)
qed

lemma execute_single_performs:
  assumes "request_of cmd = Some req" and "os_clock os = (\<lambda>_. now)"
  shows "execute_single os h cmd e = on_db (perform now req) e"
proof -
  have "list_all (\<lambda>(name, f). cmd_name cmd = name \<longrightarrow>
      execute_single os h cmd e = on_db (perform now (f (cmd_args cmd))) e) requests"
    by (simp add: requests_def execute_single_def assms(2) on_db_def Let_def handle_ping_def
        handlers_perform [where now = now] handle_dbsize_perform handle_push_perform del: perform.simps(3-))
  then show ?thesis
    using assms(1) by (force simp: request_of_def list_all_iff dest: map_of_SomeD)
qed

section \<open>The server implements it\<close>

text \<open>A sequence of commands at given times: their replies and the live entries at the end.\<close>

fun session :: "(time \<times> Command) list \<Rightarrow> live_map \<Rightarrow> string list \<Rightarrow> live_map \<Rightarrow> bool" where
  "session [] m rs m' \<longleftrightarrow> rs = [] \<and> m' = m"
| "session ((now, cmd) # cmds) m rs m'' \<longleftrightarrow>
     (\<exists>req r rs' m'. request_of cmd = Some req \<and> means now req (age now m) r m' \<and> rs = r # rs' \<and>
        session cmds m' rs' m'')"

text \<open>A command pushes no more elements than it has arguments.\<close>

fun few_pushes :: "nat \<Rightarrow> request \<Rightarrow> bool" where
  "few_pushes n (Request call) \<longleftrightarrow> pushes call \<le> n"
| "few_pushes n _ \<longleftrightarrow> True"

lemma request_few_pushes: "request_of cmd = Some req \<Longrightarrow> few_pushes (length (cmd_args cmd)) req"
proof (erule request_ofD)
  let ?P = "\<lambda>args. few_pushes (length args)"
  have "?P args (set_request args)" "?P args (expire_request args)" "?P args (lrange_request args)"
    "?P args (lindex_request args)" "?P args (pushing n args Lpush)" "?P args (pushing n args Rpush)"
    "(\<And>k. pushes (f k) = 0) \<Longrightarrow> ?P args (one_key n args f)" "pushes c = 0 \<Longrightarrow> ?P args (some_keys n args c)"
    for args n f c
    by (simp_all add: set_request_def one_key_def some_keys_def pushing_def expire_request_def
        lrange_request_def lindex_request_def split: option.split list.split)
  then show "list_all (\<lambda>(name, f). few_pushes (length (cmd_args cmd)) (f (cmd_args cmd))) requests"
    by (simp add: requests_def)
qed

lemma len_at_means:
  assumes "request_of cmd = Some req" and "means now req m r m'"
  shows "len_at m' key \<le> len_at m key + length (cmd_args cmd)"
proof (cases req)
  case (Request call)
  have "m' = snd (spec_call now call m)" using assms(2) Request by (cases call) auto
  then show ?thesis
    using len_at_call [of now call m key] request_few_pushes [OF assms(1)] Request by simp
qed (use assms(2) in \<open>auto simp: len_at_def as_list_def\<close>)

lemma execute_single_means:
  assumes "db_inv (env_db e)" and "lists_fit (view now (env_db e))" and "request_of cmd = Some req"
    and "os_clock os = (\<lambda>_. now)" and "execute_single os h cmd e = (r, e')"
  shows "means now req (view now (env_db e)) r (view now (env_db e'))"
    and "db_inv (env_db e')" and "env_ps e' = env_ps e" and "env_fs e' = env_fs e" and "env_net e' = env_net e"
  using perform_means [OF assms(1,2) request_in_future [OF assms(3)]] perform_inv [OF assms(1), of now req]
    execute_single_performs [OF assms(3,4), of h e] assms(5)
  by (auto simp: on_db_def split_beta Let_def)

lemma request_names: "request_of cmd = Some req \<Longrightarrow> plain_effect cmd \<and> cmd_name cmd \<noteq> ''QUIT''"
proof -
  assume "request_of cmd = Some req"
  then have "cmd_name cmd \<in> set (map fst requests)" by (force simp: request_of_def dest: map_of_SomeD)
  then show ?thesis by (auto simp: requests_def plain_effect_def tx_command_def)
qed

lemma answer_performs:
  assumes "pw = [] \<or> authenticated st" and "\<not> is_subscribed fd (env_ps e)" and "request_of cmd = Some req"
  shows "answer os info pw fd cmd st e =
    (let (r, e') = execute_single os (set_server info (new_handler fd)) cmd e in (r, st, e'))"
  using assms request_names [OF assms(3)]
  by (auto simp: answer_def execute_direct in_subscription_mode_def plain_effect_def new_handler_def
      set_server_def split_beta Let_def)

lemma send_sends:
  assumes "lawful_write (os_write os) out" and "send os fd data e = (True, e')"
  shows "out (env_net e') = (out (env_net e))(fd := out (env_net e) fd @ data)"
    and "env_db e' = env_db e" and "env_ps e' = env_ps e"
  using assms write_loop_sends [OF assms(1), of fd data "env_net e"]
  by (auto simp: send_def send_response_def resp_write_exact_def split: prod.splits)

text \<open>Every clock reading of the \<open>j\<close>-th command from the \<open>i\<close>-th on is \<open>ts ! j\<close>.\<close>

definition at_times :: "'w os \<Rightarrow> nat \<Rightarrow> time list \<Rightarrow> bool" where
  "at_times os i ts \<longleftrightarrow> (\<forall>j < length ts. os_clock (sub_os os (i + j)) = (\<lambda>_. ts ! j))"

lemma at_times_Cons: "at_times os i (t # ts) \<longleftrightarrow> os_clock (sub_os os i) = (\<lambda>_. t) \<and> at_times os (Suc i) ts"
  by (auto simp: at_times_def nth_Cons less_Suc_eq_0_disj)

text \<open>No list can grow beyond 32-bit lengths.\<close>

definition room :: "live_map \<Rightarrow> Command list \<Rightarrow> bool" where
  "room m cmds \<longleftrightarrow> (\<forall>key. int (len_at m key + sum_list (map (length \<circ> cmd_args) cmds)) \<le> int_max)"

lemma room_fits: "room m cmds \<Longrightarrow> lists_fit m"
  unfolding room_def lists_fit_def len_at_def by (metis le_add1 of_nat_mono order_trans)

lemma room_age: "room m cmds \<Longrightarrow> room (age now m) cmds"
  unfolding room_def using len_at_age by (meson add_right_mono of_nat_mono order_trans)

lemma room_Cons:
  assumes "room m (cmd # cmds)" and "request_of cmd = Some req" and "means now req m r m'"
  shows "room m' cmds"
  unfolding room_def
proof
  fix key
  have "len_at m' key + sum_list (map (length \<circ> cmd_args) cmds) \<le>
      len_at m key + sum_list (map (length \<circ> cmd_args) (cmd # cmds))"
    using len_at_means [OF assms(2,3), of key] by simp
  then show "int (len_at m' key + sum_list (map (length \<circ> cmd_args) cmds)) \<le> int_max"
    using assms(1) unfolding room_def by (meson of_nat_mono order_trans)
qed

lemma serve_all_session:
  assumes "lawful_write (os_write os) out" and "pw = [] \<or> authenticated st"
    and "\<not> is_subscribed fd (env_ps e)" and "db_inv (env_db e)" and "list_all (\<lambda>cmd. request_of cmd \<noteq> None) cmds"
    and "length ts = length cmds" and "at_times os i ts" and "sorted (t0 # ts)" and "room (view t0 (env_db e)) cmds"
    and "serve_all os i info pw fd cmds st e = (True, st', e')"
  shows "\<exists>rs. session (zip ts cmds) (view t0 (env_db e)) rs (view (last (t0 # ts)) (env_db e')) \<and>
    out (env_net e') = (out (env_net e))(fd := out (env_net e) fd @ concat (map serialize_response rs)) \<and> st' = st"
  using assms(3-)
proof (induction cmds arbitrary: ts i t0 e)
  case (Cons cmd cmds)
  from Cons.prems(4) obtain t ts' where ts: "ts = t # ts'" by (cases ts) auto
  from Cons.prems(3) obtain req where req: "request_of cmd = Some req" by auto
  obtain r e1 where run: "execute_single (sub_os os i) (set_server info (new_handler fd)) cmd e = (r, e1)" by force
  obtain sent e2 where snd: "send os fd (serialize_response r) e1 = (sent, e2)" by force
  have later: "age t (view t0 (env_db e)) = view t (env_db e)"
    using Cons.prems(6) by (simp add: ts age_view)
  have room: "room (view t (env_db e)) (cmd # cmds)" using room_age [OF Cons.prems(7), of t] later by simp
  have step: "means t req (view t (env_db e)) r (view t (env_db e1))" "db_inv (env_db e1)"
    "env_ps e1 = env_ps e" "env_net e1 = env_net e"
    using execute_single_means [OF Cons.prems(2) room_fits [OF room] req _ run] Cons.prems(5)
    by (simp_all add: ts at_times_Cons)
  have "answer (sub_os os i) info pw fd cmd st e = (r, st, e1)"
    using answer_performs [OF assms(2) Cons.prems(1) req] run by simp
  then have rest: "sent" "serve_all os (Suc i) info pw fd cmds st e2 = (True, st', e')"
    using Cons.prems(8) request_names [OF req] snd by (auto split: if_splits)
  have same: "env_db e2 = env_db e1" "env_ps e2 = env_ps e" "out (env_net e2) =
      (out (env_net e))(fd := out (env_net e) fd @ serialize_response r)"
    using send_sends [OF assms(1), of fd "serialize_response r" e1 e2] snd rest(1) step(3,4) by simp_all
  have "\<exists>rs. session (zip ts' cmds) (view t (env_db e2)) rs (view (last (t # ts')) (env_db e')) \<and>
      out (env_net e') = (out (env_net e2))(fd := out (env_net e2) fd @ concat (map serialize_response rs)) \<and> st' = st"
    by (rule Cons.IH)
      (use Cons.prems(1,3-6) same(1,2) step(2) rest(2) room_Cons [OF room req step(1)] in \<open>simp_all add: ts at_times_Cons\<close>)
  then obtain rs where "session (zip ts' cmds) (view t (env_db e2)) rs (view (last (t # ts')) (env_db e'))"
      "out (env_net e') = (out (env_net e2))(fd := out (env_net e2) fd @ concat (map serialize_response rs))" "st' = st"
    by blast
  then have "session (zip ts (cmd # cmds)) (view t0 (env_db e)) (r # rs) (view (last (t0 # ts)) (env_db e'))"
      "out (env_net e') = (out (env_net e))(fd := out (env_net e) fd @ concat (map serialize_response (r # rs)))"
    using req step(1) later same by (auto simp: ts)
  then show ?case using \<open>st' = st\<close> by blast
qed simp

text \<open>The loop serves all commands when the socket takes whatever is written.\<close>

lemma serve_all_ok:
  assumes "\<And>data w. fst (write_loop (os_write os) fd data w)" and "list_all (\<lambda>cmd. request_of cmd \<noteq> None) cmds"
  shows "fst (serve_all os i info pw fd cmds st e)"
  using assms(2)
proof (induction cmds arbitrary: i st e)
  case (Cons cmd cmds)
  have "fst (send os fd data e)" for data e
    using assms(1) by (simp add: send_def send_response_def resp_write_exact_def split_beta)
  then show ?case using Cons request_names by (auto simp: split_beta)
qed simp

section \<open>Properties\<close>

text \<open>
  C4. The commands on the data implement the abstract keyspace: executed at one time on a database that
  satisfies its invariant, every such command, whatever its arguments, gives the reply and has the
  effect on the live entries that the request it makes means, errors included, and touches nothing else.
\<close>

theorem command_refines:
  assumes "db_inv (env_db e)" and "lists_fit (view now (env_db e))" and "request_of cmd = Some req"
    and "os_clock os = (\<lambda>_. now)" and "execute_single os h cmd e = (r, e')"
  shows "means now req (view now (env_db e)) r (view now (env_db e')) \<and> db_inv (env_db e') \<and>
    env_ps e' = env_ps e \<and> env_fs e' = env_fs e \<and> env_net e' = env_net e"
  using execute_single_means [OF assms] by simp

theorem command_refines_witness:
  "let (r, e') = execute_single (still_os 5) (new_handler 7) \<lparr>cmd_name = ''SET'', cmd_args = [''k'', ''v'', ''ex'', ''10'']\<rparr> start_env
   in r = ''OK'' \<and> view 5 (env_db e') ''k'' = Some (VString ''v'', Some (5 + 10 * ns_per_sec))"
proof -
  let ?cmd = "\<lparr>cmd_name = ''SET'', cmd_args = [''k'', ''v'', ''ex'', ''10'']\<rparr>"
  have "stoi ''10'' = Some 10" "upper ''ex'' = ''EX''" by code_simp+
  then have req: "request_of ?cmd = Some (StoreFor ''k'' ''v'' 10)"
    by (simp add: request_of_def requests_def set_request_def eval_nat_numeral)
  obtain r e' where run: "execute_single (still_os 5) (new_handler 7) ?cmd start_env = (r, e')" by force
  have "db_inv (env_db start_env)" "lists_fit (view 5 (env_db start_env))"
    by (simp_all add: start_env_def db_inv_new lists_fit_def as_list_def int_max_def)
  from command_refines [OF this req _ run] run show ?thesis by (simp add: still_os_def)
qed

text \<open>
  C3. The server implements the abstract keyspace over the network: for RESP commands on the data that a
  client which need not authenticate has sent in one go, with non-decreasing times, lists that cannot
  exceed 32-bit lengths and a socket that takes what is written, the command loop serves all of them,
  leaves in the database the live entries and writes to the client's socket exactly the serialized replies
  of the abstract session, and nothing elsewhere.
\<close>

theorem network_refines:
  assumes "lawful_write (os_write os) out" and "\<And>data w. fst (write_loop (os_write os) fd data w)"
    and "pw = [] \<or> authenticated st" and "\<not> is_subscribed fd (env_ps e)" and "db_inv (env_db e)"
    and "list_all wire_words wss" and "list_all (\<lambda>ws. request_of (make_command ws) \<noteq> None) wss"
    and "length (concat (map wire wss)) \<le> MAX_BUFFER" and "length ts = length wss" and "at_times os 0 ts"
    and "sorted (t # ts)" and "room (view t (env_db e)) (map make_command wss)"
    and "process_buffer os 0 info pw fd (st\<lparr>read_buffer := concat (map wire wss)\<rparr>) e = (ok, st', e')"
  shows "ok \<and> st' = st\<lparr>read_buffer := []\<rparr> \<and>
    (\<exists>rs. session (zip ts (map make_command wss)) (view t (env_db e)) rs (view (last (t # ts)) (env_db e')) \<and>
       out (env_net e') = (out (env_net e))(fd := out (env_net e) fd @ concat (map serialize_response rs)))"
proof -
  have data: "list_all (\<lambda>cmd. request_of cmd \<noteq> None) (map make_command wss)"
    using assms(7) by (simp add: list_all_iff)
  obtain st1 e1 where all: "serve_all os 0 info pw fd (map make_command wss) st e = (True, st1, e1)"
    using serve_all_ok [OF assms(2) data, of 0 info pw st e] by (metis fst_conv prod_cases3)
  then have run: "ok" "e1 = e'" "st' = st1\<lparr>read_buffer := []\<rparr>"
    using process_pipeline [OF assms(6) _ _ all, of "[]"] assms(8,13) by (auto simp: incomplete_def)
  have "\<exists>rs. session (zip ts (map make_command wss)) (view t (env_db e)) rs (view (last (t # ts)) (env_db e1)) \<and>
    out (env_net e1) = (out (env_net e))(fd := out (env_net e) fd @ concat (map serialize_response rs)) \<and> st1 = st"
    by (rule serve_all_session [OF assms(1,3-5) data _ assms(10-12) all]) (simp add: assms(9))
  then show ?thesis using run by blast
qed

theorem network_refines_witness:
  "env_net (snd (snd (process_buffer (still_os 5) 0 \<lparr>info_start_time = 0, info_client_count = 1\<rparr> [] 7
     (new_client []\<lparr>read_buffer := concat (map wire [[''set'', ''k'', ''v''], [''GET'', ''k'']])\<rparr>) start_env))) 7 =
   simple_string ''OK'' @ bulk_string ''v''"
proof -
  let ?wss = "[[''set'', ''k'', ''v''], [''GET'', ''k'']]" and ?info = "\<lparr>info_start_time = 0, info_client_count = 1\<rparr>"
  have len: "length (concat (map wire ?wss)) = 47" by code_simp
  have up: "upper ''set'' = ''SET''" "upper ''GET'' = ''GET''" by code_simp+
  have reqs: "request_of (make_command [''set'', ''k'', ''v'']) = Some (Request (Set ''k'' ''v''))"
      "request_of (make_command [''GET'', ''k'']) = Some (Request (Get ''k''))"
    by (simp_all add: make_command_def up request_of_def requests_def set_request_def one_key_def eval_nat_numeral)
  obtain ok st' e' where run: "process_buffer (still_os 5) 0 ?info [] 7
      (new_client []\<lparr>read_buffer := concat (map wire ?wss)\<rparr>) start_env = (ok, st', e')"
    by (metis prod_cases3)
  have times: "at_times (still_os 5) 0 [5, 5]"
    by (simp add: at_times_Cons sub_os_def sub_clock_def still_os_def) (simp add: at_times_def)
  have start: "db_inv (env_db start_env)" "\<not> is_subscribed 7 (env_ps start_env)"
    "room (view 5 (env_db start_env)) (map make_command ?wss)"
    by (simp_all add: start_env_def db_inv_new is_subscribed_def new_pubsub_def room_def len_at_def as_list_def
        make_command_def int_max_def)
  have "\<exists>rs. session (zip [5, 5] (map make_command ?wss)) (view 5 (env_db start_env)) rs (view (last [5, 5, 5]) (env_db e')) \<and>
    env_net e' = (env_net start_env)(7 := env_net start_env 7 @ concat (map serialize_response rs))"
    using network_refines [where os = "still_os 5" and out = "\<lambda>w. w" and fd = 7 and pw = "[]" and st = "new_client []"
        and e = start_env and wss = ?wss and ts = "[5, 5]" and t = 5 and info = ?info, OF _ _ _ start(2,1) _ _ _ _ times _ start(3) run]
      len lawful_log_write reqs
    by (simp add: still_os_def write_loop_log wire_words_def int_max_def MAX_BUFFER_def)
  then show ?thesis
    unfolding run
    by (auto simp: reqs start_env_def age_def nil_or_quoted_def as_string_def serialize_quoted serialize_OK at_time_def)
qed

end
