(* ===== verification/History.thy ===== *)
theory History
  imports Semantics
begin

text \<open>
  The server as a whole against the abstract keyspace: whatever any number of clients send, in any
  pieces and in any order, the live entries change exactly as the log of the commands served says. The log
  is computed from the bytes and the run; the meaning of its entries is that of \<open>Semantics\<close>.
\<close>

section \<open>The commands in a buffer\<close>

text \<open>The commands that the bytes alone determine: up to an incomplete or wrong one, or \<open>QUIT\<close>.\<close>

function commands_in :: "string \<Rightarrow> Command list" where
  "commands_in b =
     (if b = [] then []
      else let p = parse_command b; rest = drop (rp_consumed p) b
        in if rp_protocol_error p then []
           else if rp_need_more p then (if rp_consumed p > 0 then commands_in rest else [])
           else if \<not> rp_ok p then []
           else if length rest > MAX_BUFFER \<or> cmd_name (rp_command p) = ''QUIT'' then []
           else rp_command p # commands_in rest)"
  by pat_completeness auto
termination
proof (relation "measure length", goal_cases)
  case (3 b p rest)
  then have "0 < rp_consumed p" using parse_command_progress [of b] by simp
  then show ?case using 3(1,3) by simp
qed simp_all

declare commands_in.simps [simp del]

text \<open>The command loop serves exactly these, whatever else the buffer holds.\<close>

lemma process_buffer_serves:
  "same_data (snd (snd (serve_all os i info pw fd (commands_in (read_buffer st)) (st\<lparr>read_buffer := b\<rparr>) e)))
     (snd (snd (process_buffer os i info pw fd st e)))"
proof (induction os i info pw fd st e rule: process_buffer.induct)
  case (1 os i info pw fd st e)
  let ?p = "parse_command (read_buffer st)"
  let ?rest = "drop (rp_consumed ?p) (read_buffer st)"
  let ?st = "st\<lparr>read_buffer := ?rest\<rparr>"
  obtain r st2 e1 where ans: "answer (sub_os os i) info pw fd (rp_command ?p) ?st e = (r, st2, e1)"
    by (metis prod.collapse)
  obtain ok e2 where snt: "send os fd (serialize_response r) e1 = (ok, e2)" by force
  have buffer: "read_buffer st2 = ?rest"
    using answer_buffer [of "sub_os os i" info pw fd "rp_command ?p" ?st e] ans by simp
  have ans_b: "answer (sub_os os i) info pw fd (rp_command ?p) (st\<lparr>read_buffer := b\<rparr>) e = (r, st2\<lparr>read_buffer := b\<rparr>, e1)"
    using ans answer_ignores_buffer [of "sub_os os i" info pw fd "rp_command ?p" b ?st e] by simp
  consider "read_buffer st = [] \<or> rp_protocol_error ?p \<or> \<not> rp_ok ?p \<and> \<not> (rp_need_more ?p \<and> rp_consumed ?p > 0)"
    | "read_buffer st \<noteq> []" "\<not> rp_protocol_error ?p" "rp_need_more ?p" "rp_consumed ?p > 0"
    | "read_buffer st \<noteq> []" "\<not> rp_protocol_error ?p" "\<not> rp_need_more ?p" "rp_ok ?p"
    using parse_command_one_flag [of "read_buffer st"] by (auto simp: one_flag_def)
  then show ?case
  proof cases
    case 1
    then have "commands_in (read_buffer st) = []"
      by (subst commands_in.simps) (auto simp: Let_def)
    moreover have "same_data e (snd (snd (process_buffer os i info pw fd st e)))"
      using 1 by (subst process_buffer.simps) (auto simp: Let_def same_data_def)
    ultimately show ?thesis by simp
  next
    case 2
    then have "commands_in (read_buffer st) = commands_in ?rest"
      by (subst commands_in.simps) (simp add: Let_def)
    moreover have "process_buffer os i info pw fd st e = process_buffer os i info pw fd ?st e"
      using 2 by (subst process_buffer.simps) (simp add: Let_def)
    ultimately show ?thesis using "1.IH"(1) [OF 2(1) refl refl 2(2,3,4)] by simp
  next
    case 3
    have IH: "same_data (snd (snd (serve_all os (Suc i) info pw fd (commands_in ?rest) (st2\<lparr>read_buffer := b\<rparr>) e2)))
        (snd (snd (process_buffer os (Suc i) info pw fd st2 e2)))"
      if "ok" "\<not> length (read_buffer ?st) > MAX_BUFFER" "cmd_name (rp_command ?p) \<noteq> ''QUIT''"
      using "1.IH"(2) [OF 3(1) refl refl 3(2,3) _ that(2,3) ans [symmetric] refl snt [symmetric] that(1)] 3(4)
      by (simp add: buffer)
    have cmds: "commands_in (read_buffer st) =
        (if length ?rest > MAX_BUFFER \<or> cmd_name (rp_command ?p) = ''QUIT'' then [] else rp_command ?p # commands_in ?rest)"
      using 3 by (subst commands_in.simps) (simp add: Let_def)
    have buf: "process_buffer os i info pw fd st e =
        (if length ?rest > MAX_BUFFER then (False, ?st, e)
         else if cmd_name (rp_command ?p) = ''QUIT'' then (False, ?st, snd (send os fd (simple_string ''OK'') e))
         else if ok then process_buffer os (Suc i) info pw fd st2 e2 else (False, st2, e2))"
      using process_buffer_command [OF 3(1) refl 3(4) refl ans snt] by simp
    show ?thesis
      using IH ans_b snt unfolding cmds buf by (simp add: same_data_def)
  qed
qed

section \<open>Histories of the keyspace\<close>

text \<open>What a log of commands with their times and replies makes of the live entries, from one time to another.\<close>

type_synonym log_entry = "time \<times> Command \<times> string"

fun evolves :: "log_entry list \<Rightarrow> time \<Rightarrow> live_map \<Rightarrow> time \<Rightarrow> live_map \<Rightarrow> bool" where
  "evolves [] t m t' m' \<longleftrightarrow> t \<le> t' \<and> m' = age t' m"
| "evolves ((now, cmd, r) # log) t m t' m' \<longleftrightarrow>
     t \<le> now \<and> (\<exists>req m1. request_of cmd = Some req \<and> means now req (age now m) r m1 \<and> evolves log now m1 t' m')"

abbreviation logged :: "log_entry list \<Rightarrow> Command list" where
  "logged log \<equiv> map (\<lambda>(now, cmd, r). cmd) log"

lemma at_time_later: "t \<le> t' \<Longrightarrow> Option.bind (at_time t v) (at_time t') = at_time t' v"
  by (cases "(t, v)" rule: fresh.cases) (auto simp: at_time_def)

lemma age_age: "t \<le> t' \<Longrightarrow> age t' (age t m) = age t' m"
  by (auto simp: age_def fun_eq_iff at_time_later split: option.split bind_splits)

lemma evolves_aged: "evolves log u (age u m) t' m' \<Longrightarrow> t \<le> u \<Longrightarrow> evolves log t m t' m'"
proof (cases log)
  case (Cons x log')
  assume "evolves log u (age u m) t' m'" "t \<le> u"
  then show ?thesis by (cases x) (auto simp: Cons age_age intro: order_trans)
qed (simp add: age_age)

lemma evolves_append: "evolves l1 t m u m1 \<Longrightarrow> evolves l2 u m1 t' m' \<Longrightarrow> evolves (l1 @ l2) t m t' m'"
  by (induction l1 t m u m1 rule: evolves.induct) (auto intro: evolves_aged, blast)

lemma evolves_time: "evolves log t m t' m' \<Longrightarrow> t \<le> t'"
  by (induction log t m t' m' rule: evolves.induct) (auto, metis order_trans)

lemma room_evolves:
  "evolves l1 t m u m1 \<Longrightarrow> room m (logged l1 @ cmds) \<Longrightarrow> room m1 cmds"
proof (induction l1 t m u m1 rule: evolves.induct)
  case (2 now cmd r log t m t' m')
  then obtain req m1 where step: "request_of cmd = Some req" "means now req (age now m) r m1" "evolves log now m1 t' m'"
    by auto
  have "room (age now m) (cmd # (logged log @ cmds))" using room_age [OF "2.prems"(2), of now] by simp
  then show ?case using room_Cons [OF _ step(1,2)] "2.IH" step by blast
qed (simp add: room_age)

lemma room_prefix:
  assumes "room m (xs @ ys)"
  shows "room m xs"
  unfolding room_def
proof
  fix key
  have "int (len_at m key + sum_list (map (length \<circ> cmd_args) xs)) \<le>
      int (len_at m key + sum_list (map (length \<circ> cmd_args) (xs @ ys)))" by simp
  also have "\<dots> \<le> int_max" using assms by (simp only: room_def)
  finally show "int (len_at m key + sum_list (map (length \<circ> cmd_args) xs)) \<le> int_max" .
qed

section \<open>One client\<close>

text \<open>Only requests of a client that may make them touch the live entries.\<close>

definition on_data :: "string \<Rightarrow> socket_t \<Rightarrow> Command \<Rightarrow> ClientState \<Rightarrow> 'w env \<Rightarrow> bool" where
  "on_data pw fd cmd st e \<longleftrightarrow> (pw = [] \<or> authenticated st) \<and> \<not> is_subscribed fd (env_ps e) \<and> request_of cmd \<noteq> None"

lemma watch_one_view: "db_inv db \<Longrightarrow> view t (snd (watch_one (\<lambda>_. t) key db)) = view t db"
  using view_get [of db t t key] view_llen [of t t key "snd (db_get t key db)"]
  by (auto simp: watch_one_def db_inv_def split_beta Let_def split: prod.split option.split)

lemma watch_loop_view: "db_inv db \<Longrightarrow> view t (snd (watch_loop (\<lambda>_. t) i keys h db)) = view t db"
proof (induction keys arbitrary: i h db)
  case (Cons key keys)
  then show ?case
    using watch_one_inv [OF Cons.prems, of "\<lambda>_. t" key] watch_one_view [OF Cons.prems] by (simp add: split_beta Let_def)
qed simp

lemma execute_single_other:
  assumes "request_of cmd = None" and "os_clock os = (\<lambda>_. t)"
  shows "view t (env_db (snd (execute_single os h cmd e))) = view t (env_db e)"
proof -
  have "cmd_name cmd \<notin> set (map fst requests)"
    using assms(1) by (force simp: request_of_def map_of_eq_None_iff)
  moreover have "view t (snd (handle_info (\<lambda>_. t) srv db)) = view t db" for srv db
    by (simp add: handle_info_def split_beta db_dbsize_keys view_keys)
  ultimately show ?thesis
    by (simp add: requests_def execute_single_def assms(2) on_db_def on_ps_def handle_save_def handle_publish_def
        split_beta Let_def)
qed

lemma answer_other:
  assumes "os_clock os = (\<lambda>_. t)" and "db_inv (env_db e)" and "\<not> on_data pw fd cmd st e"
  shows "view t (env_db (snd (snd (answer os info pw fd cmd st e)))) = view t (env_db e)"
proof -
  let ?h = "set_server info (new_handler fd)"
  have "view t (env_db (snd (snd (execute os cmd ?h e)))) = view t (env_db e)"
    if "is_subscribed fd (env_ps e) \<or> request_of cmd = None"
  proof (cases "is_subscribed fd (env_ps e)")
    case True
    then show ?thesis
      by (simp add: execute_def in_subscription_mode_def set_server_def new_handler_def execute_single_def
          on_ps_def split_beta Let_def)
  next
    case False
    then show ?thesis
      using that execute_single_other [OF _ assms(1)] watch_loop_view [OF assms(2)]
      by (simp add: execute_def in_subscription_mode_def set_server_def new_handler_def handle_multi_def
          handle_exec_def handle_discard_def handle_watch_def assms(1) split_beta Let_def)
  qed
  then show ?thesis
    using assms(3) by (auto simp: on_data_def answer_def split_beta Let_def)
qed

text \<open>The log of a list of commands: the requests among those answered.\<close>

fun served :: "'w os \<Rightarrow> nat \<Rightarrow> server_info \<Rightarrow> string \<Rightarrow> socket_t \<Rightarrow> Command list \<Rightarrow> ClientState \<Rightarrow> 'w env
    \<Rightarrow> log_entry list" where
  "served os i info pw fd [] st e = []"
| "served os i info pw fd (cmd # cmds) st e =
     (case answer (sub_os os i) info pw fd cmd st e of
        (r, st2, e1) \<Rightarrow>
          (if on_data pw fd cmd st e then [(os_clock os [i], cmd, r)] else []) @
          (case send os fd (serialize_response r) e1 of
             (ok, e2) \<Rightarrow> if ok then served os (Suc i) info pw fd cmds st2 e2 else []))"

lemma answer_evolves:
  assumes "os_clock os = (\<lambda>_. t)" and "env_inv e" and "lists_fit (view t (env_db e))"
    and "answer os info pw fd cmd st e = (r, st', e')"
  shows "evolves (if on_data pw fd cmd st e then [(t, cmd, r)] else []) t (view t (env_db e)) t (view t (env_db e'))"
proof (cases "on_data pw fd cmd st e")
  case True
  then obtain req where req: "request_of cmd = Some req" by (auto simp: on_data_def)
  obtain r' e1 where run: "execute_single os (set_server info (new_handler fd)) cmd e = (r', e1)" by force
  then have "r' = r" "e1 = e'"
    using answer_performs [of pw st fd e cmd req os info] True req assms(4) by (simp_all add: on_data_def)
  then show ?thesis
    using execute_single_means(1) [OF _ assms(3) req assms(1) run] assms(2) True req
    by (auto simp: env_inv_def age_view intro!: exI [of _ "view t (env_db e')"])
next
  case False
  then show ?thesis
    using answer_other [OF assms(1) _ False, of info] assms(2,4) by (simp add: env_inv_def age_view)
qed

text \<open>
  The clock may advance between commands: \<open>f i\<close> is the time of the \<open>i\<close>-th command of a read, from \<open>t\<close> on and
  until \<open>u\<close>.
\<close>

definition ticks :: "'w os \<Rightarrow> (nat \<Rightarrow> time) \<Rightarrow> time \<Rightarrow> time \<Rightarrow> bool" where
  "ticks os f t u \<longleftrightarrow> (\<forall>i. os_clock (sub_os os i) = (\<lambda>_. f i)) \<and> mono f \<and> t \<le> f 0 \<and> (\<forall>i. f i \<le> u)"

lemma serve_all_evolves:
  assumes "\<And>i. os_clock (sub_os os i) = (\<lambda>_. f i)" and "mono f" and "\<And>i. f i \<le> u"
    and "t \<le> f i" and "env_inv e" and "list_all (\<lambda>cmd. cmd_name cmd \<noteq> ''QUIT'') cmds"
    and "room (view t (env_db e)) (logged (served os i info pw fd cmds st e))"
    and "serve_all os i info pw fd cmds st e = (ok, st', e')"
  shows "evolves (served os i info pw fd cmds st e) t (view t (env_db e)) u (view u (env_db e'))"
  using assms(4-)
proof (induction cmds arbitrary: i st e t)
  case Nil
  then have "t \<le> u" using assms(3) order_trans by blast
  then show ?case using Nil by (simp add: age_view)
next
  case (Cons cmd cmds)
  obtain r st2 e1 where ans: "answer (sub_os os i) info pw fd cmd st e = (r, st2, e1)" by (metis prod_cases3)
  obtain snt e2 where snd: "send os fd (serialize_response r) e1 = (snt, e2)" by force
  have time: "os_clock os [i] = f i" using assms(1) [of i] by (simp add: sub_os_def fun_eq_iff)
  let ?one = "if on_data pw fd cmd st e then [(f i, cmd, r)] else []"
  let ?more = "if snt then served os (Suc i) info pw fd cmds st2 e2 else []"
  have log: "served os i info pw fd (cmd # cmds) st e = ?one @ ?more" by (simp add: ans snd time)
  have inv: "env_inv e2" and db: "env_db e2 = env_db e1"
    using answer_inv [OF Cons.prems(2), of "sub_os os i" info pw fd cmd st] send_env(1) [of os fd "serialize_response r" e1]
      send_inv [of os fd "serialize_response r" e1] ans snd by simp_all
  have "lists_fit (view (f i) (env_db e))"
    using room_fits [OF room_age [OF Cons.prems(4)], of "f i"] by (simp add: age_view [OF Cons.prems(1)])
  then have "evolves ?one (f i) (view (f i) (env_db e)) (f i) (view (f i) (env_db e2))"
    using answer_evolves [OF assms(1) Cons.prems(2) _ ans] db by simp
  then have first: "evolves ?one t (view t (env_db e)) (f i) (view (f i) (env_db e2))"
    using evolves_aged [of ?one "f i" "view t (env_db e)"] Cons.prems(1) by (simp add: age_view)
  have "evolves ?more (f i) (view (f i) (env_db e2)) u (view u (env_db e'))"
  proof (cases snt)
    case True
    have "room (view (f i) (env_db e2)) (logged ?more)"
      using room_evolves [OF first, of "logged ?more"] Cons.prems(4) by (simp only: log map_append)
    moreover have "f i \<le> f (Suc i)" using assms(2) by (simp add: mono_def)
    ultimately show ?thesis
      using Cons.IH [OF _ inv] Cons.prems(3,5) True ans snd by simp
  next
    case False
    then show ?thesis using Cons.prems(3,5) ans snd assms(3) by (simp add: age_view)
  qed
  then show ?case unfolding log by (rule evolves_append [OF first])
qed

lemma commands_in_no_quit: "list_all (\<lambda>cmd. cmd_name cmd \<noteq> ''QUIT'') (commands_in b)"
proof (induction b rule: commands_in.induct)
  case (1 b)
  then show ?case by (subst commands_in.simps) (auto simp: Let_def)
qed

section \<open>All clients\<close>

text \<open>The log of what is read from one socket, of a round of the event loop, and of a run.\<close>

definition client_info :: "socket_t \<Rightarrow> 'w server \<Rightarrow> server_info" where
  "client_info fd srv = \<lparr>info_start_time = start_time srv,
     info_client_count = length (um_put fd (client_of fd srv) (clients srv))\<rparr>"

fun client_log :: "'w os \<Rightarrow> read_result \<Rightarrow> socket_t \<Rightarrow> 'w server \<Rightarrow> log_entry list" where
  "client_log os (ReadBytes arrived) fd srv =
     (let bytes = take READ_SIZE arrived; b = read_buffer (client_of fd srv) @ bytes
      in if bytes = [] then []
         else served os 0 (client_info fd srv) (password srv) fd (commands_in b)
           ((client_of fd srv)\<lparr>read_buffer := b\<rparr>) (srv_env srv))"
| "client_log os _ fd srv = []"

fun ready_log :: "'w os \<Rightarrow> (socket_t \<Rightarrow> read_result option) \<Rightarrow> nat \<Rightarrow> socket_t list \<Rightarrow> 'w server \<Rightarrow> log_entry list" where
  "ready_log os rd i [] srv = []"
| "ready_log os rd i (fd # fds) srv =
     (case rd fd of
        None \<Rightarrow> ready_log os rd (Suc i) fds srv
      | Some r \<Rightarrow>
          client_log (sub_os os i) r fd srv @
          ready_log os rd (Suc i) fds (snd (process_client (sub_os os i) r fd srv)))"

fun round_log :: "'w os \<Rightarrow> select_result \<Rightarrow> 'w server \<Rightarrow> log_entry list" where
  "round_log os (Ready accepted rd) srv =
     (let read_fds = select_fds srv;
          srv1 = (case accepted of None \<Rightarrow> srv | Some (fd, peer) \<Rightarrow> accept_client os fd peer srv)
      in ready_log os (\<lambda>fd. if fd \<in> set read_fds then rd fd else None) 0 (um_keys (clients srv1)) srv1)"
| "round_log os _ srv = []"

fun run_log :: "'w event list \<Rightarrow> bool \<times> 'w server \<Rightarrow> log_entry list" where
  "run_log [] s = []"
| "run_log (ev # evs) s =
     (case ev of Round os r \<Rightarrow> if fst s \<and> running (snd s) then round_log os r (snd s) else [] | _ \<Rightarrow> []) @
     run_log evs (event_loop [ev] s)"

text \<open>
  The times of the events: \<open>g j i\<close> is that of the \<open>i\<close>-th command read from the \<open>j\<close>-th client in a round. The clock
  never goes back, and stands still only while a command is executed.
\<close>

definition round_ticks :: "'w os \<Rightarrow> (nat \<Rightarrow> nat \<Rightarrow> time) \<Rightarrow> time \<Rightarrow> time \<Rightarrow> bool" where
  "round_ticks os g t u \<longleftrightarrow> t \<le> g 0 0 \<and> (\<forall>j. ticks (sub_os os j) (g j) (g j 0) (g (Suc j) 0)) \<and> (\<forall>j. g j 0 \<le> u)"

fun timed :: "time \<Rightarrow> 'w event list \<Rightarrow> time \<Rightarrow> bool" where
  "timed t [] t' \<longleftrightarrow> t = t'"
| "timed t (Round os ev # evs) t' \<longleftrightarrow> (\<exists>g u. round_ticks os g t u \<and> timed u evs t')"
| "timed t (Purge now # evs) t' \<longleftrightarrow> t \<le> now \<and> timed now evs t'"
| "timed t (Signal os # evs) t' \<longleftrightarrow> timed t evs t'"

lemma round_ticks_time: "round_ticks os g t u \<Longrightarrow> t \<le> u"
  unfolding round_ticks_def by (meson order_trans)

lemma um_put_length: "length (um_put k v m) = (if k \<in> set (um_keys m) then length m else Suc (length m))"
  unfolding um_put_def um_keys_def by (induction m) auto

lemma process_client_evolves:
  assumes "ticks os f t u" and "env_inv (srv_env srv)"
    and "room (view t (env_db (srv_env srv))) (logged (client_log os r fd srv))"
  shows "evolves (client_log os r fd srv) t (view t (env_db (srv_env srv)))
    u (view u (env_db (srv_env (snd (process_client os r fd srv)))))"
proof (cases "\<exists>arrived. r = ReadBytes arrived \<and> take READ_SIZE arrived \<noteq> []")
  case True
  then obtain arrived where ReadBytes: "r = ReadBytes arrived" and some: "take READ_SIZE arrived \<noteq> []" by blast
  let ?st = "(client_of fd srv)\<lparr>read_buffer := read_buffer (client_of fd srv) @ take READ_SIZE arrived\<rparr>"
  let ?info = "client_info fd srv"
  let ?run = "process_buffer os 0 ?info (password srv) fd ?st (srv_env srv)"
  let ?all = "serve_all os 0 ?info (password srv) fd (commands_in (read_buffer ?st)) ?st (srv_env srv)"
  have run: "srv_env (snd (process_client os r fd srv)) = snd (snd ?run)"
    using some by (simp add: ReadBytes process_client_def process_bytes_def client_info_def client_of_def client_count_def um_put_length
        Let_def split_beta)
  have "env_db (snd (snd ?run)) = env_db (snd (snd ?all))"
    using process_buffer_serves [of os 0 ?info "password srv" fd ?st "read_buffer ?st" "srv_env srv"]
    by (simp add: same_data_def)
  then show ?thesis
    using serve_all_evolves [OF _ _ _ _ assms(2) commands_in_no_quit, of os f u t 0 ?info "password srv" fd
        "read_buffer ?st" ?st "fst ?all" "fst (snd ?all)" "snd (snd ?all)"] assms(1,3) run some
    by (simp add: ReadBytes Let_def ticks_def)
next
  case False
  then have "client_log os r fd srv = []" "snd (process_client os r fd srv) = srv"
    by (cases r; simp add: process_client_def)+
  then show ?thesis using assms(1) order_trans [of t "f 0" u] by (simp add: age_view ticks_def)
qed

lemma serve_ready_evolves:
  assumes "\<And>j. ticks (sub_os os j) (g j) (g j 0) (g (Suc j) 0)" and "\<And>j. g j 0 \<le> u"
    and "t \<le> g i 0" and "srv_inv srv"
    and "room (view t (env_db (srv_env srv))) (logged (ready_log os rd i fds srv))"
  shows "evolves (ready_log os rd i fds srv) t (view t (env_db (srv_env srv)))
    u (view u (env_db (srv_env (snd (serve_ready os rd i fds srv)))))"
  using assms(3-)
proof (induction fds arbitrary: i srv t)
  case Nil
  then have "t \<le> u" using assms(2) order_trans by blast
  then show ?case by (simp add: age_view)
next
  case (Cons fd fds)
  have up: "g i 0 \<le> g (Suc i) 0" using assms(1) [of i] by (simp add: ticks_def)
  show ?case
  proof (cases "rd fd")
    case None
    then show ?thesis using Cons up order_trans [OF Cons.prems(1) up] by simp
  next
    case (Some r)
    let ?one = "client_log (sub_os os i) r fd srv" and ?srv = "snd (process_client (sub_os os i) r fd srv)"
    let ?u = "g (Suc i) 0"
    have log: "ready_log os rd i (fd # fds) srv = ?one @ ready_log os rd (Suc i) fds ?srv" by (simp add: Some)
    have "env_inv (srv_env srv)" using Cons.prems(2) by (simp add: srv_inv_def)
    moreover have "room (view t (env_db (srv_env srv))) (logged ?one)"
      using Cons.prems(3) room_prefix unfolding log map_append by blast
    moreover have "ticks (sub_os os i) (g i) t ?u" using assms(1) [of i] Cons.prems(1) by (simp add: ticks_def)
    ultimately have first: "evolves ?one t (view t (env_db (srv_env srv))) ?u (view ?u (env_db (srv_env ?srv)))"
      by (intro process_client_evolves) simp_all
    have "room (view ?u (env_db (srv_env ?srv))) (logged (ready_log os rd (Suc i) fds ?srv))"
      using room_evolves [OF first] Cons.prems(3) unfolding log map_append by blast
    with Cons.IH [OF order_refl process_client_inv [OF Cons.prems(2)]]
    have "evolves (ready_log os rd (Suc i) fds ?srv) ?u (view ?u (env_db (srv_env ?srv)))
        u (view u (env_db (srv_env (snd (serve_ready os rd (Suc i) fds ?srv)))))" .
    then show ?thesis
      unfolding log using evolves_append [OF first] by (simp add: Some split_beta Let_def)
  qed
qed

lemma accept_client_env [simp]: "srv_env (accept_client os fd peer srv) = srv_env srv"
  by (simp add: accept_client_def)

lemma fold_disconnect_db [simp]: "env_db (srv_env (fold (disconnect_client os) fds srv)) = env_db (srv_env srv)"
  by (induction fds arbitrary: srv) (simp_all add: disconnect_client_def Let_def)

lemma loop_round_evolves:
  assumes "round_ticks os g t u" and "srv_inv srv"
    and "room (view t (env_db (srv_env srv))) (logged (round_log os ev srv))"
  shows "evolves (round_log os ev srv) t (view t (env_db (srv_env srv)))
    u (view u (env_db (srv_env (snd (loop_round os ev srv)))))"
proof (cases ev)
  case (Ready accepted rd)
  let ?srv = "case accepted of None \<Rightarrow> srv | Some (fd, peer) \<Rightarrow> accept_client os fd peer srv"
  have "srv_inv ?srv" "srv_env ?srv = srv_env srv"
    using assms(2) accept_client_inv [of srv] by (auto split: option.split)
  then show ?thesis
    using serve_ready_evolves [of os g u t 0 ?srv "\<lambda>fd. if fd \<in> set (select_fds srv) then rd fd else None"
        "um_keys (clients ?srv)"] assms(1,3)
    by (simp add: Ready loop_round_def round_ticks_def split_beta Let_def)
qed (use round_ticks_time [OF assms(1)] in \<open>simp_all add: loop_round_def age_view\<close>)

lemma event_loop_evolves:
  assumes "timed t evs t'" and "srv_inv (snd s)"
    and "room (view t (env_db (srv_env (snd s)))) (logged (run_log evs s))"
  shows "evolves (run_log evs s) t (view t (env_db (srv_env (snd s)))) t'
    (view t' (env_db (srv_env (snd (event_loop evs s)))))"
  using assms
proof (induction evs arbitrary: t s)
  case (Cons ev evs)
  let ?view = "\<lambda>t s. view t (env_db (srv_env (snd s)))"
  let ?one = "case ev of Round os r \<Rightarrow> if fst s \<and> running (snd s) then round_log os r (snd s) else [] | _ \<Rightarrow> []"
  let ?s = "event_loop [ev] s"
  have log: "run_log (ev # evs) s = ?one @ run_log evs ?s" by simp
  have room: "room (?view t s) (logged ?one)"
    using Cons.prems(3) room_prefix unfolding log map_append by blast
  have inv: "srv_inv (snd ?s)" using reachable_inv [OF event_loop_reachable Cons.prems(2)] .
  have "\<exists>now. timed now evs t' \<and> evolves ?one t (?view t s) now (?view now ?s)"
  proof (cases ev)
    case (Round os r)
    then obtain g u where now: "round_ticks os g t u" "timed u evs t'" using Cons.prems(1) by auto
    then have "evolves ?one t (?view t s) u (?view u ?s)"
      using loop_round_evolves [OF now(1) Cons.prems(2), of r] Round room round_ticks_time [OF now(1)]
      by (cases s) (auto simp: age_view)
    then show ?thesis using now(2) by blast
  next
    case (Purge now)
    then show ?thesis
      using Cons.prems(1,2) by (cases s) (auto simp: age_view view_expiry_loop srv_inv_def env_inv_def db_inv_def)
  next
    case (Signal os)
    then show ?thesis
      using Cons.prems(1) by (cases s) (auto simp: age_view server_stop_def Let_def)
  qed
  then obtain now where now: "timed now evs t'" and first: "evolves ?one t (?view t s) now (?view now ?s)" by blast
  have "room (?view now ?s) (logged (run_log evs ?s))"
    using room_evolves [OF first] Cons.prems(3) unfolding log map_append by blast
  then have "evolves (run_log evs ?s) now (?view now ?s) t' (?view t' (event_loop evs ?s))"
    by (rule Cons.IH [OF now inv])
  then show ?case
    unfolding log using evolves_append [OF first] event_loop_append [of "[ev]" evs s] by simp
qed (simp add: age_view)

section \<open>Properties\<close>

text \<open>
  C2. The running server implements the abstract keyspace: for every run of the event loop, with any number
  of clients sending any bytes, connecting and disconnecting, rounds of the expiry thread and signals in
  between, times that advance between commands only and lists that cannot exceed 32-bit lengths, the live entries at the
  end are those that the commands of the log, in the order in which the server took them off the buffers, with
  the replies it gave, make of the live entries at the beginning; nothing else touches them.
\<close>

theorem server_refines:
  assumes "srv_inv srv" and "timed t evs t'" and "event_loop evs (True, srv) = (executing, srv')"
    and "room (view t (env_db (srv_env srv))) (map (\<lambda>(now, cmd, reply). cmd) (run_log evs (True, srv)))"
  shows "evolves (run_log evs (True, srv)) t (view t (env_db (srv_env srv))) t' (view t' (env_db (srv_env srv')))"
  using event_loop_evolves [OF assms(2), of "(True, srv)"] assms(1,3,4) by simp

theorem server_refines_witness:
  "let srv = (new_server [] 6399 start_env)\<lparr>running := True, clients := [(7, new_client [])]\<rparr>;
       evs = [Round (still_os 5) (Ready None (\<lambda>_. Some (ReadBytes (wire [''SET'', ''k'', ''v''])))), Purge 6]
   in view 6 (env_db (srv_env (snd (event_loop evs (True, srv))))) ''k'' = Some (VString ''v'', None)"
proof -
  let ?srv = "(new_server [] 6399 start_env)\<lparr>running := True, clients := [(7, new_client [])]\<rparr>"
  let ?ws = "[''SET'', ''k'', ''v'']" and ?os = "still_os 5"
  let ?evs = "[Round ?os (Ready None (\<lambda>_. Some (ReadBytes (wire ?ws)))), Purge 6]"
  let ?cmd = "\<lparr>cmd_name = ''SET'', cmd_args = [''k'', ''v'']\<rparr>"
  have "upper ''SET'' = ''SET''" by code_simp
  then have cmd: "make_command ?ws = ?cmd" by (simp add: make_command_def)
  have req: "request_of ?cmd = Some (Request (Set ''k'' ''v''))"
    by (simp add: request_of_def requests_def set_request_def)
  have cmds: "commands_in (wire ?ws) = [?cmd]"
    using parse_wire [of ?ws "[]"] by (subst commands_in.simps)
      (simp add: cmd wire_words_def int_max_def wire_nonempty commands_in.simps [of "[]"])
  have "length (wire ?ws) = 27" by code_simp
  then have whole: "take READ_SIZE (wire ?ws) = wire ?ws" by (simp add: READ_SIZE_def)
  have fields: "read_buffer (client_of 7 ?srv) = []" "password ?srv = []" "srv_env ?srv = start_env"
    by (simp_all add: client_of_def um_find_def new_client_def new_server_def)
  have "on_data [] 7 ?cmd st start_env" for st
    by (simp add: on_data_def req start_env_def is_subscribed_def new_pubsub_def)
  then have "\<exists>r. served os 0 info [] 7 [?cmd] st start_env = [(os_clock os [0], ?cmd, r)]" for os info st
    by (simp split: prod.split)
  then obtain r where log: "client_log (sub_os ?os 0) (ReadBytes (wire ?ws)) 7 ?srv = [(os_clock (sub_os ?os 0) [0], ?cmd, r)]"
    unfolding client_log.simps Let_def fields append_Nil whole cmds if_not_P [OF wire_nonempty] by blast
  have "os_clock (sub_os ?os 0) [0] = 5" by (simp add: still_os_def sub_os_def)
  with log have run: "run_log ?evs (True, ?srv) = [(5, ?cmd, r)]"
    by (simp add: um_keys_def select_fds_def Let_def)
  have inv: "srv_inv ?srv"
    using pubsub_wf_new by (simp add: srv_inv_def new_server_def start_env_def env_inv_def db_inv_new um_wf_def um_keys_def)
  have "view 0 (env_db (srv_env ?srv)) = (\<lambda>_. None)"
    by (simp add: new_server_def start_env_def new_database_def view_defs fun_eq_iff um_find_def)
  moreover have "timed 0 ?evs 6" by (auto simp: still_os_def round_ticks_def ticks_def sub_os_def mono_def intro!: exI [of _ "\<lambda>_ _. 5"] exI [of _ 5])
  ultimately have "evolves [(5, ?cmd, r)] 0 (\<lambda>_. None) 6
      (view 6 (env_db (srv_env (snd (event_loop ?evs (True, ?srv))))))"
    using server_refines [OF inv, of 0 ?evs 6 "fst (event_loop ?evs (True, ?srv))"
        "snd (event_loop ?evs (True, ?srv))"] unfolding run
    by (simp add: room_def len_at_def as_list_def int_max_def)
  then show ?thesis by (simp add: req age_def at_time_def Let_def)
qed

end
