(* ===== verification/Streams.thy ===== *)
theory Streams
  imports History
begin

text \<open>
  How a stream of commands is cut into reads makes no difference to what the server does with it.
\<close>

section \<open>One read\<close>

lemma um_put_put: "um_put k v (um_put k v' m) = um_put k v m"
  unfolding um_put_def by (induction m) auto

lemma um_put_same: "um_find m k = Some v \<Longrightarrow> um_put k v m = m"
  unfolding um_put_def um_find_def by (induction m) (auto split: if_splits)

lemma process_bytes_eq:
  assumes "process_buffer os 0 (client_info fd srv) (password srv) fd
      ((client_of fd srv)\<lparr>read_buffer := read_buffer (client_of fd srv) @ bytes\<rparr>) (srv_env srv) = (ok, st, e)"
  shows "process_bytes os bytes fd srv = (ok, srv\<lparr>clients := um_put fd st (clients srv), srv_env := e\<rparr>)"
  using assms
  by (simp add: process_bytes_def client_info_def client_of_def client_count_def um_put_length um_put_put
      split_beta Let_def)

text \<open>The reads from one socket in a row, until the client is to be disconnected.\<close>

fun read_all :: "'w os \<Rightarrow> socket_t \<Rightarrow> string list \<Rightarrow> 'w server \<Rightarrow> bool \<times> 'w server" where
  "read_all os fd [] srv = (True, srv)"
| "read_all os fd (chunk # chunks) srv =
     (case process_client os (ReadBytes chunk) fd srv of
        (keep, srv1) \<Rightarrow> if keep then read_all os fd chunks srv1 else (False, srv1))"

text \<open>What one read can return.\<close>

definition piece :: "string \<Rightarrow> bool" where
  "piece c \<longleftrightarrow> c \<noteq> [] \<and> length c \<le> READ_SIZE"

text \<open>The same without the limit of a read.\<close>

fun feed_all :: "'w os \<Rightarrow> socket_t \<Rightarrow> string list \<Rightarrow> 'w server \<Rightarrow> bool \<times> 'w server" where
  "feed_all os fd [] srv = (True, srv)"
| "feed_all os fd (chunk # chunks) srv =
     (case process_bytes os chunk fd srv of
        (keep, srv1) \<Rightarrow> if keep then feed_all os fd chunks srv1 else (False, srv1))"

lemma read_all_feed: "list_all piece chunks \<Longrightarrow> read_all os fd chunks srv = feed_all os fd chunks srv"
  by (induction chunks arbitrary: srv) (simp_all add: piece_def process_client_read split: prod.split)

section \<open>Serving in two parts\<close>

lemma serve_all_index:
  assumes "\<And>i. sub_os os i = os"
  shows "serve_all os i info pw fd cmds st e = serve_all os 0 info pw fd cmds st e"
proof (induction cmds arbitrary: i st e)
  case (Cons cmd cmds)
  show ?case unfolding serve_all.simps assms using Cons [of "Suc i"] Cons [of "Suc 0"]
    by (simp split: prod.split)
qed simp

lemma serve_all_append:
  "serve_all os i info pw fd (xs @ ys) st e =
     (case serve_all os i info pw fd xs st e of
        (ok, st1, e1) \<Rightarrow> if ok then serve_all os (i + length xs) info pw fd ys st1 e1 else (False, st1, e1))"
  by (induction xs arbitrary: i st e) (simp_all split: prod.split)

lemma serve_all_buffer:
  "serve_all os i info pw fd cmds (st\<lparr>read_buffer := b\<rparr>) e =
     (case serve_all os i info pw fd cmds st e of (ok, st', e') \<Rightarrow> (ok, st'\<lparr>read_buffer := b\<rparr>, e'))"
proof (induction cmds arbitrary: i st e)
  case (Cons cmd cmds)
  then show ?case by (simp add: answer_ignores_buffer split: prod.split)
qed simp

section \<open>Cutting a stream\<close>

lemma incomplete_wire: "list_all wire_words wss \<Longrightarrow> incomplete (concat (map wire wss)) \<Longrightarrow> wss = []"
proof (cases wss)
  case (Cons ws wss')
  assume "list_all wire_words wss" "incomplete (concat (map wire wss))"
  then show ?thesis
    using parse_wire [of ws "concat (map wire wss')"] by (simp add: Cons incomplete_def wire_nonempty)
qed simp

text \<open>A prefix of a stream is some whole commands and a part of the next one.\<close>

lemma wire_prefix:
  assumes "list_all wire_words wss" and "u @ v = concat (map wire wss)"
  shows "\<exists>xs ys q. wss = xs @ ys \<and> u = concat (map wire xs) @ q \<and> incomplete q \<and> q @ v = concat (map wire ys)"
  using assms
proof (induction wss arbitrary: u)
  case Nil
  then show ?case by (simp add: incomplete_def)
next
  case (Cons ws wss)
  from Cons.prems(2) have "u @ v = wire ws @ concat (map wire wss)" by simp
  then consider q where "wire ws = u @ q" "q @ concat (map wire wss) = v" "q \<noteq> []"
    | q where "u = wire ws @ q" "q @ v = concat (map wire wss)"
    unfolding append_eq_append_conv2 by (metis append_Nil append_Nil2)
  then show ?case
  proof cases
    case 1
    then have "incomplete u" using prefix_incomplete [OF _ 1(1,3)] Cons.prems(1) by simp
    then have "ws # wss = [] @ (ws # wss) \<and> u = concat (map wire []) @ u \<and> incomplete u \<and>
        u @ v = concat (map wire (ws # wss))" using Cons.prems(2) by simp
    then show ?thesis by blast
  next
    case 2
    then obtain xs ys r where "wss = xs @ ys" "q = concat (map wire xs) @ r" "incomplete r" "r @ v = concat (map wire ys)"
      using Cons.IH [of q] Cons.prems(1) by auto
    then have "ws # wss = (ws # xs) @ ys \<and> u = concat (map wire (ws # xs)) @ r \<and> incomplete r \<and>
        r @ v = concat (map wire ys)" using 2(1) by simp
    then show ?thesis by blast
  qed
qed

lemma feed_all_serves:
  assumes still: "\<And>i. sub_os os i = os" and "list_all wire_words wss"
    and "um_find (clients srv) fd \<noteq> None" and "incomplete (read_buffer (client_of fd srv))"
    and "read_buffer (client_of fd srv) @ concat chunks = concat (map wire wss)"
    and "length (concat (map wire wss)) \<le> MAX_BUFFER"
    and "serve_all os 0 (client_info fd srv) (password srv) fd (map make_command wss) (client_of fd srv) (srv_env srv) =
      (ok, st', e')"
  shows "\<exists>b. feed_all os fd chunks srv =
      (ok, srv\<lparr>clients := um_put fd (st'\<lparr>read_buffer := b\<rparr>) (clients srv), srv_env := e'\<rparr>) \<and> (ok \<longrightarrow> b = [])"
  using assms(2-)
proof (induction chunks arbitrary: wss srv st')
  case Nil
  then have empty: "wss = []" using incomplete_wire [OF Nil.prems(1)] by simp
  obtain st where st: "um_find (clients srv) fd = Some st" using Nil.prems(2) by blast
  then have client: "client_of fd srv = st" by (simp add: client_of_def)
  then have res: "ok" "st' = st" "e' = srv_env srv" using Nil.prems(6) empty by simp_all
  have "read_buffer st = []" using Nil.prems(4) empty client by simp
  then have "st'\<lparr>read_buffer := []\<rparr> = st" by (simp add: res)
  then show ?case using res um_put_same [OF st] by (auto intro!: exI [of _ "[]"])
next
  case (Cons chunk chunks)
  let ?st = "client_of fd srv" and ?info = "client_info fd srv" and ?pw = "password srv"
  obtain xs ys q where cut: "wss = xs @ ys" "read_buffer ?st @ chunk = concat (map wire xs) @ q" "incomplete q"
      "q @ concat chunks = concat (map wire ys)"
    using wire_prefix [OF Cons.prems(1), of "read_buffer ?st @ chunk" "concat chunks"] Cons.prems(4) by auto
  obtain ok1 st1 e1 where first: "serve_all os 0 ?info ?pw fd (map make_command xs) ?st (srv_env srv) = (ok1, st1, e1)"
    by (metis prod_cases3)
  have "length (concat (map wire xs) @ q) \<le> MAX_BUFFER"
    using Cons.prems(5) unfolding cut(1) by (simp add: cut(4) [symmetric])
  then obtain b where buf: "process_buffer os 0 ?info ?pw fd (?st\<lparr>read_buffer := read_buffer ?st @ chunk\<rparr>) (srv_env srv) =
      (ok1, st1\<lparr>read_buffer := b\<rparr>, e1)" "ok1 \<longrightarrow> b = q"
    using process_pipeline [OF _ cut(3) _ first] Cons.prems(1) cut(1,2) by auto
  let ?srv = "srv\<lparr>clients := um_put fd (st1\<lparr>read_buffer := b\<rparr>) (clients srv), srv_env := e1\<rparr>"
  have read: "process_bytes os chunk fd srv = (ok1, ?srv)" by (rule process_bytes_eq [OF buf(1)])
  have all: "(ok, st', e') = (if ok1 then serve_all os 0 ?info ?pw fd (map make_command ys) st1 e1 else (False, st1, e1))"
    using Cons.prems(6) first serve_all_index [OF still, of "length xs" ?info ?pw fd "map make_command ys" st1 e1]
    by (auto simp: cut(1) serve_all_append split: if_splits)
  show ?case
  proof (cases ok1)
    case True
    then have rest: "serve_all os 0 ?info ?pw fd (map make_command ys) st1 e1 = (ok, st', e')" using all by simp
    have client: "client_of fd ?srv = st1\<lparr>read_buffer := q\<rparr>" using buf(2) True by (simp add: client_of_def)
    have info: "client_info fd ?srv = ?info"
      using Cons.prems(2) by (simp add: client_info_def um_put_length um_put_put client_of_def)
    have "serve_all os 0 (client_info fd ?srv) (password ?srv) fd (map make_command ys) (client_of fd ?srv) (srv_env ?srv) =
        (ok, st'\<lparr>read_buffer := q\<rparr>, e')"
      unfolding client info using rest
      by (simp add: serve_all_buffer [of os 0 ?info ?pw fd "map make_command ys" q st1 e1])
    with Cons.IH [of ys ?srv "st'\<lparr>read_buffer := q\<rparr>"]
    have "\<exists>b. feed_all os fd chunks ?srv =
        (ok, ?srv\<lparr>clients := um_put fd ((st'\<lparr>read_buffer := q\<rparr>)\<lparr>read_buffer := b\<rparr>) (clients ?srv), srv_env := e'\<rparr>) \<and>
        (ok \<longrightarrow> b = [])"
      using Cons.prems(1,5) cut(3,4) client by (simp add: cut(1))
    then show ?thesis using read True by (simp add: um_put_put)
  next
    case False
    then show ?thesis using read all by auto
  qed
qed

section \<open>One command in pieces\<close>

text \<open>The bytes of one command, of either form, that is not complete earlier.\<close>

definition one_command :: "string \<Rightarrow> Command \<Rightarrow> bool" where
  "one_command w cmd \<longleftrightarrow> w \<noteq> [] \<and> parse_command w = rp_result True False False cmd (length w) \<and>
     (\<forall>p q. w = p @ q \<longrightarrow> q \<noteq> [] \<longrightarrow> incomplete p)"

lemma one_command_wire: "wire_words ws \<Longrightarrow> one_command (wire ws) (make_command ws)"
  using parse_wire [of ws "[]"] prefix_incomplete [of ws] by (auto simp: one_command_def wire_nonempty)

lemma one_command_served:
  assumes "one_command w cmd"
    and "serve_all os i info pw fd [cmd] st e = (ok, st', e')"
  shows "process_buffer os i info pw fd (st\<lparr>read_buffer := w\<rparr>) e = (ok, st'\<lparr>read_buffer := []\<rparr>, e')"
proof -
  have w: "w \<noteq> []" "parse_command w = rp_result True False False cmd (length w)"
    using assms(1) by (simp_all add: one_command_def)
  obtain r st2 e1 where ans: "answer (sub_os os i) info pw fd cmd st e = (r, st2, e1)" by (metis prod_cases3)
  obtain snt e2 where send: "send os fd (serialize_response r) e1 = (snt, e2)" by force
  have "process_buffer os i info pw fd (st\<lparr>read_buffer := w\<rparr>) e =
      (if cmd_name cmd = ''QUIT'' then (False, st\<lparr>read_buffer := []\<rparr>, snd (send os fd (simple_string ''OK'') e))
       else if snt then process_buffer os (Suc i) info pw fd (st2\<lparr>read_buffer := []\<rparr>) e2
       else (False, st2\<lparr>read_buffer := []\<rparr>, e2))"
    using process_buffer_command [of "st\<lparr>read_buffer := w\<rparr>", OF _ refl _ refl, of os i info pw fd e r
        "st2\<lparr>read_buffer := []\<rparr>" e1 snt e2] w by (simp add: ans send answer_ignores_buffer)
  moreover have "process_buffer os (Suc i) info pw fd (st2\<lparr>read_buffer := []\<rparr>) e2 = (True, st2\<lparr>read_buffer := []\<rparr>, e2)"
    by (rule incomplete_waits) (simp add: incomplete_def)
  ultimately show ?thesis using assms(2) ans send by (auto split: if_splits)
qed

text \<open>However its bytes are cut, the command is served once, when the last of them is read.\<close>

lemma feed_one_command:
  assumes "one_command w cmd"
    and "read_buffer (client_of fd srv) @ concat chunks = w" and "list_all (\<lambda>c. c \<noteq> []) chunks" and "chunks \<noteq> []"
    and "serve_all os 0 (client_info fd srv) (password srv) fd [cmd] (client_of fd srv) (srv_env srv) = (ok, st', e')"
  shows "feed_all os fd chunks srv =
    (ok, srv\<lparr>clients := um_put fd (st'\<lparr>read_buffer := []\<rparr>) (clients srv), srv_env := e'\<rparr>)"
  using assms(2-)
proof (induction chunks arbitrary: srv st')
  case (Cons chunk chunks)
  let ?st = "client_of fd srv" and ?info = "client_info fd srv"
  let ?st1 = "?st\<lparr>read_buffer := read_buffer ?st @ chunk\<rparr>"
  show ?case
  proof (cases "chunks = []")
    case True
    then have "process_buffer os 0 ?info (password srv) fd ?st1 (srv_env srv) = (ok, st'\<lparr>read_buffer := []\<rparr>, e')"
      using one_command_served [OF assms(1) Cons.prems(4)] Cons.prems(1) by simp
    from process_bytes_eq [OF this] True show ?thesis by (cases ok) simp_all
  next
    case False
    let ?srv = "srv\<lparr>clients := um_put fd ?st1 (clients srv), srv_env := srv_env srv\<rparr>"
    have "concat chunks \<noteq> []" using False Cons.prems(2) by (cases chunks) auto
    then have "incomplete (read_buffer ?st @ chunk)"
      using assms(1) Cons.prems(1) unfolding one_command_def by (metis append.assoc concat.simps(2))
    from process_bytes_eq [OF incomplete_waits [OF this]]
    have read: "process_bytes os chunk fd srv = (True, ?srv)" by simp
    have client: "client_of fd ?srv = ?st1" by (simp add: client_of_def)
    have info: "client_info fd ?srv = ?info"
      by (simp add: client_info_def um_put_length um_put_put client_of_def)
    have rest: "serve_all os 0 (client_info fd ?srv) (password ?srv) fd [cmd] (client_of fd ?srv) (srv_env ?srv) =
        (ok, st'\<lparr>read_buffer := read_buffer ?st @ chunk\<rparr>, e')"
      unfolding client info using Cons.prems(4)
      by (simp add: serve_all_buffer [of os 0 ?info "password srv" fd "[cmd]"] del: serve_all.simps)
    have "feed_all os fd chunks ?srv =
        (ok, ?srv\<lparr>clients := um_put fd ((st'\<lparr>read_buffer := read_buffer ?st @ chunk\<rparr>)\<lparr>read_buffer := []\<rparr>) (clients ?srv),
          srv_env := e'\<rparr>)"
      by (rule Cons.IH [OF _ _ False rest]) (use Cons.prems(1,2) client in simp_all)
    then show ?thesis using read by (simp add: um_put_put)
  qed
qed simp

section \<open>Properties\<close>

text \<open>
  C12. It makes no difference how the network cuts a stream: for RESP commands of any kind on a connection with
  nothing pending, while the clock stands still, reading the bytes in any pieces that reads of at most 4096 bytes return
  and giving all of them to the command loop at once have the same effects, write the same bytes to the same
  sockets, keep or drop the client alike, and leave the same server when the client is kept.
\<close>

theorem stream_cuts_irrelevant:
  assumes "\<And>i. sub_os os i = os" and "list_all wire_words wss" and "length (concat (map wire wss)) \<le> MAX_BUFFER"
    and "um_find (clients srv) fd \<noteq> None" and "read_buffer (client_of fd srv) = []"
    and "concat chunks = concat (map wire wss)" and "list_all piece chunks"
    and "read_all os fd chunks srv = (keep, srv1)" and "process_bytes os (concat chunks) fd srv = (keep', srv2)"
  shows "keep = keep' \<and> srv_env srv1 = srv_env srv2 \<and> (if keep then srv1 = srv2 else True)"
proof -
  obtain ok st' e' where all: "serve_all os 0 (client_info fd srv) (password srv) fd (map make_command wss)
      (client_of fd srv) (srv_env srv) = (ok, st', e')" by (metis prod_cases3)
  have "incomplete (read_buffer (client_of fd srv))" using assms(5) by (simp add: incomplete_def)
  note serves = feed_all_serves [OF assms(1,2,4) this _ assms(3) all]
  have "feed_all os fd [concat chunks] srv = (keep', srv2)" using assms(9) by simp
  moreover have "feed_all os fd chunks srv = (keep, srv1)" using assms(7,8) by (simp add: read_all_feed)
  ultimately show ?thesis
    using serves [of chunks] serves [of "[concat chunks]"] assms(5,6) by auto
qed

theorem stream_cuts_irrelevant_witness:
  "let srv = (new_server [] 6399 start_env)\<lparr>clients := [(7, new_client [])]\<rparr>;
       cut = read_all (still_os 0) 7 [''*1'' @ crlf, ''$4'', crlf @ ''PING'' @ crlf] srv;
       whole = process_bytes (still_os 0) (concat [''*1'' @ crlf, ''$4'', crlf @ ''PING'' @ crlf]) 7 srv
   in fst cut = fst whole \<and> srv_env (snd cut) = srv_env (snd whole)"
proof -
  let ?srv = "(new_server [] 6399 start_env)\<lparr>clients := [(7, new_client [])]\<rparr>"
  let ?chunks = "[''*1'' @ crlf, ''$4'', crlf @ ''PING'' @ crlf]"
  have still: "sub_os (still_os 0) i = still_os 0" for i by (simp add: sub_os_def still_os_def)
  have bytes: "concat ?chunks = concat (map wire [[''PING'']])" by code_simp
  have pieces: "list_all piece ?chunks" by (simp add: piece_def READ_SIZE_def)
  have "length (concat (map wire [[''PING'']])) = 14" by code_simp
  then have len: "length (concat (map wire [[''PING'']])) \<le> MAX_BUFFER" by (simp add: MAX_BUFFER_def)
  have client: "um_find (clients ?srv) 7 \<noteq> None" "read_buffer (client_of 7 ?srv) = []"
    by (simp_all add: um_find_def client_of_def new_client_def)
  obtain keep srv1 keep' srv2 where runs: "read_all (still_os 0) 7 ?chunks ?srv = (keep, srv1)"
      "process_bytes (still_os 0) (concat ?chunks) 7 ?srv = (keep', srv2)"
    by (metis prod.collapse)
  have "list_all wire_words [[''PING'']]" by (simp add: wire_words_def int_max_def)
  from stream_cuts_irrelevant [OF still this len client bytes pieces runs] show ?thesis
    unfolding Let_def runs by simp
qed

end
