(* ===== verification/Dialog.thy ===== *)
theory Dialog
  imports Startup Streams
begin

text \<open>
  A user at the client program and the server behind it: from the lines typed, over the bytes on the
  network, the command loop and the database, to the texts shown.
\<close>

section \<open>What the client shows\<close>

text \<open>The client shows the text of a reply as it is.\<close>

definition shown :: "string \<Rightarrow> bool" where
  "shown r \<longleftrightarrow> parse_resp_value (serialize_response r) = Some (r, length (serialize_response r))"

lemma shown_reply: "reply_fits r \<Longrightarrow> shown (reply_text r)"
  using parse_reply [of r "[]"] by (simp add: shown_def)

lemma shown_wrong_type:
  assumes "CR \<notin> set r"
  shows "shown (''WRONGTYPE '' @ r)"
proof -
  have "serialize_response (''WRONGTYPE '' @ r) = resp_error (''WRONGTYPE '' @ r)"
    by (subst serialize_response.simps) (simp add: starts_with_def)
  then show ?thesis
    using parse_line_reply(2) [of "''WRONGTYPE '' @ r" "[]"] assms by (simp add: shown_def)
qed

lemma send_command_shows:
  assumes "shown r" and "is_connected cl" and "client_buffer cl = []"
    and "write_loop (os_write cos) (fd cl) (line @ crlf) w = (True, w1)"
    and "concat chunks = serialize_response r" and "list_all (\<lambda>c. c \<noteq> []) chunks"
  shows "send_command cos chunks line cl w = (r, cl, w1, [])"
proof -
  have "\<exists>buf rem. read_resp_response chunks [] = (Some r, buf, rem) \<and> buf @ concat rem = []"
    using assms(1,5,6)
    by (intro read_resp_response_whole [where w = "serialize_response r"]) (auto simp: shown_def list_all_iff)
  then obtain rem where "read_resp_response chunks [] = (Some r, [], rem)" "concat rem = []"
    by auto
  moreover have "rem = []"
    using read_resp_response_reads [OF calculation(1)] calculation(2) assms(6)
    by (cases rem) (auto simp: list_all_iff)
  ultimately show ?thesis
    using assms(2-4) by (simp add: send_command_def is_connected_def)
qed

lemma repl_shows:
  assumes "length lines = length pieces" and "length pieces = length rs"
    and "is_connected cl" and "client_buffer cl = []" and "\<And>data w. fst (write_loop (os_write cos) (fd cl) data w)"
    and "lawful_write (os_write cos) out"
    and "list_all (\<lambda>l. typed_line l \<and> trim_line (upper l) \<noteq> ''QUIT'') lines" and "list_all shown rs"
    and "map concat pieces = map serialize_response rs" and "list_all (list_all (\<lambda>c. c \<noteq> [])) pieces"
  shows "\<exists>w'. repl cos (zip lines pieces) cl w = (rs, cl, w') \<and>
    out w' = (out w)(fd cl := out w (fd cl) @ concat (map (\<lambda>l. l @ crlf) lines))"
  using assms(1,2,7-)
proof (induction lines pieces rs arbitrary: w rule: list_induct3)
  case (Cons line lines chunks pieces r rs)
  obtain w1 where w1: "write_loop (os_write cos) (fd cl) (line @ crlf) w = (True, w1)"
    using assms(5) [of "line @ crlf" w] by (metis fst_conv prod.collapse)
  have "send_command cos chunks line cl w = (r, cl, w1, [])"
    using Cons.prems by (intro send_command_shows [OF _ assms(3,4) w1]) auto
  moreover have "line \<noteq> []" "\<not> is_blank_line line" "trim_line (upper line) \<noteq> ''QUIT''"
    using Cons.prems by (auto simp: typed_line_def is_blank_line_def)
  moreover have "\<exists>w'. repl cos (zip lines pieces) cl w1 = (rs, cl, w') \<and>
      out w' = (out w1)(fd cl := out w1 (fd cl) @ concat (map (\<lambda>l. l @ crlf) lines))"
    by (rule Cons.IH) (use Cons.prems in simp_all)
  moreover have "out w1 = (out w)(fd cl := out w (fd cl) @ line @ crlf)"
    using write_loop_sends [OF assms(6) w1] by auto
  ultimately show ?case using assms(3) by auto
qed simp

section \<open>One exchange\<close>

text \<open>
  One exchange between the client program and the server. For a line that the server takes as an
  inline command other than \<open>QUIT\<close>, the bytes the client writes make the command loop answer exactly the
  command that the line parses to and leave nothing in the buffer, and, when the reply reaches the client
  in any pieces, the client shows the reply of the command handler.
\<close>

lemma typed_line_answered:
  assumes "typed_line line" and "cmd_name (pr_command (parse line)) \<noteq> ''QUIT''" and "reply_fits r"
    and "answer (sub_os os i) info pw s (pr_command (parse line)) (st\<lparr>read_buffer := []\<rparr>) e = (reply_text r, st1, e1)"
    and "send os s (serialize_response (reply_text r)) e1 = (True, e2)"
    and "is_connected cl" and "client_buffer cl = []"
    and "write_loop (os_write cos) (fd cl) (line @ crlf) w = (True, w1)"
    and "concat chunks = serialize_response (reply_text r)" and "list_all (\<lambda>c. c \<noteq> []) chunks"
  shows "process_buffer os i info pw s (st\<lparr>read_buffer := line @ crlf\<rparr>) e = (True, st1, e2) \<and>
    send_command cos chunks line cl w = (reply_text r, cl, w1, [])"
proof
  have "read_buffer st1 = []"
    using answer_buffer [of "sub_os os i" info pw s "pr_command (parse line)" "st\<lparr>read_buffer := []\<rparr>" e]
      assms(4) by simp
  then have "process_buffer os (Suc i) info pw s st1 e2 = (True, st1, e2)"
    by (subst process_buffer.simps) simp
  then show "process_buffer os i info pw s (st\<lparr>read_buffer := line @ crlf\<rparr>) e = (True, st1, e2)"
    using assms(2,4,5) by (subst process_buffer.simps) (simp add: parse_typed_line [OF assms(1)])
  show "send_command cos chunks line cl w = (reply_text r, cl, w1, [])"
    using assms(6-10) by (intro send_command_shows shown_reply [OF assms(3)])
qed

lemma typed_line_answered_witness:
  "let cl = (new_client_conn [] 6399)\<lparr>fd := 3\<rparr>
   in send_command (still_os 0) [''$-1'', crlf] ''GET k'' cl (\<lambda>_. []) =
      (''(nil)'', cl, (\<lambda>_. [])(3 := ''GET k'' @ crlf), [])"
proof -
  let ?cl = "(new_client_conn [] 6399)\<lparr>fd := 3\<rparr>"
  let ?info = "\<lparr>info_start_time = 0, info_client_count = 1\<rparr>"
  have line: "typed_line ''GET k''" by (simp add: typed_line_def is_blank_line_def is_space_def max_inline_def)
  have cmd: "pr_command (parse ''GET k'') = \<lparr>cmd_name = ''GET'', cmd_args = [''k'']\<rparr>" by code_simp
  have nil: "serialize_response ''(nil)'' = ''$-1'' @ crlf" by code_simp
  have get: "db_get now ''k'' new_database = (None, new_database)" for now
    by (simp add: db_get_def new_database_def is_expired_unlocked_def um_find_def)
  have ans: "answer (sub_os (still_os 0) 0) ?info [] 7 (pr_command (parse ''GET k''))
      ((new_client [])\<lparr>read_buffer := []\<rparr>) start_env = (reply_text NilReply, new_client [], start_env)"
    by (simp add: cmd answer_def execute_def execute_single_def in_subscription_mode_def is_subscribed_def
        new_handler_def set_server_def start_env_def new_pubsub_def on_db_def handle_get_def get
        nil_or_quoted_def new_client_def)
  obtain e2 where sent: "send (still_os 0) 7 (serialize_response (reply_text NilReply)) start_env = (True, e2)"
    by (simp add: send_def send_response_def resp_write_exact_def still_os_def write_loop_log)
  have "write_loop (os_write (still_os 0)) (fd ?cl) (''GET k'' @ crlf) (\<lambda>_. []) =
      (True, (\<lambda>_. [])(3 := ''GET k'' @ crlf))"
    by (simp add: still_os_def write_loop_log)
  from typed_line_answered [OF line _ _ ans sent _ _ this, of "[''$-1'', crlf]"] show ?thesis
    by (simp add: cmd nil is_connected_def is_valid_def new_client_conn_def)
qed

text \<open>
  A value typed at the client comes back: for every key and value without carriage returns and short enough, written
  as quoted arguments of \<open>SET\<close> and then of \<open>GET\<close>, the two replies of the server to a client that need not
  authenticate are shown by the client program as \<open>OK\<close> and as exactly the value, in quotes.
\<close>

lemma typed_set_get:
  assumes "db_inv (env_db e)" and "\<not> is_subscribed s (env_ps e)" and "pw = [] \<or> authenticated st"
    and "CR \<notin> set key" and "CR \<notin> set val" and "int (length val) \<le> int_max"
    and "line1 = quoted_line [''SET'', key, val]" and "line2 = quoted_line [''GET'', key]"
    and "length line1 < max_inline" and "length line2 < max_inline"
    and "answer os1 info pw s (rp_command (parse_command (line1 @ crlf))) st e = (r1, st1, e1)"
    and "answer os2 info pw s (rp_command (parse_command (line2 @ crlf))) st1 e1 = (r2, st2, e2)"
  shows "parse_resp_value (serialize_response r1) = Some (''OK'', length (serialize_response r1)) \<and>
    parse_resp_value (serialize_response r2) = Some (quoted val, length (serialize_response r2))"
proof -
  have "typed_line line1" "typed_line line2"
    using assms(4,5,9,10) typed_quoted_line [of "[''SET'', key, val]"] typed_quoted_line [of "[''GET'', key]"]
    by (auto simp: assms(7,8))
  moreover have up: "upper ''SET'' = ''SET''" "upper ''GET'' = ''GET''" by code_simp+
  ultimately have cmds: "rp_command (parse_command (line1 @ crlf)) = \<lparr>cmd_name = ''SET'', cmd_args = [key, val]\<rparr>"
      "rp_command (parse_command (line2 @ crlf)) = \<lparr>cmd_name = ''GET'', cmd_args = [key]\<rparr>"
    by (simp_all add: parse_typed_line assms(7,8) parse_quoted_line up)
  have auth: "\<not> (pw \<noteq> [] \<and> \<not> authenticated st)" using assms(3) by simp
  have "answer os1 info pw s \<lparr>cmd_name = ''SET'', cmd_args = [key, val]\<rparr> st e =
      (''OK'', st, e\<lparr>env_db := db_set key val (env_db e)\<rparr>)"
    using assms(2) auth
    by (simp add: answer_def execute_def execute_single_def in_subscription_mode_def
        new_handler_def set_server_def on_db_def handle_set_def)
  then have first: "r1 = reply_text OkReply" "st1 = st" "e1 = e\<lparr>env_db := db_set key val (env_db e)\<rparr>"
    using assms(11) by (simp_all add: cmds)
  have "fst (answer os2 info pw s \<lparr>cmd_name = ''GET'', cmd_args = [key]\<rparr> st1 e1) =
      nil_or_quoted (fst (db_get (os_clock os2 []) key (db_set key val (env_db e))))"
    using assms(2) auth
    by (simp add: first answer_def execute_def execute_single_def in_subscription_mode_def
        new_handler_def set_server_def on_db_def handle_get_def Let_def split_beta) blast
  also have "\<dots> = reply_text (StringReply val)"
    by (simp add: dbk.get_after_set [OF assms(1)] nil_or_quoted_def)
  finally have "r2 = reply_text (StringReply val)" using assms(12) by (simp only: cmds fst_conv)
  then show ?thesis
    using first(1) parse_reply [of OkReply "[]"] parse_reply [of "StringReply val" "[]"] assms(6)
    by (simp only: append_Nil2) simp
qed

lemma typed_set_get_witness:
  "let info = \<lparr>info_start_time = 0, info_client_count = 1\<rparr>;
       (r1, st1, e1) = answer (still_os 0) info [] 7
         (rp_command (parse_command (quoted_line [''SET'', ''k'', [DQ, LF]] @ crlf))) (new_client []) start_env;
       (r2, st2, e2) = answer (still_os 1) info [] 7
         (rp_command (parse_command (quoted_line [''GET'', ''k''] @ crlf))) st1 e1
   in parse_resp_value (serialize_response r2) = Some (quoted [DQ, LF], length (serialize_response r2))"
proof -
  let ?info = "\<lparr>info_start_time = 0, info_client_count = 1\<rparr>"
  obtain r1 st1 e1 where one: "answer (still_os 0) ?info [] 7
      (rp_command (parse_command (quoted_line [''SET'', ''k'', [DQ, LF]] @ crlf))) (new_client []) start_env = (r1, st1, e1)"
    by (metis prod_cases3)
  obtain r2 st2 e2 where two: "answer (still_os 1) ?info [] 7
      (rp_command (parse_command (quoted_line [''GET'', ''k''] @ crlf))) st1 e1 = (r2, st2, e2)"
    by (metis prod_cases3)
  have len: "length (quoted_line [''SET'', ''k'', [DQ, LF]]) = 17" "length (quoted_line [''GET'', ''k'']) = 10" by code_simp+
  have start: "db_inv (env_db start_env)" "\<not> is_subscribed 7 (env_ps start_env)"
    by (simp_all add: start_env_def db_inv_new is_subscribed_def new_pubsub_def)
  have "parse_resp_value (serialize_response r2) = Some (quoted [DQ, LF], length (serialize_response r2))"
    using typed_set_get [OF start _ _ _ _ refl refl _ _ one two] len by (simp add: int_max_def max_inline_def)
  then show ?thesis by (simp only: Let_def one two split_conv)
qed

section \<open>A whole dialogue\<close>

text \<open>The server reads line after line from one client, each in the pieces in which it arrives.\<close>

fun serve_lines :: "socket_t \<Rightarrow> ('w os \<times> string \<times> string list) list \<Rightarrow> 'w server \<Rightarrow> bool \<times> 'w server" where
  "serve_lines s [] srv = (True, srv)"
| "serve_lines s ((os, line, chunks) # lines) srv =
     (case read_all os s chunks srv of
        (keep, srv1) \<Rightarrow> if keep then serve_lines s lines srv1 else (False, srv1))"

abbreviation line_of :: "'w os \<times> string \<times> string list \<Rightarrow> string" where
  "line_of rd \<equiv> fst (snd rd)"

abbreviation command_of :: "string \<Rightarrow> Command" where
  "command_of line \<equiv> pr_command (parse line)"

text \<open>Reading one line is serving one command.\<close>

lemma one_command_line: "typed_line line \<Longrightarrow> one_command (line @ crlf) (command_of line)"
  using parse_typed_line [of line] typed_line_prefix [of line] by (auto simp: one_command_def)

lemma read_line:
  assumes "typed_line line" and "concat chunks = line @ crlf" and "list_all piece chunks"
    and "um_find (clients srv) s = Some st0" and "read_buffer st0 = []"
    and "serve_all os 0 (client_info s srv) (password srv) s [command_of line] st0 (srv_env srv) = (ok, st, e)"
  shows "read_all os s chunks srv = (ok, srv\<lparr>clients := um_put s (st\<lparr>read_buffer := []\<rparr>) (clients srv), srv_env := e\<rparr>)"
proof -
  have "client_of s srv = st0" using assms(4) by (simp add: client_of_def)
  moreover have "list_all (\<lambda>c. c \<noteq> []) chunks" "chunks \<noteq> []"
    using assms(2,3) by (auto simp: list_all_iff piece_def)
  ultimately show ?thesis
    using feed_one_command [OF one_command_line [OF assms(1)], of s srv chunks os ok st e] assms
    by (simp add: read_all_feed)
qed

lemma serve_one:
  assumes "lawful_write (os_write os) out" and "\<And>data w. fst (write_loop (os_write os) s data w)"
    and "pw = [] \<or> authenticated st" and "\<not> is_subscribed s (env_ps e)" and "db_inv (env_db e)"
    and "request_of cmd = Some req" and "os_clock (sub_os os 0) = (\<lambda>_. t)" and "lists_fit (view t (env_db e))"
  shows "\<exists>r e'. serve_all os 0 info pw s [cmd] st e = (True, st, e') \<and>
    means t req (view t (env_db e)) r (view t (env_db e')) \<and> db_inv (env_db e') \<and> env_ps e' = env_ps e \<and>
    out (env_net e') = (out (env_net e))(s := out (env_net e) s @ serialize_response r)"
proof -
  obtain r e1 where run: "execute_single (sub_os os 0) (set_server info (new_handler s)) cmd e = (r, e1)" by force
  note step = execute_single_means [OF assms(5,8,6,7) run]
  obtain e2 where snt: "send os s (serialize_response r) e1 = (True, e2)"
    using assms(2) by (force simp: send_def send_response_def resp_write_exact_def split_beta)
  have "serve_all os 0 info pw s [cmd] st e = (True, st, e2)"
    using answer_performs [OF assms(3,4,6)] run snt request_names [OF assms(6)] by simp
  then show ?thesis
    using step send_sends [OF assms(1) snt] by (intro exI [of _ r] exI [of _ e2]) simp
qed

text \<open>What the server and its network must be like for one line.\<close>

definition line_served :: "('w \<Rightarrow> socket_t \<Rightarrow> string) \<Rightarrow> socket_t \<Rightarrow> 'w os \<times> string \<times> string list \<Rightarrow> time \<Rightarrow> bool" where
  "line_served out s rd t \<longleftrightarrow> lawful_write (os_write (fst rd)) out \<and>
     (\<forall>data w. fst (write_loop (os_write (fst rd)) s data w)) \<and> os_clock (sub_os (fst rd) 0) = (\<lambda>_. t) \<and>
     typed_line (line_of rd) \<and> request_of (command_of (line_of rd)) \<noteq> None \<and>
     concat (snd (snd rd)) = line_of rd @ crlf \<and> list_all piece (snd (snd rd))"

lemma serve_lines_session:
  assumes "list_all2 (line_served out s) reads ts" and "um_find (clients srv) s = Some st" and "read_buffer st = []"
    and "password srv = [] \<or> authenticated st" and "\<not> is_subscribed s (env_ps (srv_env srv))"
    and "db_inv (env_db (srv_env srv))" and "sorted (t0 # ts)"
    and "room (view t0 (env_db (srv_env srv))) (map (\<lambda>rd. command_of (line_of rd)) reads)"
  shows "\<exists>rs srv'. serve_lines s reads srv = (True, srv') \<and> length rs = length reads \<and>
    session (zip ts (map (\<lambda>rd. command_of (line_of rd)) reads)) (view t0 (env_db (srv_env srv))) rs
      (view (last (t0 # ts)) (env_db (srv_env srv'))) \<and>
    out (env_net (srv_env srv')) = (out (env_net (srv_env srv)))
      (s := out (env_net (srv_env srv)) s @ concat (map serialize_response rs))"
  using assms
proof (induction reads ts arbitrary: t0 srv rule: list_all2_induct)
  case (Cons rd reads t ts)
  obtain os line chunks where rd: "rd = (os, line, chunks)" by (metis prod_cases3)
  let ?e = "srv_env srv" and ?cmd = "command_of line"
  note line = Cons.hyps(1) [unfolded rd line_served_def fst_conv snd_conv]
  obtain req where req: "request_of ?cmd = Some req" using line by blast
  have st: "client_of s srv = st" using Cons.prems(1) by (simp add: client_of_def)
  have later: "age t (view t0 (env_db ?e)) = view t (env_db ?e)"
    using Cons.prems(6) by (simp add: age_view)
  have room: "room (view t (env_db ?e)) (?cmd # map (\<lambda>rd. command_of (line_of rd)) reads)"
    using room_age [OF Cons.prems(7), of t] later by (simp add: rd)
  obtain r e' where one: "serve_all os 0 (client_info s srv) (password srv) s [?cmd] st ?e = (True, st, e')"
    and step: "means t req (view t (env_db ?e)) r (view t (env_db e'))" "db_inv (env_db e')" "env_ps e' = env_ps ?e"
    and sent: "out (env_net e') = (out (env_net ?e))(s := out (env_net ?e) s @ serialize_response r)"
    using serve_one [OF _ _ Cons.prems(3,4,5) req _ room_fits [OF room]] line by blast
  let ?srv = "srv\<lparr>clients := clients srv, srv_env := e'\<rparr>"
  have same: "st\<lparr>read_buffer := []\<rparr> = st" using Cons.prems(2) by simp
  have first: "read_all os s chunks srv = (True, ?srv)"
    using read_line [of line chunks srv s st os True st e'] line one Cons.prems(1,2) um_put_same [OF Cons.prems(1)]
    by (simp add: same)
  have "\<exists>rs srv'. serve_lines s reads ?srv = (True, srv') \<and> length rs = length reads \<and>
    session (zip ts (map (\<lambda>rd. command_of (line_of rd)) reads)) (view t (env_db (srv_env ?srv))) rs
      (view (last (t # ts)) (env_db (srv_env srv'))) \<and>
    out (env_net (srv_env srv')) = (out (env_net (srv_env ?srv)))
      (s := out (env_net (srv_env ?srv)) s @ concat (map serialize_response rs))"
    by (rule Cons.IH) (use Cons.prems step(2,3) room_Cons [OF room req step(1)] in simp_all)
  then obtain rs srv' where rest: "serve_lines s reads ?srv = (True, srv')" "length rs = length reads"
    "session (zip ts (map (\<lambda>rd. command_of (line_of rd)) reads)) (view t (env_db e')) rs
      (view (last (t # ts)) (env_db (srv_env srv')))"
    "out (env_net (srv_env srv')) = (out (env_net e'))(s := out (env_net e') s @ concat (map serialize_response rs))"
    by auto
  have "serve_lines s (rd # reads) srv = (True, srv')" using first rest(1) by (simp add: rd)
  moreover have "session (zip (t # ts) (map (\<lambda>rd. command_of (line_of rd)) (rd # reads))) (view t0 (env_db ?e)) (r # rs)
      (view (last (t0 # t # ts)) (env_db (srv_env srv')))"
    using req step(1) rest(3) later by (auto simp: rd)
  moreover have "out (env_net (srv_env srv')) = (out (env_net ?e))
      (s := out (env_net ?e) s @ concat (map serialize_response (r # rs)))"
    using rest(4) sent by simp
  ultimately show ?case using rest(2) by (intro exI [of _ "r # rs"] exI [of _ srv']) simp
qed simp

section \<open>Properties\<close>

text \<open>
  C13. From the keyboard to the screen: a user who types lines with commands on the data at the client program
  works on the abstract keyspace. When the server reads the lines, each of less than 64 KiB, one after the other, each in
  any pieces that reads of at most 4096 bytes return, at non-decreasing times and with sockets that take what is
  written, its live entries become those of the abstract session of
  the commands typed, and it sends exactly the replies of that session; the client program writes exactly
  the lines, and, with every reply arriving in any pieces, shows exactly those replies in their order, if
  they are texts that the wire format carries.
\<close>

theorem typed_session:
  assumes "list_all2 (line_served out s) reads ts" and "um_find (clients srv) s = Some st" and "read_buffer st = []"
    and "password srv = [] \<or> authenticated st" and "\<not> is_subscribed s (env_ps (srv_env srv))"
    and "db_inv (env_db (srv_env srv))" and "sorted (t # ts)"
    and "room (view t (env_db (srv_env srv))) (map (\<lambda>rd. command_of (line_of rd)) reads)"
    and "is_connected cl" and "client_buffer cl = []" and "\<And>data w. fst (write_loop (os_write cos) (fd cl) data w)"
    and "lawful_write (os_write cos) out'" and "list_all (\<lambda>rd. trim_line (upper (line_of rd)) \<noteq> ''QUIT'') reads"
  shows "\<exists>rs srv'. serve_lines s reads srv = (True, srv') \<and>
    session (zip ts (map (\<lambda>rd. command_of (line_of rd)) reads)) (view t (env_db (srv_env srv))) rs
      (view (last (t # ts)) (env_db (srv_env srv'))) \<and>
    out (env_net (srv_env srv')) = (out (env_net (srv_env srv)))
      (s := out (env_net (srv_env srv)) s @ concat (map serialize_response rs)) \<and>
    (\<forall>pieces. map concat pieces = map serialize_response rs \<and> list_all (list_all (\<lambda>c. c \<noteq> [])) pieces \<and>
       list_all shown rs \<longrightarrow>
       (\<exists>w'. repl cos (zip (map line_of reads) pieces) cl w = (rs, cl, w') \<and>
          out' w' = (out' w)(fd cl := out' w (fd cl) @ concat (map (\<lambda>rd. line_of rd @ crlf) reads))))"
proof -
  obtain rs srv' where server: "serve_lines s reads srv = (True, srv')" "length rs = length reads"
    "session (zip ts (map (\<lambda>rd. command_of (line_of rd)) reads)) (view t (env_db (srv_env srv))) rs
      (view (last (t # ts)) (env_db (srv_env srv')))"
    "out (env_net (srv_env srv')) = (out (env_net (srv_env srv)))
      (s := out (env_net (srv_env srv)) s @ concat (map serialize_response rs))"
    using serve_lines_session [OF assms(1-8)] by blast
  have "list_all (\<lambda>l. typed_line l \<and> trim_line (upper l) \<noteq> ''QUIT'') (map line_of reads)"
    using assms(1,13) by (induction rule: list_all2_induct) (simp_all add: line_served_def)
  then have "\<exists>w'. repl cos (zip (map line_of reads) pieces) cl w = (rs, cl, w') \<and>
      out' w' = (out' w)(fd cl := out' w (fd cl) @ concat (map (\<lambda>l. l @ crlf) (map line_of reads)))"
    if "map concat pieces = map serialize_response rs" "list_all (list_all (\<lambda>c. c \<noteq> [])) pieces" "list_all shown rs" for pieces
    using that assms(9-12) server(2) map_eq_imp_length_eq [OF that(1)] by (intro repl_shows) simp_all
  then show ?thesis using server by (intro exI [of _ rs] exI [of _ srv']) (simp add: comp_def)
qed

theorem typed_session_witness:
  "let srv = (new_server [] 6399 start_env)\<lparr>clients := [(7, new_client [])]\<rparr>;
       cl = (new_client_conn [] 6399)\<lparr>fd := 3\<rparr>;
       shows = repl (still_os 0) [(''set k v'', [''+O'', ''K'' @ crlf]), (''get k'', [''$1'' @ crlf, ''v'' @ crlf])] cl (\<lambda>_. [])
   in env_net (srv_env (snd (serve_lines 7
        [(still_os 0, ''set k v'', [''set'', '' k v'', crlf]), (still_os 5, ''get k'', [''get k'' @ crlf])] srv))) 7 =
        ''+OK'' @ crlf @ ''$1'' @ crlf @ ''v'' @ crlf \<and>
      fst shows = [''OK'', quoted ''v''] \<and> snd (snd shows) 3 = ''set k v'' @ crlf @ ''get k'' @ crlf"
proof -
  let ?srv = "(new_server [] 6399 start_env)\<lparr>clients := [(7, new_client [])]\<rparr>"
  let ?cl = "(new_client_conn [] 6399)\<lparr>fd := 3\<rparr>"
  let ?reads = "[(still_os 0, ''set k v'', [''set'', '' k v'', crlf]), (still_os 5, ''get k'', [''get k'' @ crlf])]"
  let ?pieces = "[[''+O'', ''K'' @ crlf], [''$1'' @ crlf, ''v'' @ crlf]]"
  have cmds: "command_of ''set k v'' = \<lparr>cmd_name = ''SET'', cmd_args = [''k'', ''v'']\<rparr>"
    "command_of ''get k'' = \<lparr>cmd_name = ''GET'', cmd_args = [''k'']\<rparr>" by code_simp+
  have reqs: "request_of (command_of ''set k v'') = Some (Request (Set ''k'' ''v''))"
    "request_of (command_of ''get k'') = Some (Request (Get ''k''))"
    by (simp_all add: cmds request_of_def requests_def set_request_def one_key_def eval_nat_numeral)
  have "typed_line ''set k v''" "typed_line ''get k''"
    by (simp_all add: typed_line_def is_blank_line_def is_space_def max_inline_def)
  then have lines: "list_all2 (line_served (\<lambda>w. w) 7) ?reads [0, 5]"
    using lawful_log_write reqs by (simp add: line_served_def piece_def READ_SIZE_def still_os_def sub_os_def sub_clock_def write_loop_log)
  have client: "um_find (clients ?srv) 7 = Some (new_client [])" "read_buffer (new_client []) = []"
    "password ?srv = [] \<or> authenticated (new_client [])" "\<not> is_subscribed 7 (env_ps (srv_env ?srv))"
    "db_inv (env_db (srv_env ?srv))" "sorted [0, 0, 5 :: time]"
    "room (view 0 (env_db (srv_env ?srv))) (map (\<lambda>rd. command_of (line_of rd)) ?reads)"
    by (simp_all add: um_find_def new_client_def new_server_def start_env_def db_inv_new is_subscribed_def new_pubsub_def
        room_def len_at_def as_list_def cmds int_max_def)
  have conn: "is_connected ?cl" "client_buffer ?cl = []" "fst (write_loop (os_write (still_os 0)) (fd ?cl) data w)"
    "lawful_write (os_write (still_os 0)) (\<lambda>w. w)" for data w
    using lawful_log_write
    by (simp_all add: is_connected_def is_valid_def new_client_conn_def still_os_def write_loop_log)
  have no_quit: "list_all (\<lambda>rd. trim_line (upper (line_of rd)) \<noteq> ''QUIT'') ?reads" by code_simp
  obtain rs srv' where run: "serve_lines 7 ?reads ?srv = (True, srv')"
    and ses: "session (zip [0, 5] (map (\<lambda>rd. command_of (line_of rd)) ?reads)) (view 0 (env_db (srv_env ?srv))) rs
      (view (last [0, 0, 5]) (env_db (srv_env srv')))"
    and net: "env_net (srv_env srv') = (env_net (srv_env ?srv))
      (7 := env_net (srv_env ?srv) 7 @ concat (map serialize_response rs))"
    and screen: "\<And>pieces. map concat pieces = map serialize_response rs \<and> list_all (list_all (\<lambda>c. c \<noteq> [])) pieces \<and>
       list_all shown rs \<Longrightarrow> \<exists>w'. repl (still_os 0) (zip (map line_of ?reads) pieces) ?cl (\<lambda>_. []) = (rs, ?cl, w') \<and>
          w' = (\<lambda>_. [])(fd ?cl := [] @ concat (map (\<lambda>rd. line_of rd @ crlf) ?reads))"
    using typed_session [OF lines client conn no_quit, of "\<lambda>_. []"] by blast
  have rs: "rs = [''OK'', quoted ''v'']"
    using ses by (auto simp: reqs age_def nil_or_quoted_def as_string_def at_time_def)
  have wire: "serialize_response ''OK'' = ''+OK'' @ crlf" "serialize_response (quoted ''v'') = ''$1'' @ crlf @ ''v'' @ crlf"
    by code_simp+
  have "shown ''OK''" "shown (quoted ''v'')"
    using shown_reply [of OkReply] shown_reply [of "StringReply ''v''"] by (simp_all add: int_max_def)
  then have "\<exists>w'. repl (still_os 0) (zip (map line_of ?reads) ?pieces) ?cl (\<lambda>_. []) = (rs, ?cl, w') \<and>
      w' = (\<lambda>_. [])(fd ?cl := [] @ concat (map (\<lambda>rd. line_of rd @ crlf) ?reads))"
    by (intro screen) (simp add: rs wire)
  moreover have "env_net (srv_env ?srv) 7 = []" by (simp add: new_server_def start_env_def)
  ultimately show ?thesis
    unfolding Let_def run snd_conv net by (simp add: rs wire)
qed

end
