(* ===== verification/Framing.thy ===== *)
theory Framing
  imports Client
begin

text \<open>
  How many RESP values the server sends for the text of a reply. The text is all a command handler
  gives; \<open>serialize_response\<close> guesses the wire format from it, so that a client stays in step with
  the server only if every text becomes one value, or one per line for a subscription.
\<close>

section \<open>One value\<close>

text \<open>The bytes are read as exactly one RESP value, whatever follows them.\<close>

definition one_value :: "string \<Rightarrow> bool" where
  "one_value w \<longleftrightarrow> (\<forall>t. \<exists>e. parse_resp_value (w @ t) = Some (e, length w))"

named_theorems one_value

lemma one_value_line [one_value]:
  "CR \<notin> set s \<Longrightarrow> one_value (simple_string s)"
  "CR \<notin> set s \<Longrightarrow> one_value (resp_error s)"
  "one_value (resp_integer i)"
  using parse_line_reply(3) [OF show_int_no_cr(1) [of i]]
  by (auto simp: one_value_def parse_line_reply(1,2)) (simp add: resp_integer_def)

lemma one_value_bulk [one_value]: "int (length s) \<le> int_max \<Longrightarrow> one_value (bulk_string s)"
  by (simp add: one_value_def parse_bulk_reply)

lemma one_value_null [one_value]: "one_value null_bulk_string" "one_value empty_array"
proof -
  show "one_value null_bulk_string" by (simp add: one_value_def parse_null_reply)
  have "stoi ''0'' = Some 0" by code_simp
  moreover have "find_crlf (empty_array @ t) 0 = Some 2" for t
    using find_crlf_start [of "CHR ''*''" "''0''" t] by (simp add: empty_array_def)
  ultimately show "one_value empty_array"
    unfolding one_value_def
    by (subst parse_resp_value.simps) (simp add: empty_array_def substr_def eval_nat_numeral)
qed

lemma elements_one_value:
  "list_all one_value ws \<Longrightarrow> \<exists>es. parse_elements (concat ws @ t) (length ws) = Some (es, length (concat ws))"
proof (induction ws)
  case (Cons w ws)
  then obtain e es where "parse_resp_value (w @ concat ws @ t) = Some (e, length w)"
    and "parse_elements (concat ws @ t) (length ws) = Some (es, length (concat ws))"
    unfolding one_value_def by fastforce
  then show ?case by simp
qed simp

lemma one_value_array [one_value]:
  assumes "ws \<noteq> []" and "int (length ws) \<le> int_max" and "list_all one_value ws"
  shows "one_value (resp_array ws)"
  using parse_array_of [OF assms(1,2)] elements_one_value [OF assms(3)] by (metis one_value_def)

section \<open>The text of a reply\<close>

lemma extract_word_length: "extract_word s = (w, r) \<Longrightarrow> length w \<le> length s \<and> length r \<le> length s"
  unfolding extract_word_def Let_def
  by (auto intro: order_trans [OF length_takeWhile_le] order_trans [OF length_dropWhile_le])

lemma one_value_push_line [one_value]:
  assumes "int (length l) \<le> int_max"
  shows "one_value (push_line l)"
proof -
  obtain type r1 where 1: "extract_word l = (type, r1)" by force
  obtain channel r2 where 2: "extract_word r1 = (channel, r2)" by force
  have "length type \<le> length l" "length channel \<le> length l" "length (dropWhile is_space r2) \<le> length l"
    using extract_word_length [OF 1] extract_word_length [OF 2] length_dropWhile_le [of is_space r2] by linarith+
  then show ?thesis
    using assms unfolding push_line_def 1 2 Let_def prod.case
    by (intro one_value) (auto simp: int_max_def intro!: one_value split: option.split)
qed

lemma getlines_chars: "l \<in> set (getlines s) \<Longrightarrow> set l \<subseteq> set s"
proof (induction s arbitrary: l)
  case (Cons c s)
  then show ?case
    by (cases "getlines s") (fastforce split: if_splits)+
qed simp

lemma length_getlines: "length (getlines s) \<le> length s"
proof (induction s)
  case (Cons c s)
  then show ?case by (cases "getlines s") auto
qed simp

definition is_push :: "string \<Rightarrow> bool" where
  "is_push r \<longleftrightarrow> starts_with ''subscribe '' r \<or> starts_with ''unsubscribe '' r \<or> starts_with ''message '' r"

definition reply_values :: "string \<Rightarrow> nat" where
  "reply_values r = (if is_push r then length (getlines r) else 1)"

lemma is_push_other:
  assumes "is_push r"
  shows "r \<noteq> []" "r \<noteq> ''OK''" "r \<noteq> ''PONG''" "r \<noteq> ''QUEUED''" "r \<noteq> ''(nil)''" "r \<noteq> ''(empty list)''"
    "\<not> starts_with ''ERR'' r" "\<not> starts_with ''ERR '' r" "\<not> starts_with ''WRONGTYPE '' r" "\<not> starts_with ''NOAUTH '' r"
    "integer_reply r = None" "\<not> is_quoted r" "\<not> is_array_reply r"
  using assms
  by (cases r; auto simp: is_push_def starts_with_def integer_reply_def is_quoted_def is_array_reply_def)+

lemma is_array_other:
  assumes "is_array_reply r"
  shows "r \<noteq> []" "r \<noteq> ''OK''" "r \<noteq> ''PONG''" "r \<noteq> ''QUEUED''" "r \<noteq> ''(nil)''" "r \<noteq> ''(empty list)''"
    "\<not> starts_with ''ERR'' r" "\<not> starts_with ''ERR '' r" "\<not> starts_with ''WRONGTYPE '' r" "\<not> starts_with ''NOAUTH '' r"
    "integer_reply r = None" "\<not> is_quoted r" "\<not> is_push r"
  using assms
  by (cases r; auto simp: is_push_def starts_with_def integer_reply_def is_quoted_def is_array_reply_def)+

lemma serialize_push: "is_push r \<Longrightarrow> serialize_response r = concat (map push_line (getlines r))"
  using is_push_other [of r] by (subst serialize_response.simps) (simp add: is_push_def)

lemma serialize_is_quoted:
  assumes "is_quoted r"
  shows "serialize_response r = bulk_string (unquote r)"
proof -
  have "r \<noteq> []" "hd r = DQ" using assms by (auto simp: is_quoted_def)
  then show ?thesis
    using assms
    by (subst serialize_response.simps) (cases r; auto simp: starts_with_def integer_reply_def)
qed

text \<open>One element of an array reply.\<close>

lemma element_one_value:
  assumes "\<And>paren. find_pair CHR '')'' CHR '' '' line = Some paren \<Longrightarrow> \<not> is_quoted (drop (paren + 2) line) \<Longrightarrow>
      one_value (serialize_response (drop (paren + 2) line))"
    and "int (length line) \<le> int_max"
  shows "one_value (array_element line)"
  using assms by (auto simp: array_element_def Let_def unquote_def substr_def split: option.split intro!: one_value)

lemma serialize_one_value:
  "CR \<notin> set r \<Longrightarrow> int (length r) \<le> int_max \<Longrightarrow> LF \<notin> set r \<or> \<not> is_push r \<Longrightarrow> one_value (serialize_response r)"
proof (induction r rule: serialize_response.induct)
  case (1 r)
  consider (push) "is_push r" | (arr) "is_array_reply r" | (other) "\<not> is_push r" "\<not> is_array_reply r" by blast
  then show ?case
  proof cases
    case push
    then show ?thesis
      using 1 serialize_push [OF push] is_push_other(1) [OF push] by (simp add: getlines_single one_value)
  next
    case arr
    have "one_value (serialize_response (drop (paren + 2) line))"
      if line: "line \<in> set (getlines r)" "find_pair CHR '')'' CHR '' '' line = Some paren"
        "\<not> is_quoted (drop (paren + 2) line)" for line paren
    proof (rule "1.IH")
      show "CR \<notin> set (drop (paren + 2) line)" "LF \<notin> set (drop (paren + 2) line) \<or> \<not> is_push (drop (paren + 2) line)"
        using "1.prems"(1) getlines_chars [OF line(1)] getlines_no_lf [OF line(1)] by (auto dest: in_set_dropD)
      show "int (length (drop (paren + 2) line)) \<le> int_max"
        using "1.prems"(2) getlines_length [OF line(1)] by simp
    qed (use line arr is_array_other [OF arr] in simp_all)
    then have "list_all one_value (map array_element (getlines r))"
      using "1.prems"(2) getlines_length [of _ r]
      by (auto simp: list_all_iff intro!: element_one_value) fastforce
    moreover have "getlines r \<noteq> []"
      using is_array_other(1) [OF arr] by (cases r) (auto split: list.split)
    ultimately show ?thesis
      using "1.prems"(2) length_getlines [of r] by (simp add: serialize_array_reply [OF arr] one_value)
  next
    case other
    then show ?thesis
      using "1.prems"
      by (subst serialize_response.simps)
        (auto simp: is_push_def unquote_def substr_def intro!: one_value split: option.split)
  qed
qed

section \<open>Properties\<close>

text \<open>
  C25. The server and its clients stay in step. Every text of a reply that holds no carriage return, and
  every quoted string whatever it holds, is sent as exactly as many RESP values as the reply has:
  one, and one per line for the reply to a subscription. A client that reads that many values has
  consumed the bytes of the reply and nothing of what follows.
\<close>

theorem reply_framing:
  assumes "CR \<notin> set r \<or> is_quoted r" and "int (length r) \<le> int_max"
  shows "\<exists>texts. parse_elements (serialize_response r @ t) (reply_values r) =
    Some (texts, length (serialize_response r)) \<and> length texts = reply_values r"
proof -
  have "\<exists>texts. parse_elements (serialize_response r @ t) (reply_values r) = Some (texts, length (serialize_response r))"
  proof (cases "is_push r")
    case True
    have "list_all one_value (map push_line (getlines r))"
      using assms(2) getlines_length [of _ r] by (auto simp: list_all_iff intro!: one_value) fastforce
    then show ?thesis
      using elements_one_value [of "map push_line (getlines r)" t] True
      by (simp add: serialize_push reply_values_def)
  next
    case False
    have "one_value (serialize_response r)"
    proof (cases "is_quoted r")
      case True
      then show ?thesis using assms(2) by (simp add: serialize_is_quoted unquote_def substr_def one_value)
    next
      case plain: False
      then show ?thesis using False assms by (intro serialize_one_value) auto
    qed
    then show ?thesis
      using elements_one_value [of "[serialize_response r]" t] False by (simp add: reply_values_def)
  qed
  then show ?thesis using parse_resp_value_bounds(2) by metis
qed

theorem reply_framing_witness:
  "reply_values (''subscribe a 1'' @ LF # ''subscribe b 2'') = 2 \<and>
   (\<exists>texts. parse_elements (serialize_response (''subscribe a 1'' @ LF # ''subscribe b 2'') @ ''+OK'') 2 =
     Some (texts, length (serialize_response (''subscribe a 1'' @ LF # ''subscribe b 2''))) \<and> length texts = 2)"
proof -
  have "reply_values (''subscribe a 1'' @ LF # ''subscribe b 2'') = 2"
    by (simp add: reply_values_def is_push_def starts_with_def)
  then show ?thesis
    using reply_framing [of "''subscribe a 1'' @ LF # ''subscribe b 2''" "''+OK''"] by (simp add: int_max_def)
qed

text \<open>
  The carriage return matters. The name of an unknown command is repeated in the error as it was
  sent, so a name with a line break splits the error into two values: the client shows a part of
  the error, and the rest of it as the reply to its next command.
\<close>

lemma error_reply_splits:
  assumes "CR \<notin> set a"
  shows "parse_resp_value (serialize_response
      (fst (execute_single os h \<lparr>cmd_name = a @ crlf @ b, cmd_args = args\<rparr> e)) @ t) =
    Some (''ERR unknown command '' @ [SQ] @ a, length (''-ERR unknown command '' @ [SQ] @ a @ crlf))"
proof -
  have "fst (execute_single os h \<lparr>cmd_name = n, cmd_args = args\<rparr> e) = ''ERR unknown command '' @ [SQ] @ n @ [SQ]"
    if "CR \<in> set n" for n
  proof -
    have "(n = m) = False" if "CR \<notin> set m" for m using \<open>CR \<in> set n\<close> that by blast
    then show ?thesis by (simp add: execute_single_def Let_def)
  qed
  from this [of "a @ crlf @ b"]
  have "fst (execute_single os h \<lparr>cmd_name = a @ crlf @ b, cmd_args = args\<rparr> e)
      = ''ERR unknown command '' @ [SQ] @ (a @ crlf @ b) @ [SQ]" by simp
  then have "serialize_response (fst (execute_single os h \<lparr>cmd_name = a @ crlf @ b, cmd_args = args\<rparr> e)) @ t
      = resp_error (''ERR unknown command '' @ [SQ] @ a) @ b @ [SQ] @ crlf @ t"
    using serialize_error [of "'' unknown command '' @ [SQ] @ (a @ crlf @ b) @ [SQ]"] by (simp add: resp_error_def)
  then show ?thesis
    using parse_line_reply(2) [of "''ERR unknown command '' @ [SQ] @ a" "b @ [SQ] @ crlf @ t"] assms
    by (simp add: resp_error_def)
qed

text \<open>
  The text of a reply does not determine its kind: \<open>PING\<close> with a message gives the message back, and it
  is sent as a null, an integer or an error when it looks like one. The reply to a transaction numbers
  the replies of its commands without indenting them, so that a list among them is taken apart.
\<close>

lemma ping_echo_confused:
  "serialize_response (handle_ping [''(nil)'']) = null_bulk_string"
  "serialize_response (handle_ping [''(integer) 5'']) = resp_integer 5"
  "serialize_response (handle_ping [''ERRATA'']) = resp_error ''ERRATA''"
proof -
  have "integer_text 5 = ''(integer) 5''" by code_simp
  then show "serialize_response (handle_ping [''(integer) 5'']) = resp_integer 5"
    using serialize_integer [of 5] by (simp add: handle_ping_def int64_range_def)
qed (use serialize_error [of "''ATA''"] in \<open>simp_all add: handle_ping_def serialize_nil\<close>)

lemma exec_flattens_lists:
  "serialize_response (numbered [list_reply [''a'', ''b''], ''OK'']) =
     resp_array [resp_array [bulk_string ''a''], bulk_string ''b'', simple_string ''OK'']"
proof -
  have n: "numbered [list_reply [''a'', ''b''], ''OK''] =
      ''1) 1) '' @ quoted ''a'' @ LF # ''2) '' @ quoted ''b'' @ LF # ''2) OK''" by code_simp
  have lines: "getlines (''1) 1) '' @ quoted ''a'' @ LF # ''2) '' @ quoted ''b'' @ LF # ''2) OK'') =
      [''1) 1) '' @ quoted ''a'', ''2) '' @ quoted ''b'', ''2) OK'']" by code_simp
  have one: "show_nat 1 = ''1''" "show_nat 2 = ''2''" by code_simp+
  have 1: "serialize_response (''1) '' @ quoted ''a'') = resp_array [bulk_string ''a'']"
    using serialize_list_reply [of "[''a'']"] one by (simp add: list_reply_def numbered_def)
  have "is_quoted (quoted ''b'')" "unquote (quoted ''b'') = ''b''"
    "\<not> is_quoted (''1) '' @ quoted ''a'')" "\<not> is_quoted ''OK''"
    by (simp_all add: is_quoted_def unquote_def quoted_def substr_def)
  then have "array_element (''1) 1) '' @ quoted ''a'') = resp_array [bulk_string ''a'']"
    "array_element (''2) '' @ quoted ''b'') = bulk_string ''b''" "array_element ''2) OK'' = simple_string ''OK''"
    using 1 array_element_numbered [of 1 "''1) '' @ quoted ''a''"] array_element_numbered [of 2 "quoted ''b''"]
      array_element_numbered [of 2 "''OK''"] one
    by (simp_all add: serialize_OK)
  moreover have "is_array_reply (''1) 1) '' @ s)" for s by (simp add: is_array_reply_def)
  ultimately show ?thesis
    unfolding n by (simp only: serialize_array_reply lines list.map)
qed

end
