(* ===== verification/Subscriptions.thy ===== *)
theory Subscriptions
  imports PubSub
begin

text \<open>
  What the publish/subscribe manager promises, as a machine on the set of subscriptions and the bytes each
  socket has received, and the proof that \<open>PubSubManager\<close> implements it.
\<close>

section \<open>The abstract manager\<close>

type_synonym subs = "(string \<times> socket_t) set"
type_synonym inboxes = "socket_t \<Rightarrow> string"

definition channels_in :: "subs \<Rightarrow> socket_t \<Rightarrow> string set" where
  "channels_in S s = {ch. (ch, s) \<in> S}"

lemma channels_in_simps [simp]:
  "channels_in {} s = {}"
  "channels_in (insert (ch, s') S) s = (if s' = s then insert ch (channels_in S s) else channels_in S s)"
  "channels_in (S - {(ch, s')}) s = (if s' = s then channels_in S s - {ch} else channels_in S s)"
  by (auto simp: channels_in_def)

text \<open>The replies name each channel with the number of channels the client then has.\<close>

fun join_replies :: "socket_t \<Rightarrow> string list \<Rightarrow> subs \<Rightarrow> (string \<times> int) list" where
  "join_replies s [] S = []"
| "join_replies s (ch # chs) S =
     (let S' = insert (ch, s) S in (ch, to_int32 (card (channels_in S' s))) # join_replies s chs S')"

fun leave_replies :: "socket_t \<Rightarrow> string list \<Rightarrow> subs \<Rightarrow> (string \<times> int) list" where
  "leave_replies s [] S = []"
| "leave_replies s (ch # chs) S =
     (let S' = S - {(ch, s)} in (ch, to_int32 (card (channels_in S' s))) # leave_replies s chs S')"

datatype ps_call = Join socket_t "string list" | Leave socket_t "string list" | Publish string string | Gone socket_t

text \<open>
  A message goes to the subscribers of its channel. Those to which it cannot be written as a whole, if any,
  lose the subscription.
\<close>

definition published :: "string \<Rightarrow> string \<Rightarrow> subs \<times> inboxes \<Rightarrow> (string \<times> int) list \<Rightarrow> subs \<times> inboxes \<Rightarrow> bool" where
  "published ch msg st rs st' \<longleftrightarrow>
     (let (S, inbox) = st; (S', inbox') = st'; got = {s. (ch, s) \<in> S'}; had = {s. (ch, s) \<in> S}; m = push_message ch msg
      in got \<subseteq> had \<and> S' = S - {ch} \<times> (had - got) \<and> rs = [(ch, int (card got))] \<and>
         (\<forall>s \<in> got. inbox' s = inbox s @ m) \<and> (\<forall>s \<in> had - got. \<exists>k < length m. inbox' s = inbox s @ take k m) \<and>
         (\<forall>s. s \<notin> had \<longrightarrow> inbox' s = inbox s))"

fun ps_means :: "ps_call \<Rightarrow> subs \<times> inboxes \<Rightarrow> (string \<times> int) list \<Rightarrow> subs \<times> inboxes \<Rightarrow> bool" where
  "ps_means (Join s chs) (S, inbox) rs st' \<longleftrightarrow> rs = join_replies s chs S \<and> st' = (S \<union> set chs \<times> {s}, inbox)"
| "ps_means (Leave s chs) (S, inbox) rs st' \<longleftrightarrow>
     (\<exists>cs. (if chs = [] then distinct cs \<and> set cs = channels_in S s else cs = chs) \<and>
        rs = (if cs = [] then [(''*'', 0)] else leave_replies s cs S) \<and> st' = (S - set cs \<times> {s}, inbox))"
| "ps_means (Publish ch msg) st rs st' \<longleftrightarrow> published ch msg st rs st'"
| "ps_means (Gone s) (S, inbox) rs st' \<longleftrightarrow> rs = [] \<and> st' = (S - UNIV \<times> {s}, inbox)"

fun ps_history :: "ps_call list \<Rightarrow> subs \<times> inboxes \<Rightarrow> (string \<times> int) list list \<Rightarrow> subs \<times> inboxes \<Rightarrow> bool" where
  "ps_history [] st rss st' \<longleftrightarrow> rss = [] \<and> st' = st"
| "ps_history (call # calls) st rss st' \<longleftrightarrow>
     (\<exists>rs rss' st1. rss = rs # rss' \<and> ps_means call st rs st1 \<and> ps_history calls st1 rss' st')"

lemma ps_history_snoc:
  "ps_history (calls @ [call]) st rss st' \<Longrightarrow> \<exists>rss1 st1 rs. ps_history calls st rss1 st1 \<and> ps_means call st1 rs st'"
proof (induction calls arbitrary: st rss)
  case (Cons c calls)
  then obtain rs rss' st1 where "ps_means c st rs st1" "ps_history (calls @ [call]) st1 rss' st'" by auto
  then show ?case using Cons.IH [of st1 rss'] by (metis ps_history.simps(2))
qed auto

text \<open>A client without subscriptions receives nothing until it joins a channel.\<close>

lemma ps_means_silent:
  assumes "ps_means call (S, inbox) rs (S', inbox')" and "channels_in S s = {}" and "\<forall>chs. call \<noteq> Join s chs"
  shows "channels_in S' s = {} \<and> inbox' s = inbox s"
  using assms by (cases call) (auto simp: channels_in_def published_def Let_def)

lemma ps_history_silent:
  "ps_history calls (S, inbox) rss (S', inbox') \<Longrightarrow> channels_in S s = {} \<Longrightarrow> \<forall>chs. Join s chs \<notin> set calls \<Longrightarrow>
   inbox' s = inbox s"
proof (induction calls arbitrary: S inbox rss)
  case (Cons call calls)
  then obtain rs rss' S1 inbox1 where "ps_means call (S, inbox) rs (S1, inbox1)" "ps_history calls (S1, inbox1) rss' (S', inbox')"
    by auto
  moreover from this(1) have "channels_in S1 s = {}" "inbox1 s = inbox s"
    using ps_means_silent [of call S inbox rs S1 inbox1 s] Cons.prems(2,3) by auto
  ultimately show ?case using Cons.IH [of S1 inbox1 rss'] Cons.prems(3) by simp
qed simp

section \<open>Implementations\<close>

text \<open>The calls of a manager in a row, with the network they write to.\<close>

fun ps_runs :: "(ps_call \<Rightarrow> 'm \<times> 'w \<Rightarrow> (string \<times> int) list \<times> 'm \<times> 'w) \<Rightarrow> ps_call list \<Rightarrow> 'm \<times> 'w
    \<Rightarrow> (string \<times> int) list list \<times> 'm \<times> 'w" where
  "ps_runs step [] st = ([], st)"
| "ps_runs step (call # calls) st =
     (let (rs, st1) = step call st; (rss, st2) = ps_runs step calls st1 in (rs # rss, st2))"

locale subscription_manager =
  fixes wf :: "'m \<Rightarrow> bool" and subs :: "'m \<Rightarrow> subs"
    and step :: "'w socket_write \<Rightarrow> ps_call \<Rightarrow> 'm \<times> 'w \<Rightarrow> (string \<times> int) list \<times> 'm \<times> 'w"
  assumes step_means: "wf m \<Longrightarrow> lawful_write sw sent \<Longrightarrow> step sw call (m, w) = (rs, m', w') \<Longrightarrow>
      wf m' \<and> ps_means call (subs m, sent w) rs (subs m', sent w')"
begin

lemma runs_history:
  assumes "lawful_write sw sent"
  shows "wf m \<Longrightarrow> ps_runs (step sw) calls (m, w) = (rss, m', w') \<Longrightarrow>
    wf m' \<and> ps_history calls (subs m, sent w) rss (subs m', sent w')"
proof (induction calls arbitrary: m w rss)
  case (Cons call calls)
  obtain rs m1 w1 where one: "step sw call (m, w) = (rs, m1, w1)" by (metis prod_cases3)
  obtain rss' where rest: "ps_runs (step sw) calls (m1, w1) = (rss', m', w')" "rss = rs # rss'"
    using Cons.prems(2) one by (auto split: prod.splits)
  show ?case using step_means [OF Cons.prems(1) assms one] Cons.IH [OF _ rest(1)] rest(2) by auto
qed simp

lemma silent_run:
  assumes "lawful_write sw sent" and "wf m" and "ps_runs (step sw) calls (m, w) = (rss, m', w')"
    and "channels_in (subs m) s = {}" and "\<forall>chs. Join s chs \<notin> set calls"
  shows "sent w' s = sent w s"
  using runs_history [OF assms(1-3)] ps_history_silent assms(4,5) by blast

end

section \<open>The manager of the server\<close>

definition subscriptions :: "PubSubManager \<Rightarrow> subs" where
  "subscriptions ps = {(ch, s). s \<in> set (subscribers ps ch)}"

fun ps_step :: "'w socket_write \<Rightarrow> ps_call \<Rightarrow> PubSubManager \<times> 'w \<Rightarrow> (string \<times> int) list \<times> PubSubManager \<times> 'w" where
  "ps_step sw (Join s chs) (ps, w) = (let (rs, ps') = subscribe s chs ps in (rs, ps', w))"
| "ps_step sw (Leave s chs) (ps, w) = (let (rs, ps') = unsubscribe s chs ps in (rs, ps', w))"
| "ps_step sw (Publish ch msg) (ps, w) = (let (n, ps', w') = publish sw ch msg ps w in ([(ch, n)], ps', w'))"
| "ps_step sw (Gone s) (ps, w) = ([], client_disconnected s ps, w)"

lemma subscriptions_blocks [simp]:
  "subscriptions (subscribe_one s ch ps) = insert (ch, s) (subscriptions ps)"
  "subscriptions (leave_channel s ch ps) = subscriptions ps - {(ch, s)}"
  "subscriptions (drop_channel s ch ps) = subscriptions ps"
  "subscriptions (erase_if_empty s ps) = subscriptions ps"
  by (auto simp: subscriptions_def set_insort_insert split: if_splits)

lemma channels_in_subscriptions:
  assumes "sets_ok ps" and "indices_agree ps"
  shows "channels_in (subscriptions ps) s = set (channels_of ps s)"
    and "card (channels_in (subscriptions ps) s) = length (channels_of ps s)"
proof -
  show "channels_in (subscriptions ps) s = set (channels_of ps s)"
    using assms by (auto simp: channels_in_def subscriptions_def indices_agree_def)
  then show "card (channels_in (subscriptions ps) s) = length (channels_of ps s)"
    using assms by (simp add: sets_ok_def distinct_card)
qed

lemma subscribe_refines:
  "pubsub_wf ps \<Longrightarrow> fst (subscribe s chs ps) = join_replies s chs (subscriptions ps) \<and>
   subscriptions (snd (subscribe s chs ps)) = subscriptions ps \<union> set chs \<times> {s}"
proof (induction chs arbitrary: ps)
  case (Cons ch chs)
  have wf: "pubsub_wf (subscribe_one s ch ps)" using subscribe_wf [OF Cons.prems, of s "[ch]"] by simp
  then have "length (channels_of (subscribe_one s ch ps) s) = card (channels_in (insert (ch, s) (subscriptions ps)) s)"
    using channels_in_subscriptions(2) [of "subscribe_one s ch ps" s] by (simp add: pubsub_wf_def)
  then show ?case using Cons.IH [OF wf] by (auto simp: Let_def split_beta)
qed simp

lemma unsubscribe_loop_refines:
  "unsub_inv s ps \<Longrightarrow> fst (unsubscribe_loop s chs ps) = leave_replies s chs (subscriptions ps) \<and>
   subscriptions (snd (unsubscribe_loop s chs ps)) = subscriptions ps - set chs \<times> {s}"
proof (induction chs arbitrary: ps)
  case (Cons ch chs)
  let ?ps = "drop_channel s ch (leave_channel s ch ps)"
  have inv: "unsub_inv s ?ps" by (rule unsub_step [OF Cons.prems])
  then have "length (channels_of ?ps s) = card (channels_in (subscriptions ps - {(ch, s)}) s)"
    using channels_in_subscriptions(2) [of ?ps s] by (simp add: unsub_inv_def)
  then show ?case using Cons.IH [OF inv] by (auto simp: Let_def split_beta)
qed simp

lemma unsubscribe_refines:
  assumes "pubsub_wf ps" and "unsubscribe s chs ps = (rs, ps')"
  shows "ps_means (Leave s chs) (subscriptions ps, inbox) rs (subscriptions ps', inbox)"
proof -
  define cs where "cs = (if chs = [] then channels_of ps s else chs)"
  have "unsub_inv s ps" using assms(1) by (auto simp: pubsub_wf_def unsub_inv_def no_empty_def)
  note loop = unsubscribe_loop_refines [OF this, of cs]
  have "unsubscribe s chs ps = (if cs = [] then ([(''*'', 0)], ps)
      else (fst (unsubscribe_loop s cs ps), erase_if_empty s (snd (unsubscribe_loop s cs ps))))"
    by (simp add: unsubscribe_def Let_def split_beta cs_def)
  then have "rs = (if cs = [] then [(''*'', 0)] else leave_replies s cs (subscriptions ps))"
    "subscriptions ps' = subscriptions ps - set cs \<times> {s}"
    using assms(2) loop by (cases "cs = []"; simp)+
  moreover have "set (channels_of ps s) = channels_in (subscriptions ps) s" "distinct (channels_of ps s)"
    using assms(1) channels_in_subscriptions(1) [of ps s] by (simp_all add: pubsub_wf_def sets_ok_def)
  then have "if chs = [] then distinct cs \<and> set cs = channels_in (subscriptions ps) s else cs = chs"
    by (simp add: cs_def)
  ultimately show ?thesis unfolding ps_means.simps by (intro exI [of _ cs]) simp
qed

lemma publish_refines:
  assumes "pubsub_wf ps" and "lawful_write sw sent" and "publish sw ch msg ps w = (n, ps', w')"
  shows "published ch msg (subscriptions ps, sent w) [(ch, n)] (subscriptions ps', sent w')"
proof -
  have wf: "pubsub_wf ps'" using publish_wf [OF assms(1), of sw ch msg w] assms(3) by simp
  have sub: "{s. (ch, s) \<in> subscriptions p} = set (subscribers p ch)" for p by (simp add: subscriptions_def)
  have "subscribers ps' c = subscribers ps c" if "c \<noteq> ch" for c
    using publish_subscribers [OF assms(3)] that by (metis fun_upd_other prod_cases3)
  moreover have "set (subscribers ps' ch) \<subseteq> set (subscribers ps ch)" using publish_spec [OF assms] by simp
  ultimately have "(c, s) \<in> subscriptions ps' \<longleftrightarrow>
      (c, s) \<in> subscriptions ps - {ch} \<times> (set (subscribers ps ch) - set (subscribers ps' ch))" for c s
    by (cases "c = ch") (auto simp: subscriptions_def)
  then have "subscriptions ps' = subscriptions ps - {ch} \<times> (set (subscribers ps ch) - set (subscribers ps' ch))"
    by auto
  moreover have "card (set (subscribers ps' ch)) = length (subscribers ps' ch)"
    using wf by (simp add: pubsub_wf_def sets_ok_def distinct_card)
  ultimately show ?thesis
    using publish_spec [OF assms] unfolding published_def Let_def prod.case sub by simp
qed

interpretation psm: subscription_manager pubsub_wf subscriptions ps_step
proof unfold_locales
  fix m m' :: PubSubManager and sw :: "'a socket_write" and sent :: "'a \<Rightarrow> inboxes" and call rs w w'
  assume wf: "pubsub_wf m" and law: "lawful_write sw sent" and run: "ps_step sw call (m, w) = (rs, m', w')"
  show "pubsub_wf m' \<and> ps_means call (subscriptions m, sent w) rs (subscriptions m', sent w')"
  proof (cases call)
    case (Join s chs)
    then show ?thesis
      using run subscribe_wf [OF wf, of s chs] subscribe_refines [OF wf, of s chs] by (auto split: prod.splits)
  next
    case (Leave s chs)
    then show ?thesis
      using run unsubscribe_wf [OF wf, of s chs] unsubscribe_refines [OF wf, of s chs rs m']
      by (auto split: prod.splits simp del: ps_means.simps)
  next
    case (Publish ch msg)
    then show ?thesis
      using run publish_wf [OF wf, of sw ch msg w] publish_refines [OF wf law, of ch msg w]
      by (auto split: prod.splits)
  next
    case (Gone s)
    have "subscriptions (client_disconnected s m) = subscriptions m - UNIV \<times> {s}"
      by (auto simp: subscriptions_def client_disconnected_subs [OF wf])
    then show ?thesis using run Gone client_disconnected_wf [OF wf, of s] by auto
  qed
qed

text \<open>The two counters count channels and subscriptions.\<close>

lemma active_channel_count_card:
  assumes "pubsub_wf ps"
  shows "active_channel_count ps = card (fst ` subscriptions ps)"
proof -
  have "fst ` subscriptions ps = {ch. subscribers ps ch \<noteq> []}"
    by (auto simp: subscriptions_def image_iff) (metis list.set_sel(1))
  also have "\<dots> = set (um_keys (channels ps))"
    using assms by (auto simp: pubsub_wf_def no_empty_def subscribers_def dom_def split: option.splits)
  also have "card \<dots> = length (channels ps)"
    using assms by (simp add: pubsub_wf_def sets_ok_def um_wf_def distinct_card del: set_um_keys) (simp add: um_keys_def)
  finally show ?thesis by (simp add: active_channel_count_def)
qed

lemma foldl_lengths: "foldl (\<lambda>total e. total + length (snd e)) n m = n + sum_list (map (\<lambda>e. length (snd e)) m)"
  by (induction m arbitrary: n) simp_all

lemma total_subscription_count_card:
  assumes "pubsub_wf ps"
  shows "total_subscription_count ps = card (subscriptions ps)"
proof -
  let ?m = "client_channels ps"
  have wf: "um_wf ?m" "sets_ok ps" "indices_agree ps" using assms by (simp_all add: pubsub_wf_def sets_ok_def)
  have entry: "channels_of ps s = chs" if "(s, chs) \<in> set ?m" for s chs
    using that wf(1) by (simp add: channels_of_def um_find_def um_wf_def um_keys_def)
  have key: "s \<in> set (um_keys ?m)" if "ch \<in> set (channels_of ps s)" for s ch
    using that by (cases "um_find ?m s") (auto simp: channels_of_def)
  have "subscriptions ps = prod.swap ` (SIGMA s:set (um_keys ?m). set (channels_of ps s))"
    using wf(3) key by (auto simp: subscriptions_def indices_agree_def image_iff simp del: set_um_keys)
  then have "card (subscriptions ps) = card (SIGMA s:set (um_keys ?m). set (channels_of ps s))"
    by (simp add: card_image)
  also have "\<dots> = (\<Sum>s\<in>set (um_keys ?m). length (channels_of ps s))"
    using wf(2) by (simp add: card_SigmaI sets_ok_def distinct_card del: set_um_keys)
  also have "\<dots> = sum_list (map (\<lambda>s. length (channels_of ps s)) (um_keys ?m))"
    using wf(1) by (simp add: sum_list_distinct_conv_sum_set um_wf_def del: set_um_keys)
  also have "\<dots> = sum_list (map (\<lambda>e. length (snd e)) ?m)"
    using entry by (auto simp: um_keys_def comp_def intro!: arg_cong [where f = sum_list])
  finally show ?thesis by (simp add: total_subscription_count_def foldl_lengths)
qed

section \<open>Properties\<close>

text \<open>
  C22. The publish/subscribe manager implements the abstract one. For every history of subscriptions,
  unsubscriptions, messages and disconnections on a fresh manager, with sockets that take any part of
  what is written, the replies, the subscriptions at the end and the bytes received by every client are
  those of the machine on the set of subscriptions; the two indices agree at the end, and the queries
  tell what the set holds.
\<close>

theorem pubsub_refines:
  assumes "lawful_write sw sent" and "ps_runs (ps_step sw) calls (new_pubsub, w) = (rss, ps', w')"
  shows "ps_history calls ({}, sent w) rss (subscriptions ps', sent w') \<and> pubsub_wf ps' \<and>
    (\<forall>s. is_subscribed s ps' \<longleftrightarrow> channels_in (subscriptions ps') s \<noteq> {}) \<and>
    active_channel_count ps' = card (fst ` subscriptions ps') \<and>
    total_subscription_count ps' = card (subscriptions ps')"
proof -
  have "pubsub_wf ps'" "ps_history calls (subscriptions new_pubsub, sent w) rss (subscriptions ps', sent w')"
    using psm.runs_history [OF assms(1) pubsub_wf_new assms(2)] by simp_all
  moreover have "subscriptions new_pubsub = {}" by (simp add: subscriptions_def)
  moreover have "is_subscribed s ps' \<longleftrightarrow> channels_in (subscriptions ps') s \<noteq> {}" for s
    using channels_in_subscriptions(1) [of ps' s] calculation(1) by (simp add: is_subscribed_iff pubsub_wf_def)
  ultimately show ?thesis
    using active_channel_count_card total_subscription_count_card by simp
qed

theorem pubsub_refines_witness:
  "let (rss, ps, w) = ps_runs (ps_step log_write) [Join 4 [''a'', ''b''], Leave 4 [''a'']] (new_pubsub, \<lambda>_. [])
   in rss = [[(''a'', 1), (''b'', 2)], [(''a'', 1)]] \<and> is_subscribed 4 ps \<and> total_subscription_count ps = 1"
proof -
  obtain rss ps w where run: "ps_runs (ps_step log_write) [Join 4 [''a'', ''b''], Leave 4 [''a'']] (new_pubsub, \<lambda>_. []) = (rss, ps, w)"
    by (metis prod_cases3)
  have num: "cast_int32 1 = 1" "cast_int32 2 = 2" by code_simp+
  from pubsub_refines [OF lawful_log_write run] show ?thesis
    unfolding run by (auto simp: Let_def num)
qed

text \<open>
  C23. A client that has unsubscribed from everything, or has gone, hears nothing: whatever happened before
  and whatever the others do, no byte of a message is written to its socket until it subscribes again.
\<close>

theorem silent_after_leaving:
  assumes "lawful_write sw sent" and "leaving = Leave s [] \<or> leaving = Gone s"
    and "ps_runs (ps_step sw) (before @ [leaving]) (new_pubsub, w) = (rss1, ps1, w1)"
    and "\<forall>chs. Join s chs \<notin> set after" and "ps_runs (ps_step sw) after (ps1, w1) = (rss2, ps2, w2)"
  shows "sent w2 s = sent w1 s"
proof -
  have wf: "pubsub_wf ps1"
    and "ps_history (before @ [leaving]) (subscriptions new_pubsub, sent w) rss1 (subscriptions ps1, sent w1)"
    using psm.runs_history [OF assms(1) pubsub_wf_new assms(3)] by simp_all
  from ps_history_snoc [OF this(2)] obtain S inbox rs where "ps_means leaving (S, inbox) rs (subscriptions ps1, sent w1)"
    by auto
  then have "channels_in (subscriptions ps1) s = {}" using assms(2) by (auto simp: channels_in_def)
  then show ?thesis by (rule psm.silent_run [OF assms(1) wf assms(5) _ assms(4)])
qed

theorem silent_after_leaving_witness:
  "let (rss1, ps1, w1) = ps_runs (ps_step log_write) ([Join 4 [''a''], Publish ''a'' ''x''] @ [Leave 4 []]) (new_pubsub, \<lambda>_. []);
       (rss2, ps2, w2) = ps_runs (ps_step log_write) [Join 5 [''a''], Publish ''a'' ''y''] (ps1, w1)
   in w2 4 = w1 4"
proof -
  obtain rss1 ps1 w1 where 1: "ps_runs (ps_step log_write) ([Join 4 [''a''], Publish ''a'' ''x''] @ [Leave 4 []])
      (new_pubsub, \<lambda>_. []) = (rss1, ps1, w1)"
    by (metis prod_cases3)
  obtain rss2 ps2 w2 where 2: "ps_runs (ps_step log_write) [Join 5 [''a''], Publish ''a'' ''y''] (ps1, w1) = (rss2, ps2, w2)"
    by (metis prod_cases3)
  have "w2 4 = w1 4" by (rule silent_after_leaving [OF lawful_log_write _ 1 _ 2]) simp_all
  then show ?thesis unfolding 1 Let_def prod.case 2 .
qed

end
