(* ===== verification/Rounds.thy ===== *)
theory Rounds
  imports Streams
begin

text \<open>
  One round of the event loop seen from one client: whatever the other clients send in the same round,
  a client whose command has arrived is answered in it.
\<close>

section \<open>A client during a round\<close>

text \<open>The client is connected, may issue commands, is subscribed to nothing and has received \<open>bytes\<close>.\<close>

definition waiting :: "('w \<Rightarrow> socket_t \<Rightarrow> string) \<Rightarrow> socket_t \<Rightarrow> ClientState \<Rightarrow> string \<Rightarrow> 'w server \<Rightarrow> bool" where
  "waiting out c st bytes srv \<longleftrightarrow> srv_inv srv \<and> um_find (clients srv) c = Some st \<and>
     (password srv = [] \<or> authenticated st) \<and> \<not> is_subscribed c (env_ps (srv_env srv)) \<and>
     out (env_net (srv_env srv)) c = bytes"

lemma process_other:
  assumes "lawful_write (os_write os) out" and "waiting out c st bytes srv" and "fd \<noteq> c"
  shows "waiting out c st bytes (snd (process_client os r fd srv))"
proof -
  obtain keep srv' where run: "process_client os r fd srv = (keep, srv')" by force
  have inv: "srv_inv srv" using assms(2) by (simp add: waiting_def)
  show ?thesis
    using process_client_others [OF assms(1) inv _ run, of c] process_client_inv [OF inv, of os r fd] assms(2,3) run
    by (auto simp: waiting_def is_subscribed_iff)
qed

lemma serve_others:
  assumes "lawful_write (os_write os) out" and "c \<notin> set fds" and "waiting out c st bytes srv"
  shows "waiting out c st bytes (snd (serve_ready os rd i fds srv))"
  using assms(2,3)
proof (induction fds arbitrary: i srv)
  case (Cons fd fds)
  have "waiting out c st bytes (snd (process_client (sub_os os i) r fd srv))" for r
    using assms(1) Cons.prems by (intro process_other) (simp_all add: sub_os_def)
  then show ?case
    using Cons by (auto simp: split_beta Let_def split: option.split)
qed simp

lemma serve_ready_dropped: "set (fst (serve_ready os rd i fds srv)) \<subseteq> set fds"
proof (induction fds arbitrary: i srv)
  case (Cons fd fds)
  show ?case
  proof (cases "rd fd")
    case None
    then show ?thesis using Cons [of "Suc i" srv] by auto
  next
    case (Some r)
    then show ?thesis using Cons [of "Suc i" "snd (process_client (sub_os os i) r fd srv)"] by (auto simp: split_beta Let_def)
  qed
qed simp

lemma disconnect_others:
  assumes "\<And>s w. out (os_close os s w) = out w" and "c \<notin> set fds" and "waiting out c st bytes srv"
  shows "waiting out c st bytes (fold (disconnect_client os) fds srv)"
  using assms(2,3)
proof (induction fds arbitrary: srv)
  case (Cons fd fds)
  have inv: "srv_inv srv" "pubsub_wf (env_ps (srv_env srv))" using Cons.prems(2) by (simp_all add: waiting_def srv_inv_def env_inv_def)
  have "waiting out c st bytes (disconnect_client os fd srv)"
    using Cons.prems disconnect_client_inv [OF inv(1), of os fd] client_disconnected_subs(2) [OF inv(2), of fd]
    by (auto simp: waiting_def disconnect_client_def Let_def is_subscribed_iff assms(1))
  then show ?case using Cons by simp
qed simp

lemma request_frame:
  assumes "request_of cmd = Some req"
  shows "env_ps (snd (execute_single os h cmd e)) = env_ps e" and "env_net (snd (execute_single os h cmd e)) = env_net e"
proof -
  have "cmd_name cmd \<in> set (map fst requests)"
    using assms by (force simp: request_of_def dest: map_of_SomeD)
  then show "env_ps (snd (execute_single os h cmd e)) = env_ps e" "env_net (snd (execute_single os h cmd e)) = env_net e"
    by (auto simp: requests_def execute_single_def on_db_def split_beta Let_def)
qed

text \<open>The client's own turn: the read that completes its command.\<close>

lemma process_own:
  assumes "lawful_write (os_write os) out" and "\<And>data w. fst (write_loop (os_write os) c data w)"
    and "waiting out c st bytes srv" and "one_command (read_buffer st @ b) cmd" and "piece b"
    and "request_of cmd = Some req"
  shows "\<exists>srv'. process_client os (ReadBytes b) c srv = (True, srv') \<and>
    waiting out c (st\<lparr>read_buffer := []\<rparr>) (bytes @ serialize_response (fst (execute_single (sub_os os 0)
      (set_server (client_info c srv) (new_handler c)) cmd (srv_env srv)))) srv'"
proof -
  let ?e = "srv_env srv" and ?info = "client_info c srv"
  have w: "srv_inv srv" "client_of c srv = st" "password srv = [] \<or> authenticated st" "\<not> is_subscribed c (env_ps ?e)"
    "out (env_net ?e) c = bytes"
    using assms(3) by (simp_all add: waiting_def client_of_def)
  obtain r e1 where run: "execute_single (sub_os os 0) (set_server ?info (new_handler c)) cmd ?e = (r, e1)" by force
  have same: "env_ps e1 = env_ps ?e" "env_net e1 = env_net ?e" using request_frame [OF assms(6)] run by (metis snd_conv)+
  obtain e2 where snt: "send os c (serialize_response r) e1 = (True, e2)"
    using assms(2) by (force simp: send_def send_response_def resp_write_exact_def split_beta)
  note sends = send_sends [OF assms(1) snt]
  have "serve_all os 0 ?info (password srv) c [cmd] st ?e = (True, st, e2)"
    using answer_performs [OF w(3,4) assms(6)] run snt request_names [OF assms(6)] by simp
  from process_bytes_eq [of os c srv b] one_command_served [OF assms(4) this] w(2)
  have "process_bytes os b c srv = (True, srv\<lparr>clients := um_put c (st\<lparr>read_buffer := []\<rparr>) (clients srv), srv_env := e2\<rparr>)"
    (is "_ = (True, ?srv)") by simp
  then have pc: "process_client os (ReadBytes b) c srv = (True, ?srv)"
    using assms(5) by (simp add: piece_def process_client_read)
  have "srv_inv ?srv" using process_client_inv [OF w(1), of os "ReadBytes b" c] pc by simp
  then have "waiting out c (st\<lparr>read_buffer := []\<rparr>) (bytes @ serialize_response r) ?srv"
    using w sends same by (simp add: waiting_def)
  then show ?thesis using pc run by simp
qed

section \<open>The round\<close>

lemma serve_ready_append:
  "serve_ready os rd i (xs @ ys) srv =
     (case serve_ready os rd i xs srv of
        (d1, srv1) \<Rightarrow> case serve_ready os rd (i + length xs) ys srv1 of (d2, srv2) \<Rightarrow> (d1 @ d2, srv2))"
proof (induction xs arbitrary: i srv)
  case (Cons fd xs)
  show ?case
  proof (cases "rd fd")
    case None
    then show ?thesis using Cons [of "Suc i" srv] by simp
  next
    case (Some r)
    then show ?thesis
      using Cons [of "Suc i" "snd (process_client (sub_os os i) r fd srv)"] by (simp add: split_beta Let_def)
  qed
qed simp

text \<open>
  The place of a client in a round and the server that its turn finds, when the clients before it have been
  served.
\<close>

definition turn :: "'w os \<Rightarrow> (socket_t \<times> sockaddr_in) option \<Rightarrow> (socket_t \<Rightarrow> read_result option) \<Rightarrow> socket_t \<Rightarrow> 'w server
    \<Rightarrow> nat \<times> 'w server" where
  "turn os accepted rd c srv =
     (let srv1 = (case accepted of None \<Rightarrow> srv | Some (fd, peer) \<Rightarrow> accept_client os fd peer srv);
          earlier = takeWhile (\<lambda>fd. fd \<noteq> c) (um_keys (clients srv1))
      in (length earlier,
          snd (serve_ready os (\<lambda>fd. if fd \<in> set (select_fds srv) then rd fd else None) 0 earlier srv1)))"

lemma split_at:
  assumes "c \<in> set fds" and "distinct fds"
  obtains ys where "fds = takeWhile (\<lambda>fd. fd \<noteq> c) fds @ c # ys" and "c \<notin> set (takeWhile (\<lambda>fd. fd \<noteq> c) fds)" and "c \<notin> set ys"
proof -
  obtain xs ys where fds: "fds = xs @ c # ys" "c \<notin> set xs" using split_list_first [OF assms(1)] by blast
  then have "takeWhile (\<lambda>fd. fd \<noteq> c) fds = xs" unfolding fds(1) by (subst takeWhile_append2) auto
  with that fds assms(2) show thesis by simp
qed

section \<open>Properties\<close>

text \<open>
  C7. A command is answered in the round in which its last bytes are read. Whatever the other clients send and
  whoever connects in the same round, a client whose pending bytes are completed by a read (of at most 4096 bytes) to a
  command on the data, in RESP or inline form, who may issue it, is subscribed to nothing and takes what is written to it,
  stays connected and receives exactly one reply in that round: the reply of the command handler in the state
  that its turn finds. So the loop never makes it wait for another client.
\<close>

theorem ready_client_answered:
  assumes "lawful_write (os_write os) out" and "\<And>data w. fst (write_loop (os_write os) c data w)"
    and "\<And>s w. out (os_close os s w) = out w" and "srv_inv srv" and "um_find (clients srv) c = Some st"
    and "password srv = [] \<or> authenticated st" and "\<not> is_subscribed c (env_ps (srv_env srv))"
    and "one_command (read_buffer st @ b) cmd" and "piece b" and "request_of cmd \<noteq> None"
    and "rd c = Some (ReadBytes b)" and "map_option fst accepted \<noteq> Some c"
    and "loop_round os (Ready accepted rd) srv = (go, srv')" and "turn os accepted rd c srv = (i, srv1)"
  shows "go \<and> um_find (clients srv') c = Some (st\<lparr>read_buffer := []\<rparr>) \<and>
    out (env_net (srv_env srv')) c = out (env_net (srv_env srv)) c @ serialize_response
      (fst (execute_single (sub_os (sub_os os i) 0) (set_server (client_info c srv1) (new_handler c)) cmd (srv_env srv1)))"
proof -
  let ?srv = "case accepted of None \<Rightarrow> srv | Some (fd, peer) \<Rightarrow> accept_client os fd peer srv"
  let ?rd = "\<lambda>fd. if fd \<in> set (select_fds srv) then rd fd else None"
  let ?run = "serve_ready os ?rd 0 (um_keys (clients ?srv)) ?srv"
  let ?bytes = "out (env_net (srv_env srv)) c"
  let ?reply = "fst (execute_single (sub_os (sub_os os i) 0) (set_server (client_info c srv1) (new_handler c)) cmd (srv_env srv1))"
  have wait: "waiting out c st ?bytes ?srv"
    using assms(4-7,12)
    by (auto simp: waiting_def accept_client_inv split: option.split) (simp_all add: accept_client_def)
  then have keys: "c \<in> set (um_keys (clients ?srv))" "distinct (um_keys (clients ?srv))"
    by (auto simp: waiting_def srv_inv_def um_wf_def)
  let ?xs = "takeWhile (\<lambda>fd. fd \<noteq> c) (um_keys (clients ?srv))"
  obtain ys where ys: "um_keys (clients ?srv) = ?xs @ c # ys" "c \<notin> set ?xs" "c \<notin> set ys" by (rule split_at [OF keys])
  have turn: "i = length ?xs" "srv1 = snd (serve_ready os ?rd 0 ?xs ?srv)"
    using assms(14) by (simp_all add: turn_def Let_def)
  have wait1: "waiting out c st ?bytes srv1" unfolding turn(2) by (rule serve_others [OF assms(1) ys(2) wait])
  obtain req where "request_of cmd = Some req" using assms(10) by blast
  with process_own [of "sub_os os i" out c st ?bytes srv1 b cmd] assms(1,2,8,9) wait1
  obtain srv2 where own: "process_client (sub_os os i) (ReadBytes b) c srv1 = (True, srv2)"
    "waiting out c (st\<lparr>read_buffer := []\<rparr>) (?bytes @ serialize_response ?reply) srv2"
    by (auto simp: sub_os_def)
  have rd: "?rd c = Some (ReadBytes b)" using assms(5,11) by (auto simp: select_fds_def)
  have run: "?run = (fst (serve_ready os ?rd 0 ?xs ?srv) @ fst (serve_ready os ?rd (Suc i) ys srv2),
      snd (serve_ready os ?rd (Suc i) ys srv2))"
    using rd own(1) serve_ready_append [of os ?rd 0 ?xs "c # ys" ?srv] turn
    by (subst ys(1)) (simp add: split_beta Let_def)
  have "c \<notin> set (fst ?run)"
    using ys(2,3) serve_ready_dropped [of os ?rd 0 ?xs ?srv] serve_ready_dropped [of os ?rd "Suc i" ys srv2]
    unfolding run by auto
  moreover have "waiting out c (st\<lparr>read_buffer := []\<rparr>) (?bytes @ serialize_response ?reply) (snd ?run)"
    unfolding run snd_conv by (rule serve_others [OF assms(1) ys(3) own(2)])
  ultimately have "waiting out c (st\<lparr>read_buffer := []\<rparr>) (?bytes @ serialize_response ?reply)
      (fold (disconnect_client os) (fst ?run) (snd ?run))"
    by (rule disconnect_others [OF assms(3)])
  moreover have "go" "srv' = fold (disconnect_client os) (fst ?run) (snd ?run)"
    using assms(13) by (simp_all add: loop_round_def Let_def split_beta)
  ultimately show ?thesis by (simp add: waiting_def)
qed

theorem ready_client_answered_witness:
  "let srv = (new_server [] 6399 start_env)\<lparr>clients := [(7, new_client []), (8, new_client []\<lparr>read_buffer := ''*2''\<rparr>)]\<rparr>;
       rd = (\<lambda>_. None)(7 := Some (ReadBytes (wire [''SET'', ''k'', ''v''])), 8 := Some (ReadBytes (drop 2 (wire [''GET'', ''k'']))));
       srv' = snd (loop_round (still_os 0) (Ready (Some (9, local_peer)) rd) srv);
       (i, srv1) = turn (still_os 0) (Some (9, local_peer)) rd 8 srv
   in um_find (clients srv') 8 = Some (new_client []) \<and>
      env_net (srv_env srv') 8 = serialize_response (fst (execute_single (sub_os (sub_os (still_os 0) i) 0)
        (set_server (client_info 8 srv1) (new_handler 8)) (make_command [''GET'', ''k'']) (srv_env srv1)))"
proof -
  let ?st = "new_client []\<lparr>read_buffer := ''*2''\<rparr>"
  let ?srv = "(new_server [] 6399 start_env)\<lparr>clients := [(7, new_client []), (8, ?st)]\<rparr>"
  let ?b = "drop 2 (wire [''GET'', ''k''])"
  let ?rd = "(\<lambda>_. None)(7 := Some (ReadBytes (wire [''SET'', ''k'', ''v''])), 8 := Some (ReadBytes ?b))"
  obtain go srv' where run: "loop_round (still_os 0) (Ready (Some (9, local_peer)) ?rd) ?srv = (go, srv')" by force
  obtain i srv1 where turn: "turn (still_os 0) (Some (9, local_peer)) ?rd 8 ?srv = (i, srv1)" by force
  have "take 2 (wire [''GET'', ''k'']) = ''*2''" by code_simp
  then have "''*2'' @ ?b = wire [''GET'', ''k'']" by (metis append_take_drop_id)
  then have whole: "one_command (read_buffer ?st @ ?b) (make_command [''GET'', ''k''])"
    using one_command_wire [of "[''GET'', ''k'']"] by (simp add: wire_words_def int_max_def)
  have "length ?b = 18" by code_simp
  then have piece: "piece ?b" by (auto simp: piece_def READ_SIZE_def)
  have "upper ''GET'' = ''GET''" by code_simp
  then have req: "request_of (make_command [''GET'', ''k'']) \<noteq> None"
    by (simp add: make_command_def request_of_def requests_def)
  have "env_inv start_env" "channels_of (env_ps start_env) = (\<lambda>_. [])"
    using pubsub_wf_new by (simp_all add: start_env_def env_inv_def db_inv_new fun_eq_iff)
  then have inv: "srv_inv ?srv" by (simp add: srv_inv_def new_server_def um_wf_def um_keys_def)
  have client: "um_find (clients ?srv) 8 = Some ?st"
    "password ?srv = [] \<or> authenticated ?st" "\<not> is_subscribed 8 (env_ps (srv_env ?srv))"
    "env_net (srv_env ?srv) 8 = []"
    by (simp_all add: um_find_def new_server_def start_env_def is_subscribed_def new_pubsub_def)
  have os: "lawful_write (os_write (still_os 0)) (\<lambda>w. w)" "fst (write_loop (os_write (still_os 0)) 8 data w)"
    "os_close (still_os 0) s w = w" for s data w
    by (simp_all add: still_os_def lawful_log_write write_loop_log)
  have "?st\<lparr>read_buffer := []\<rparr> = new_client []" by (simp add: new_client_def)
  then have "um_find (clients srv') 8 = Some (new_client []) \<and>
      env_net (srv_env srv') 8 = serialize_response (fst (execute_single (sub_os (sub_os (still_os 0) i) 0)
        (set_server (client_info 8 srv1) (new_handler 8)) (make_command [''GET'', ''k'']) (srv_env srv1)))"
    using ready_client_answered [OF os inv client(1-3) whole piece req _ _ run turn] client(4) by simp
  then show ?thesis unfolding Let_def run turn snd_conv split_conv .
qed

end
