(* ===== verification/Protocol.thy ===== *)
theory Protocol
  imports Platform Persistence
begin

text \<open>
  The length-prefixed framing of \<open>include/protocol/protocol.h\<close> and \<open>src/protocol/protocol.cpp\<close>, over
  sockets that may take or deliver a message in pieces.
\<close>

text \<open>
  \<open>htonl\<close> followed by copying the four bytes of the result puts the most significant byte first.
\<close>

definition encode :: "string \<Rightarrow> string" where
  "encode message = write_uint32 (word_of_nat (length message)) @ message"

definition read_exact :: "'w socket_read \<Rightarrow> socket_t \<Rightarrow> nat \<Rightarrow> 'w \<Rightarrow> string option \<times> 'w" where
  "read_exact sr sock n w = read_loop sr sock n w"

definition write_exact :: "'w socket_write \<Rightarrow> socket_t \<Rightarrow> string \<Rightarrow> 'w \<Rightarrow> bool \<times> 'w" where
  "write_exact sw sock data w = write_loop sw sock data w"

definition MAX_MESSAGE :: nat where
  "MAX_MESSAGE = 64 * 1024 * 1024"

text \<open>\<^term>\<open>None\<close> stands for \<open>ok = false\<close>.\<close>

definition read_message :: "'w socket_read \<Rightarrow> socket_t \<Rightarrow> 'w \<Rightarrow> string option \<times> 'w" where
  "read_message sr sock w =
     (case read_exact sr sock 4 w of
        (None, w1) \<Rightarrow> (None, w1)
      | (Some header, w1) \<Rightarrow>
          (case read_uint32 header of
             None \<Rightarrow> (None, w1)
           | Some (len, _) \<Rightarrow>
               (if unat len > MAX_MESSAGE then (None, w1) else read_exact sr sock (unat len) w1)))"

definition send_message :: "'w socket_write \<Rightarrow> socket_t \<Rightarrow> string \<Rightarrow> 'w \<Rightarrow> bool \<times> 'w" where
  "send_message sw sock message w = write_exact sw sock (encode message) w"

lemma header_length:
  "length m \<le> MAX_MESSAGE \<Longrightarrow> unat (word_of_nat (length m) :: 32 word) = length m"
  by (intro unat_length32) (simp add: fits32_def MAX_MESSAGE_def)

lemma read_message_frame:
  assumes law: "lawful_read sr pending" and "pending w sock = encode m @ rest"
    and small: "length m \<le> MAX_MESSAGE"
  shows "\<exists>w'. read_message sr sock w = (Some m, w') \<and> pending w' sock = rest"
proof -
  let ?h = "write_uint32 (word_of_nat (length m))"
  have pend: "pending w sock = ?h @ m @ rest" using assms(2) by (simp add: encode_def)
  obtain w1 where r1: "read_loop sr sock 4 w = (Some ?h, w1)" "pending w1 sock = m @ rest"
    using read_loop_receives [OF law, of 4 w sock] pend by (auto simp: len_simps)
  obtain w2 where r2: "read_loop sr sock (length m) w1 = (Some m, w2)" "pending w2 sock = rest"
    using read_loop_receives [OF law, of "length m" w1 sock] r1(2) by auto
  have "read_uint32 ?h = Some (word_of_nat (length m), [])"
    using u32.dec_enc [of "word_of_nat (length m)" "[]"] by simp
  then show ?thesis
    using r1(1) r2 small by (simp add: read_message_def read_exact_def header_length)
qed

text \<open>
  A header that announces more than 64 MiB is refused without reading the payload.
\<close>

lemma oversized_message_refused:
  assumes "lawful_read sr pending" and "pending w sock = write_uint32 len @ rest" and "MAX_MESSAGE < unat len"
  shows "\<exists>w'. read_message sr sock w = (None, w') \<and> pending w' sock = rest"
proof -
  obtain w1 where "read_loop sr sock 4 w = (Some (write_uint32 len), w1)" "pending w1 sock = rest"
    using read_loop_receives [OF assms(1), of 4 w sock] assms(2) by (auto simp: len_simps)
  moreover have "read_uint32 (write_uint32 len) = Some (len, [])"
    using u32.dec_enc [of len "[]"] by simp
  ultimately show ?thesis
    using assms(3) by (simp add: read_message_def read_exact_def)
qed

section \<open>Properties\<close>

text \<open>
  C35. A message of at most 64 MiB sent with its length prefix is read back whole, however the socket cuts it into
  pieces, and nothing of what follows is consumed; a longer message, up to the 4 GiB that the prefix can say, is
  sent all the same, but the reader refuses it after the prefix. In both cases the bytes sent are those expected.
\<close>

theorem framing_roundtrip:
  assumes "lawful_write sw sent" and "send_message sw sock m w = (True, w')"
    and "lawful_read sr pending" and "pending v sock = encode m @ rest" and "length m < 2 ^ 32"
  shows "sent w' sock = sent w sock @ encode m \<and>
    (\<exists>v'. if length m \<le> MAX_MESSAGE then read_message sr sock v = (Some m, v') \<and> pending v' sock = rest
          else read_message sr sock v = (None, v') \<and> pending v' sock = m @ rest)"
proof -
  obtain k where "sent w' = (sent w)(sock := sent w sock @ take k (encode m))" "length (encode m) \<le> k"
    using write_loop_sends [OF assms(1), of sock "encode m" w True w'] assms(2)
    by (auto simp: send_message_def write_exact_def)
  moreover have "unat (word_of_nat (length m) :: 32 word) = length m"
    using assms(5) by (intro unat_length32) (simp add: fits32_def)
  ultimately show ?thesis
    using read_message_frame [OF assms(3,4)] assms(4)
      oversized_message_refused [OF assms(3), of v sock "word_of_nat (length m)" "m @ rest"]
    by (cases "length m \<le> MAX_MESSAGE") (simp_all add: encode_def)
qed

theorem framing_roundtrip_witness:
  "\<exists>v'. read_message feed_read 3 (encode ''hi'' @ ''rest'') = (Some ''hi'', v') \<and> v' = ''rest''"
proof -
  obtain ok w' where run: "send_message log_write 3 ''hi'' (\<lambda>_. []) = (ok, w')" by force
  then have "ok" by (simp add: send_message_def write_exact_def write_loop_log)
  then show ?thesis
    using framing_roundtrip [OF lawful_log_write _ lawful_feed_read, of 3 "''hi''" "\<lambda>_. []" w'
        "encode ''hi'' @ ''rest''" "''rest''"] run
    by (simp add: MAX_MESSAGE_def)
qed

end
