(* ===== verification/Spec2Isabelle.thy ===== *)
theory Spec2Isabelle
  imports Dialog Framing Subscriptions Rounds Protocol
begin

text \<open>
  Verification of myRedis, a key-value server with a Redis-like protocol, and of its client.

  \<^bold>\<open>The program.\<close> The server program (\<open>src/server/main.cpp\<close>) reads configuration files, loads the dump
  file into a database, starts a thread that removes expired keys, and runs an event loop. The event loop
  (\<open>networking/server.cpp\<close>) accepts clients, appends what they send to their read buffers, parses commands
  off the buffers (\<open>resp/resp.cpp\<close>, \<open>parser/parser.cpp\<close>), executes them (\<open>commands/command_handler.cpp\<close>) on the
  database (\<open>database/database.cpp\<close>) and the pub/sub manager (\<open>pubsub/pubsub.cpp\<close>), and writes the serialized
  replies. \<open>SAVE\<close> writes the dump (\<open>persistence/persistence.cpp\<close>). The client (\<open>networking/client.cpp\<close>,
  \<open>src/client/main.cpp\<close>) sends typed lines and shows the replies. \<open>protocol/protocol.cpp\<close> is an older framing
  that neither program uses any more.

  \<^bold>\<open>The theories.\<close> Each models the files named, one definition per function, method or loop.
  \<^item> \<open>Prelude\<close>: \<open>std::unordered_map\<close> as an association list with distinct keys (locale \<open>unordered_map\<close>,
    interpreted as \<open>um\<close>), 32-bit conversions, clocks, and the contracts \<open>codec\<close> and \<open>stream_parser\<close>.
  \<^item> \<open>Strings\<close>: what the code uses of the C++ library on strings (\<open>stoi\<close>, \<open>to_string\<close>, \<open>getline\<close>, \<open>>>\<close>, ...).
  \<^item> \<open>Database\<close>: the class \<open>Database\<close>, with its three maps and lazy expiry, the expiry thread one round at a
    time, and snapshots. The locale \<open>keyspace\<close> states what the list and string operations promise in
    terms of the live entries (\<^const>\<open>view\<close>); \<open>dbk\<close> is its interpretation on the code's operations.
  \<^item> \<open>Keyspace\<close>: the abstract machine on live entries (\<^const>\<open>spec_call\<close>, \<^const>\<open>spec_history\<close>), and that every history of calls
    refines it. Expired keys show in one place only, the count of \<open>del\<close>, which the machine allows.
  \<^item> \<open>Parser\<close>, \<open>Platform\<close>, \<open>Resp\<close>: inline commands; the loops around partial reads and writes; the RESP
    command parser, the serializers and the translation of textual replies to RESP. The array parser
    is interpreted as a \<open>stream_parser\<close> (\<open>ap\<close>).
  \<^item> \<open>PubSub\<close>: the class \<open>PubSubManager\<close> with its two indices.
  \<^item> \<open>Subscriptions\<close>: the machine on the set of subscriptions that a manager promises to be (locale
    \<open>subscription_manager\<close>), and its interpretation \<open>psm\<close> on the code's operations.
  \<^item> \<open>Persistence\<close>: the checksum, the binary format (interpretations \<open>u32\<close>, \<open>i64\<close>, \<open>str\<close> of \<open>codec\<close>), \<open>save\<close>,
    also as a sequence of file operations (\<^const>\<open>save_ops\<close>) to speak about crashes, and \<open>load\<close>.
  \<^item> \<open>Commands\<close>: the class \<open>CommandHandler\<close>: all handlers, routing, subscription mode, transactions.
  \<^item> \<open>Server\<close>: the class \<open>Server\<close>: the command loop \<^const>\<open>process_buffer\<close>, authentication, connections, the set-up with
    the signals that interrupt it (\<^const>\<open>start_setup\<close>), and the event loop, as the step relation \<^const>\<open>srv_step\<close> and as the function \<^const>\<open>event_loop\<close> of what happens, with
    expiry rounds and the shutdown signal as steps; both have the same reachable states.
  \<^item> \<open>Semantics\<close>: specification only. What each command on the data means on live entries (\<^const>\<open>request_of\<close>,
    \<^const>\<open>means\<close>), and that the handlers and the server implement it.
  \<^item> \<open>History\<close>: specification only. The log of the commands that a run of the server serves (\<^const>\<open>run_log\<close>) and
    what it makes of the live entries (\<^const>\<open>evolves\<close>).
  \<^item> \<open>Streams\<close>: the cutting of a stream of commands, and of one command, into reads (\<^const>\<open>read_all\<close>).
  \<^item> \<open>Rounds\<close>: a round of the event loop as one client sees it.
  \<^item> \<open>Client\<close>, \<open>Config\<close>, \<open>Protocol\<close>: the classes of those names; the client's parser is the
    \<open>stream_parser\<close> \<open>cp\<close>. The client's own copy of \<open>find_crlf\<close> is the one of \<open>Resp\<close>.
  \<^item> \<open>Framing\<close>: how many RESP values the text of a reply becomes.
  \<^item> \<open>Startup\<close>: the two \<open>main\<close> functions; \<^const>\<open>server_main\<close> is the whole server program for given events; the
    descriptors given to \<open>select\<close>, and the addresses at which the two programs meet.
  \<^item> \<open>Dialog\<close>: a user at the client program, the network and the server together.
  \<^item> This theory: properties of the programs as a whole.

  \<^bold>\<open>State, effects, errors.\<close> A class is a record and a method a function that returns its result and
  the new state. A handler acts on an \<open>env\<close>: database, pub/sub manager, files and network. Exceptions,
  early returns and error replies are branches. \<open>int\<close> results are 32-bit (\<open>to_int32\<close>, \<open>stoi\<close>), dump fields
  and checksums are machine words. What the operating system does is a parameter: the bytes that a
  write takes (\<open>os_write\<close>, constrained by \<^const>\<open>lawful_write\<close> where a theorem needs it), what has arrived
  when a read is made, what \<open>select\<close> and \<open>accept\<close> answer, for which addresses \<open>bind\<close> and \<open>connect\<close> succeed, how texts stand for
  addresses (\<open>os_pton\<close>, \<open>os_ntop\<close>), the outcome of every file operation (\<open>save_io\<close>), and
  the clock. A clock is a function from the path of call sites and loop iterations to a time, so that
  two readings in one call may differ.

  \<^bold>\<open>What is shown.\<close>
  \<^item> Database: for non-decreasing times and fewer than \<open>2 ^ 31\<close> pushed elements, every history of calls
    and expiry rounds returns what the abstract machine allows, which fixes every result except that the count of \<open>del\<close>
    may include expired keys; keys keep their type; what expiry rounds remove and leave behind.
  \<^item> Persistence: a dump is read back, up to whole milliseconds; any changed byte is rejected; the
    table-driven checksum is the bitwise one; loading is all or nothing; what \<open>save\<close> leaves behind for every
    outcome of its calls and for a crash at any point. Lengths and counts are assumed to
    fit their 32 bits, remaining times their 64 bits.
  \<^item> Protocols: commands, replies, framed messages, configuration files and quoted lines are parsed back to
    what was written, independently of how the bytes are cut; a reply is sent as the number of values the
    client has to read, and which replies are not.
  \<^item> Pub/sub: every history of calls gives the replies and deliveries of the machine on subscriptions; a message
    reaches exactly the subscribers that are counted, and nobody who has left.
  \<^item> Commands: every command on the data has the reply and the effect of its abstract request; list replies on
    the wire; \<open>EXEC\<close> has the effect of its commands and is guarded by watched strings; which commands
    do not notice a key of the wrong type; what \<open>WATCH\<close> misses.
  \<^item> Server: pipelined commands are served in order, however the bytes are cut, and the loop drains the buffer;
    over the network the server implements the abstract keyspace, for one client's commands with the bytes written
    back and for whole runs with any clients and any bytes; a command is answered in the round in which it
    is complete, with the reply of the state that its turn finds; partial commands wait; a subscribed client is restricted; without authentication
    nothing changes, and only the password authenticates; clients are isolated from each other; disconnecting
    forgets a client.
  \<^item> Whole program: the invariants hold in every state reachable from a start; a restart recovers what was
    saved; a signal after the set-up ends the program; only valid descriptors are watched; the two programs find each
    other; a published message arrives; what a user types is done on the abstract keyspace, and its replies are
    what the client shows.

  \<^bold>\<open>Bounds.\<close> All recursions are total, so no fuel is used: each loop has a measure (the bytes left to
  parse, write or read). The event loop is a function of the finitely many events seen so far, and
  \<^const>\<open>server_main\<close> has a result only once the loop is left. The command loop has the limit of 64 MiB that the
  code has; the theorems on pipelines assume a buffer within it. A read returns at most 4096 bytes
  (\<^const>\<open>READ_SIZE\<close>); the theorems on commands that arrive hold for any pieces of that size. \<^const>\<open>room\<close> says that a list stays below \<open>2 ^ 31\<close>
  elements even if every argument were pushed. Where a theorem relates a command to live entries at one time, the
  clock stands still during that command and never goes back.

  \<^bold>\<open>Not modelled.\<close> Winsock variants, log output, the banner and the prompt, the system calls themselves
  and what non-blocking mode and socket options do to them, and waiting on the condition variable. Signals act at the
  points of the set-up and between rounds of the event loop, and the expiry thread between rounds only: a signal in the
  middle of a round closes the listening socket under the loop, which the sources leave to chance. Each database method is atomic under its mutex, and a round of the
  expiry thread between two calls of one command changes no live entry and no result but the count of \<open>del\<close>
  (\<open>expiry_invisible\<close> in \<open>Keyspace\<close>). The
  order in which a real hash table iterates is that of the association list; no theorem on results depends
  on it except those on the sampling of the expiry thread.
\<close>

section \<open>The whole program\<close>

text \<open>The dump file is absent, or one that \<open>save\<close> wrote.\<close>

definition own_dump :: "files \<Rightarrow> bool" where
  "own_dump fs \<longleftrightarrow> fs ''dump.mrdb'' = None \<or>
     (\<exists>now db. db_inv db \<and> entries_fit now (get_snapshot db) \<and> fs ''dump.mrdb'' = Some (dump_file now db))"

lemma loaded_inv:
  assumes "own_dump fs"
  shows "db_inv (snd (load True now ''dump.mrdb'' new_database fs))"
  using assms unfolding own_dump_def
proof (elim disjE exE conjE)
  assume "fs ''dump.mrdb'' = None"
  then show ?thesis by (simp add: load_def db_inv_new)
next
  fix now0 db0
  assume dump: "db_inv db0" "entries_fit now0 (get_snapshot db0)" "fs ''dump.mrdb'' = Some (dump_file now0 db0)"
  have "db_wf db0" using dump(1) by (simp add: db_inv_def)
  from load_dump_file [OF this dump(2), where fs = fs and path = "''dump.mrdb''", OF dump(3)] dump(1)
  show ?thesis by (simp add: restored_inv)
qed

lemma boot_inv:
  assumes "own_dump fs" and "boot True now args fs w = Some srv"
  shows "srv_inv srv"
proof -
  have facts: "env_db (srv_env srv) = (snd (load True now ''dump.mrdb'' new_database fs))
       \<lparr>expiry_running := True, expiry_joinable := True\<rparr>"
     "env_ps (srv_env srv) = new_pubsub" "clients srv = []"
    using boot_result [of True now args fs w] assms(2) by auto
  then show ?thesis
    using loaded_inv [OF assms(1)] pubsub_wf_new by (simp add: srv_inv_def env_inv_def)
qed

lemma srv_inv_subscribers:
  assumes "srv_inv srv" and "s \<in> set (subscribers (env_ps (srv_env srv)) ch)"
  shows "um_find (clients srv) s \<noteq> None"
proof -
  have "ch \<in> set (channels_of (env_ps (srv_env srv)) s)"
    using assms by (simp add: srv_inv_def env_inv_def pubsub_wf_def indices_agree_def)
  then show ?thesis using assms(1) unfolding srv_inv_def by (metis list.set(1) empty_iff)
qed

text \<open>
  C5. The program as it is started: whatever the arguments and the configuration files are, with no dump
  or a dump that the program itself wrote, every state that the server reaches satisfies the invariants of
  the database and of the pub/sub manager, and every subscriber of every channel is a connected client.
\<close>

theorem system_invariant:
  assumes "own_dump fs" and "boot True now args fs w = Some srv0"
    and "reachable (start_listening os s bind_ok listen_ok t0 srv0) (go, srv)"
  shows "db_inv (env_db (srv_env srv)) \<and> pubsub_wf (env_ps (srv_env srv)) \<and>
    (\<forall>ch c. c \<in> set (subscribers (env_ps (srv_env srv)) ch) \<longrightarrow> um_find (clients srv) c \<noteq> None)"
proof -
  have inv: "srv_inv srv"
    using reachable_inv [OF assms(3)] by (simp add: start_listening_inv boot_inv [OF assms(1,2)])
  then show ?thesis using srv_inv_subscribers [OF inv] by (simp add: srv_inv_def env_inv_def)
qed

theorem system_invariant_witness:
  "case boot True 0 [''7000''] (\<lambda>_. None) (\<lambda>_. []) of
     None \<Rightarrow> False
   | Some srv \<Rightarrow>
       db_inv (env_db (srv_env (snd (event_loop
         [Round (still_os 1) (Ready (Some (7, local_peer)) (\<lambda>_. None)),
          Round (still_os 2) (Ready None (\<lambda>_. Some (ReadBytes (''SET k v'' @ crlf)))), Purge 3, Signal (still_os 4)]
         (start_listening (still_os 0) 3 (\<lambda>_. True) True 0 srv)))))"
    (is "case ?boot of None \<Rightarrow> False | Some srv \<Rightarrow> db_inv (env_db (srv_env (snd (event_loop ?evs _))))")
proof -
  obtain srv where srv: "?boot = Some (srv :: (socket_t \<Rightarrow> string) server)"
    using boot_result [of True 0 "[''7000'']" "\<lambda>_. None" "(\<lambda>_. []) :: socket_t \<Rightarrow> string"] by blast
  let ?s = "event_loop ?evs (start_listening (still_os 0) 3 (\<lambda>_. True) True 0 srv)"
  have run: "reachable (start_listening (still_os 0) 3 (\<lambda>_. True) True 0 srv) (fst ?s, snd ?s)"
    unfolding prod.collapse by (rule event_loop_reachable)
  have "own_dump (\<lambda>_. None)" by (simp add: own_dump_def)
  from system_invariant [OF this srv run] show ?thesis unfolding srv by simp
qed

text \<open>
  C6. What was saved survives a restart: after a \<open>SAVE\<close> command whose file operations succeed, the reply
  is \<open>OK\<close>, and the program started again with any arguments runs on a database that satisfies its
  invariant and holds exactly the entries that were live at the save, with their remaining times.
\<close>

theorem restart_recovers:
  assumes "db_inv (env_db e)" and "entries_fit (os_clock os []) (get_snapshot (env_db e))"
    and "os_save os [] = all_ok" and "\<not> in_subscription_mode h e" and "\<not> in_multi h"
    and "execute os \<lparr>cmd_name = ''SAVE'', cmd_args = xs\<rparr> h e = (reply, h', e')"
  shows "reply = ''OK'' \<and> env_db e' = env_db e \<and>
    (\<exists>srv. boot True now args (env_fs e') w = Some srv \<and> db_inv (env_db (srv_env srv)) \<and>
       (\<forall>key. entry_of (env_db (srv_env srv)) key =
          Option.bind (view (os_clock os []) (env_db e) key) (reloaded (os_clock os []) now)))"
proof -
  let ?db = "env_db e" and ?t = "os_clock os []"
  have wf: "db_wf ?db" using assms(1) by (simp add: db_inv_def)
  have run: "reply = ''OK''" "e' = e\<lparr>env_fs := snd (save all_ok ?t ''dump.mrdb'' ?db (env_fs e))\<rparr>"
    using assms(3-6) by (auto simp: execute_def execute_single_def handle_save_def save_all_ok Let_def)
  then have dump: "env_fs e' ''dump.mrdb'' = Some (dump_file ?t ?db)" by (simp add: save_all_ok)
  have "snd (load True now ''dump.mrdb'' new_database (env_fs e')) =
      load_snapshot (restored ?t now ?db) new_database"
    using load_dump_file [OF wf assms(2), where fs = "env_fs e'" and path = "''dump.mrdb''", OF dump] by simp
  then show ?thesis
    using boot_result [of True now args "env_fs e'" w] run restored_inv [OF assms(1)] restored_entry [OF wf]
    by auto
qed

theorem restart_recovers_witness:
  "let e = start_env\<lparr>env_db := db_set ''k'' ''v'' new_database\<rparr>;
       e' = snd (snd (execute (still_os 50) \<lparr>cmd_name = ''SAVE'', cmd_args = []\<rparr> (new_handler 4) e))
   in \<exists>srv. boot True 90 [] (env_fs e') (0 :: nat) = Some srv \<and>
        entry_of (env_db (srv_env srv)) ''k'' = Some (VString ''v'', None)"
proof -
  let ?db = "db_set ''k'' ''v'' new_database"
  let ?e = "start_env\<lparr>env_db := ?db\<rparr>"
  have inv: "db_inv ?db" by (intro wf_intros db_inv_new)
  have fit: "entries_fit 50 (get_snapshot ?db)"
    by (simp add: entries_fit_def live_entries_def db_set_def new_database_def snap_expired_def
        fits32_def um_put_def ttl_fits_def)
  obtain r h' e' where run: "execute (still_os 50) \<lparr>cmd_name = ''SAVE'', cmd_args = []\<rparr> (new_handler 4) ?e = (r, h', e')"
    by (metis prod_cases3)
  have "\<not> in_subscription_mode (new_handler 4) ?e"
    by (simp add: in_subscription_mode_def start_env_def new_pubsub_def is_subscribed_def new_handler_def)
  from restart_recovers [OF _ _ _ this _ run, of 90 "[]" "0 :: nat"] inv fit run show ?thesis
    by (auto simp: still_os_def new_handler_def view_set reloaded_def)
qed



section \<open>From one client to another\<close>

text \<open>
  C21. A published message arrives: when a connected client that may issue commands and has no subscription
  sends \<open>PUBLISH\<close>, in any pieces that reads of at most 4096 bytes return, and the sockets take what is written to them, every client subscribed to the channel receives
  exactly the message, every other client nothing, the publisher receives the number of subscribers, and nobody
  loses a subscription or the connection.
\<close>

theorem published_message_arrives:
  assumes "lawful_write (os_write os) out" and "\<And>s data w. fst (write_loop (os_write os) s data w)"
    and "srv_inv srv" and "password srv = [] \<or> authenticated (client_of s srv)"
    and "channels_of (env_ps (srv_env srv)) s = []" and "read_buffer (client_of s srv) = []"
    and "wire_words [''PUBLISH'', ch, msg]"
    and "int (length (subscribers (env_ps (srv_env srv)) ch)) \<le> int_max"
    and "concat chunks = wire [''PUBLISH'', ch, msg]" and "list_all piece chunks"
    and "read_all os s chunks srv = (keep, srv')"
  shows "keep \<and> subscribers (env_ps (srv_env srv')) = subscribers (env_ps (srv_env srv)) \<and>
    out (env_net (srv_env srv')) c = out (env_net (srv_env srv)) c @
      (if c = s then resp_integer (int (length (subscribers (env_ps (srv_env srv)) ch)))
       else if c \<in> set (subscribers (env_ps (srv_env srv)) ch) then push_message ch msg else [])"
proof -
  let ?e = "srv_env srv" and ?n = "int (length (subscribers (env_ps (srv_env srv)) ch))"
  have wf: "pubsub_wf (env_ps ?e)" using assms(3) by (simp add: srv_inv_def env_inv_def)
  have up: "upper ''PUBLISH'' = ''PUBLISH''" by code_simp
  let ?info = "client_info s srv"
  obtain ok st e' where all: "serve_all os 0 ?info (password srv) s [make_command [''PUBLISH'', ch, msg]]
      (client_of s srv) ?e = (ok, st, e')" by (metis prod_cases3)
  have "chunks \<noteq> []" using assms(9) wire_nonempty by (metis concat.simps(1))
  moreover have "list_all (\<lambda>c. c \<noteq> []) chunks" using assms(10) by (simp add: list_all_iff piece_def)
  ultimately have read: "keep = ok" "srv_env srv' = e'" 
    using feed_one_command [OF one_command_wire [OF assms(7)] _ _ _ all, of chunks] assms(6,9-11)
    by (auto simp: read_all_feed)
  obtain n ps w where pub: "publish (os_write (sub_os os 0)) ch msg (env_ps ?e) (env_net ?e) = (n, ps, w)"
    by (metis prod_cases3)
  then have pub': "publish (os_write os) ch msg (env_ps ?e) (env_net ?e) = (n, ps, w)" by (simp add: sub_os_def)
  note sent = publish_complete [OF wf assms(1,2) pub']
  have unsub: "\<not> is_subscribed s (env_ps ?e)" "s \<notin> set (subscribers (env_ps ?e) ch)"
    using assms(5) wf by (simp_all add: is_subscribed_iff pubsub_wf_def indices_agree_def)
  have "answer (sub_os os 0) ?info (password srv) s (make_command [''PUBLISH'', ch, msg]) (client_of s srv) ?e =
      (integer_text n, client_of s srv, ?e\<lparr>env_ps := ps, env_net := w\<rparr>)"
    using assms(4) unsub(1)
    by (auto simp: answer_def make_command_def up execute_def in_subscription_mode_def set_server_def
        new_handler_def execute_single_def handle_publish_def pub)
  moreover obtain e2 where snt: "send os s (serialize_response (integer_text n)) (?e\<lparr>env_ps := ps, env_net := w\<rparr>) = (True, e2)"
    using assms(2) by (force simp: send_def send_response_def resp_write_exact_def split_beta)
  ultimately have "keep" "srv_env srv' = e2" using all read by (simp_all add: make_command_def up)
  moreover have "serialize_response (integer_text n) = resp_integer ?n"
    using sent(1) assms(8) by (simp add: serialize_integer int64_range_def int_max_def)
  ultimately show ?thesis
    using send_sends [OF assms(1) snt] sent unsub(2) by simp
qed

theorem published_message_arrives_witness:
  "let e = start_env\<lparr>env_ps := snd (subscribe 8 [''news''] new_pubsub)\<rparr>;
       srv = (new_server [] 6399 e)\<lparr>clients := [(7, new_client []), (8, new_client [])]\<rparr>;
       bytes = wire [''PUBLISH'', ''news'', ''hi''];
       srv' = snd (read_all (still_os 0) 7 [take 9 bytes, drop 9 bytes] srv)
   in env_net (srv_env srv') 8 = push_message ''news'' ''hi''"
proof -
  let ?ps = "snd (subscribe 8 [''news''] new_pubsub)"
  let ?e = "start_env\<lparr>env_ps := ?ps\<rparr>"
  let ?srv = "(new_server [] 6399 ?e)\<lparr>clients := [(7, new_client []), (8, new_client [])]\<rparr>"
  let ?bytes = "wire [''PUBLISH'', ''news'', ''hi'']"
  let ?chunks = "[take 9 ?bytes, drop 9 ?bytes]"
  obtain keep srv' where run: "read_all (still_os 0) 7 ?chunks ?srv = (keep, srv')"
    by (metis prod.collapse)
  have subs: "subscribers ?ps ''news'' = [8]" "channels_of ?ps c = (if c = 8 then [''news''] else [])" for c
    by (simp_all add: insort_insert_key_def)
  have env: "env_ps (srv_env ?srv) = ?ps" "env_net (srv_env ?srv) = (\<lambda>_. [])" "password ?srv = []"
    by (simp_all add: new_server_def start_env_def)
  have "env_inv ?e" using subscribe_wf [OF pubsub_wf_new, of 8 "[''news'']"] by (simp add: start_env_def env_inv_def db_inv_new)
  then have inv: "srv_inv ?srv" using subs(2) by (simp add: srv_inv_def new_server_def um_wf_def um_keys_def um_find_def)
  have "length ?bytes = 35" by code_simp
  then have pieces: "concat ?chunks = ?bytes" "list_all piece ?chunks" by (auto simp: piece_def READ_SIZE_def)
  have "read_buffer (client_of 7 ?srv) = []" by (simp add: client_of_def um_find_def new_client_def)
  from published_message_arrives [OF _ _ inv _ _ this _ _ pieces run, of "\<lambda>w. w" 8, unfolded env subs]
  have "env_net (srv_env srv') 8 = push_message ''news'' ''hi''"
    by (simp add: still_os_def lawful_log_write write_loop_log wire_words_def int_max_def)
  then show ?thesis by (simp only: Let_def run snd_conv)
qed

end
